(* ===== verification/Prelude.thy ===== *)
theory Prelude
  imports Complex_Main "HOL-Library.List_Lexorder" "HOL-Library.Char_ord"
begin

text \<open>
  Shared vocabulary of the development: the result type of fallible Python code, dictionaries as
  insertion-ordered association lists with \<open>get\<close>, item assignment and \<open>pop\<close>, and the generic
  lemmas the component theories use. Python floats are modelled by exact real numbers (rounding
  of IEEE arithmetic is not modelled); Python integers are \<open>int\<close>; strings are lists of
  characters whose codes are the Unicode code points below 256.
\<close>

named_theorems dict_simps \<open>laws of the dictionary operations\<close>

section \<open>Python errors and results\<close>

text \<open>The built-in exceptions the modelled code can raise on its own.\<close>

datatype pyerr =
    ValueError string
  | TypeError string
  | RuntimeError string
  | OverflowError string
  | KeyError string
  | JSONDecodeError string
  | ZeroDivisionError string

type_synonym 'a res = "pyerr + 'a"

section \<open>Dictionaries\<close>

type_synonym ('k, 'v) dict = "('k \<times> 'v) list"

definition dget :: "('k, 'v) dict \<Rightarrow> 'k \<Rightarrow> 'v option" where
  "dget d k = map_of d k"

fun dset :: "('k, 'v) dict \<Rightarrow> 'k \<Rightarrow> 'v \<Rightarrow> ('k, 'v) dict" where
  "dset [] k v = [(k, v)]"
| "dset ((k', v') # d) k v = (if k' = k then (k, v) # d else (k', v') # dset d k v)"

definition dpop :: "('k, 'v) dict \<Rightarrow> 'k \<Rightarrow> ('k, 'v) dict" where
  "dpop d k = filter (\<lambda>e. fst e \<noteq> k) d"

definition dkeys :: "('k, 'v) dict \<Rightarrow> 'k list" where
  "dkeys d = map fst d"

definition dict_ok :: "('k, 'v) dict \<Rightarrow> bool" where
  "dict_ok d \<longleftrightarrow> distinct (dkeys d)"

lemma dget_Nil [simp, dict_simps]: "dget [] k = None"
  by (simp add: dget_def)

lemma dget_dset [simp, dict_simps]: "dget (dset d k v) k' = (if k' = k then Some v else dget d k')"
  by (induction d k v rule: dset.induct) (auto simp: dget_def)

lemma dget_dpop [simp, dict_simps]: "dget (dpop d k) k' = (if k' = k then None else dget d k')"
  by (induction d) (auto simp: dget_def dpop_def)

lemma set_dkeys_dset [simp, dict_simps]: "set (dkeys (dset d k v)) = insert k (set (dkeys d))"
  by (induction d k v rule: dset.induct) (auto simp: dkeys_def)

lemma dict_ok_Nil [simp, dict_simps]: "dict_ok []"
  by (simp add: dict_ok_def dkeys_def)

lemma dict_ok_dset [simp, intro]: "dict_ok d \<Longrightarrow> dict_ok (dset d k v)"
proof (induction d k v rule: dset.induct)
  case (1 k v)
  then show ?case by (simp add: dict_ok_def dkeys_def)
next
  case (2 k' v' d k v)
  then show ?case
    using set_dkeys_dset [of d k v] by (auto simp: dict_ok_def dkeys_def)
qed

lemma dict_ok_dpop [simp, intro]: "dict_ok d \<Longrightarrow> dict_ok (dpop d k)"
  by (induction d) (auto simp: dict_ok_def dkeys_def dpop_def)

lemma dget_None_iff: "dget d k = None \<longleftrightarrow> k \<notin> set (dkeys d)"
  by (simp add: dget_def dkeys_def map_of_eq_None_iff)

section \<open>An interface for keyed state\<close>

text \<open>
  The registries of the program (buckets, breakers, futures by key) and its tables are all used
  through lookup, store and removal by key. The locale states what every client relies on.
\<close>

locale keyed_store =
  fixes lookup :: "'m \<Rightarrow> 'k \<Rightarrow> 'v option"
    and store :: "'m \<Rightarrow> 'k \<Rightarrow> 'v \<Rightarrow> 'm"
    and remove :: "'m \<Rightarrow> 'k \<Rightarrow> 'm"
    and invar :: "'m \<Rightarrow> bool"
  assumes lookup_store: "lookup (store m k v) k' = (if k' = k then Some v else lookup m k')"
    and lookup_remove: "lookup (remove m k) k' = (if k' = k then None else lookup m k')"
    and invar_store: "invar m \<Longrightarrow> invar (store m k v)"
    and invar_remove: "invar m \<Longrightarrow> invar (remove m k)"
begin

lemma store_other: "k' \<noteq> k \<Longrightarrow> lookup (store m k v) k' = lookup m k'"
  by (simp add: lookup_store)

lemma store_remove_fresh: "lookup m k = None \<Longrightarrow> lookup (remove (store m k v) k) = lookup m"
  by (rule ext) (simp add: lookup_store lookup_remove)

lemma last_store_wins: "lookup (store (store m k v) k w) = lookup (store m k w)"
  by (rule ext) (simp add: lookup_store)

lemma store_commute: "k \<noteq> k' \<Longrightarrow> lookup (store (store m k v) k' w) = lookup (store (store m k' w) k v)"
  by (rule ext) (simp add: lookup_store)

end

interpretation pydict: keyed_store dget dset dpop dict_ok
  by unfold_locales auto

section \<open>Transition systems\<close>

inductive reach :: "('s \<Rightarrow> bool) \<Rightarrow> ('s \<Rightarrow> 's \<Rightarrow> bool) \<Rightarrow> 's \<Rightarrow> bool"
  for init :: "'s \<Rightarrow> bool" and step :: "'s \<Rightarrow> 's \<Rightarrow> bool" where
  reach_start: "init s \<Longrightarrow> reach init step s"
| reach_next: "reach init step s \<Longrightarrow> step s t \<Longrightarrow> reach init step t"

text \<open>
  An inductive invariant: it holds at the start and every step keeps it. A component provides
  the two laws for its own steps; its clients use \<open>reach_inv\<close> and \<open>steps_inv\<close>.
\<close>

locale invariant_system =
  fixes init :: "'s \<Rightarrow> bool"
    and step :: "'s \<Rightarrow> 's \<Rightarrow> bool"
    and inv :: "'s \<Rightarrow> bool"
  assumes inv_init: "init s \<Longrightarrow> inv s"
    and inv_step: "inv s \<Longrightarrow> step s t \<Longrightarrow> inv t"
begin

lemma reach_inv: "reach init step s \<Longrightarrow> inv s"
  by (induction rule: reach.induct) (auto intro: inv_init inv_step)

lemma steps_inv: "step\<^sup>*\<^sup>* s t \<Longrightarrow> inv s \<Longrightarrow> inv t"
  by (induction rule: rtranclp_induct) (auto intro: inv_step)

end

lemma reach_mono: "reach init step s \<Longrightarrow> (\<And>s. init s \<Longrightarrow> init' s) \<Longrightarrow> reach init' step s"
  by (induction rule: reach.induct) (auto intro: reach_start reach_next)

text \<open>
  A budget over a state machine: what was granted pays for what was spent and for what the state still
  holds, and no step takes more than it brings.
\<close>

locale budget_system = invariant_system init step inv
  for init :: "'s \<Rightarrow> bool" and step :: "'s \<Rightarrow> 's \<Rightarrow> bool" and inv :: "'s \<Rightarrow> bool" +
  fixes spent :: "'s \<Rightarrow> int"
    and held :: "'s \<Rightarrow> int"
    and granted :: "'s \<Rightarrow> int"
  assumes paid_init: "init s \<Longrightarrow> spent s + held s \<le> granted s"
    and paid_step: "inv s \<Longrightarrow> step s t \<Longrightarrow> spent t + held t - granted t \<le> spent s + held s - granted s"
    and held_nonneg: "inv s \<Longrightarrow> 0 \<le> held s"
begin

lemma reach_paid: "reach init step s \<Longrightarrow> spent s + held s \<le> granted s"
proof (induction rule: reach.induct)
  case (reach_next s t)
  then show ?case using paid_step [OF reach_inv [OF reach_next.hyps(1)] reach_next.hyps(2)] by linarith
qed (rule paid_init)

lemma spent_within: "reach init step s \<Longrightarrow> spent s \<le> granted s"
  using reach_paid [of s] held_nonneg [OF reach_inv, of s] by linarith

end

lemma reach_steps: "reach init step s \<Longrightarrow> step\<^sup>*\<^sup>* s t \<Longrightarrow> reach init step t"
  by (rotate_tac, induction rule: rtranclp_induct) (auto intro: reach_next)

section \<open>Generic lemmas\<close>

lemma sum_case_res [simp]:
  "(case Inl e of Inl a \<Rightarrow> f a | Inr b \<Rightarrow> g b) = f e"
  "(case Inr r of Inl a \<Rightarrow> f a | Inr b \<Rightarrow> g b) = g r"
  by simp_all

lemma length_filter_complement:
  "length (filter P xs) + length (filter (\<lambda>x. \<not> P x) xs) = length xs"
  by (induction xs) auto

lemma filter_cong_set: "(\<And>x. x \<in> set xs \<Longrightarrow> P x) \<Longrightarrow> filter P xs = xs"
  by (induction xs) auto

lemma sum_list_update_int:
  fixes f :: "'a \<Rightarrow> int"
  shows "i < length xs \<Longrightarrow> sum_list (map f (xs[i := y])) = sum_list (map f xs) - f (xs ! i) + f y"
proof (induction xs arbitrary: i)
  case (Cons x xs)
  then show ?case by (cases i) auto
qed simp

end
