(* ===== verification/Py_Text.thy ===== *)
theory Py_Text
  imports Prelude
begin

text \<open>
  The text operations of Python that the program uses: decimal printing of integers, the
  fixed-point format \<open>:.1f\<close>, \<open>str.upper\<close>, \<open>str.lower\<close> and \<open>str.strip\<close>, and the
  reading of digit runs. \<open>nat_str\<close> and \<open>digits_val\<close> are inverse to each other, which the JSON
  round trip and the parsing of \<open>Retry-After\<close> use.
\<close>

section \<open>Characters\<close>

definition code :: "char \<Rightarrow> nat" where
  "code c = of_char c"

definition is_digit :: "char \<Rightarrow> bool" where
  "is_digit c \<longleftrightarrow> 48 \<le> code c \<and> code c \<le> 57"

definition digit_char :: "nat \<Rightarrow> char" where
  "digit_char d = char_of (48 + d)"

definition char_digit :: "char \<Rightarrow> nat" where
  "char_digit c = code c - 48"

text \<open>\<open>str.isspace\<close> below code point 256, the characters \<open>str.strip\<close> removes.\<close>

definition is_space :: "char \<Rightarrow> bool" where
  "is_space c \<longleftrightarrow> code c \<in> {9, 10, 11, 12, 13, 28, 29, 30, 31, 32, 133, 160}"

definition strip :: "string \<Rightarrow> string" where
  "strip s = rev (dropWhile is_space (rev (dropWhile is_space s)))"

text \<open>
  \<open>str.upper\<close> on code points below 256; the two letters whose capital lies beyond (U+00B5 and
  U+00FF) are left as they are.
\<close>

definition upper_char :: "char \<Rightarrow> string" where
  "upper_char c =
     (let n = code c in
      if 97 \<le> n \<and> n \<le> 122 then [char_of (n - 32)]
      else if n = 223 then ''SS''
      else if 224 \<le> n \<and> n \<le> 254 \<and> n \<noteq> 247 then [char_of (n - 32)]
      else [c])"

definition upper :: "string \<Rightarrow> string" where
  "upper s = concat (map upper_char s)"

definition lower_char :: "char \<Rightarrow> char" where
  "lower_char c =
     (let n = code c in
      if 65 \<le> n \<and> n \<le> 90 then char_of (n + 32)
      else if 192 \<le> n \<and> n \<le> 222 \<and> n \<noteq> 215 then char_of (n + 32)
      else c)"

definition lower :: "string \<Rightarrow> string" where
  "lower s = map lower_char s"

section \<open>Decimal numbers\<close>

fun nat_str :: "nat \<Rightarrow> string" where
  "nat_str n = (if n < 10 then [digit_char n] else nat_str (n div 10) @ [digit_char (n mod 10)])"

declare nat_str.simps [simp del]

definition int_str :: "int \<Rightarrow> string" where
  "int_str i = (if i < 0 then CHR ''-'' # nat_str (nat (- i)) else nat_str (nat i))"

definition digits_val :: "string \<Rightarrow> nat" where
  "digits_val ds = foldl (\<lambda>n c. 10 * n + char_digit c) 0 ds"

text \<open>\<open>f"{x:.1f}"\<close>: one digit after the point, ties rounded to even.\<close>

definition round_half_even :: "real \<Rightarrow> int" where
  "round_half_even y =
     (let k = \<lfloor>y\<rfloor>; f = y - of_int k in
      if f > 1 / 2 \<or> (f = 1 / 2 \<and> odd k) then k + 1 else k)"

definition fmt_1f :: "real \<Rightarrow> string" where
  "fmt_1f x =
     (let r = nat (round_half_even (\<bar>x\<bar> * 10)) in
      (if x < 0 then ''-'' else []) @ nat_str (r div 10) @ ''.'' @ nat_str (r mod 10))"

text \<open>\<open>f"{x:.3f}"\<close>: three digits after the point.\<close>

definition fmt_3f :: "real \<Rightarrow> string" where
  "fmt_3f x =
     (let r = nat (round_half_even (\<bar>x\<bar> * 1000)); m = r mod 1000 in
      (if x < 0 then ''-'' else []) @ nat_str (r div 1000) @ ''.''
        @ nat_str (m div 100) @ nat_str (m div 10 mod 10) @ nat_str (m mod 10))"

section \<open>Facts\<close>

lemma code_char_of [simp]: "n < 256 \<Longrightarrow> code (char_of n) = n"
  by (simp add: code_def)

lemma code_less [simp]: "code c < 256"
  by (simp add: code_def)

lemma char_of_code [simp]: "char_of (code c) = c"
  by (simp add: code_def)

lemma code_inject: "code c = code d \<longleftrightarrow> c = d"
  by (metis char_of_code)

lemma digit_char_digit [simp]: "d < 10 \<Longrightarrow> char_digit (digit_char d) = d"
  by (simp add: char_digit_def digit_char_def)

lemma is_digit_digit_char [simp]: "d < 10 \<Longrightarrow> is_digit (digit_char d)"
  by (simp add: is_digit_def digit_char_def)

lemma nat_str_digits: "\<forall>c \<in> set (nat_str n). is_digit c"
proof (induction n rule: nat_str.induct)
  case (1 n)
  then show ?case
    by (subst nat_str.simps) auto
qed

lemma nat_str_nonempty [simp]: "nat_str n \<noteq> []"
  by (subst nat_str.simps) simp

lemma digits_val_snoc: "digits_val (ds @ [c]) = 10 * digits_val ds + char_digit c"
  by (simp add: digits_val_def)

lemma digits_val_nat_str [simp]: "digits_val (nat_str n) = n"
proof (induction n rule: nat_str.induct)
  case (1 n)
  show ?case
  proof (cases "n < 10")
    case True
    then show ?thesis by (subst nat_str.simps) (simp add: digits_val_def)
  next
    case False
    with 1 show ?thesis by (subst nat_str.simps) (simp add: digits_val_snoc)
  qed
qed

lemma nat_str_inject [simp]: "nat_str m = nat_str n \<longleftrightarrow> m = n"
  by (metis digits_val_nat_str)

lemma hd_nat_str_digit [simp]: "is_digit (hd (nat_str n))"
  using nat_str_digits [of n] by (meson hd_in_set nat_str_nonempty)

lemma int_str_inject [simp]: "int_str i = int_str j \<longleftrightarrow> i = j"
proof
  assume eq: "int_str i = int_str j"
  have no_minus: "nat_str n \<noteq> CHR ''-'' # s" for n s
    using hd_nat_str_digit [of n] by (auto simp: is_digit_def code_def)
  show "i = j"
    using eq no_minus no_minus [symmetric] by (auto simp: int_str_def split: if_splits)
qed simp

lemma upper_upper_char: "upper (upper_char c) = upper_char c"
  by (auto simp: upper_def upper_char_def Let_def code_def)

lemma upper_append: "upper (s @ t) = upper s @ upper t"
  by (simp add: upper_def)

lemma upper_idem [simp]: "upper (upper s) = upper s"
proof (induction s)
  case Nil
  then show ?case by (simp add: upper_def)
next
  case (Cons c s)
  have "upper (c # s) = upper_char c @ upper s"
    by (simp add: upper_def)
  with Cons show ?case by (simp add: upper_append upper_upper_char)
qed

lemma lower_idem [simp]: "lower (lower s) = lower s"
  by (induction s) (auto simp: lower_def lower_char_def Let_def)

lemma round_half_even_int [simp]: "round_half_even (of_int k) = k"
  by (simp add: round_half_even_def)

end
