(* ===== verification/Py_Json.thy ===== *)
theory Py_Json
  imports Py_Text
begin

text \<open>
  Python values that a request can carry and the part of the \<open>json\<close> module the program calls:
  \<open>json.dumps\<close> with its options (\<open>sort_keys\<close>, \<open>separators\<close>, \<open>default=str\<close>) and
  \<open>json.loads\<close>. A float is represented by the decimal literal that \<open>repr\<close> prints for it.
  The main result is the round trip \<open>loads_dumps\<close>: reading back what was written gives the
  value itself, up to the key order the options ask for and the \<open>str\<close> of objects JSON cannot
  encode.
\<close>

section \<open>Values\<close>

datatype pyval =
    PyNone
  | PyBool bool
  | PyInt int
  | PyFloat string
  | PyStr string
  | PyBytes string
  | PyOpaque string \<comment> \<open>an object JSON cannot encode, with its \<open>str\<close>\<close>
  | PyList "pyval list"
  | PyDict "(string \<times> pyval) list"

section \<open>Printing\<close>

definition hex_digit :: "nat \<Rightarrow> char" where
  "hex_digit n = (if n < 10 then char_of (48 + n) else char_of (87 + n))"

definition hex_val :: "char \<Rightarrow> nat option" where
  "hex_val c =
     (let n = code c in
      if 48 \<le> n \<and> n \<le> 57 then Some (n - 48)
      else if 97 \<le> n \<and> n \<le> 102 then Some (n - 87)
      else if 65 \<le> n \<and> n \<le> 70 then Some (n - 55)
      else None)"

text \<open>\<open>ensure_ascii\<close>: everything outside the printable ASCII range is escaped.\<close>

definition esc_char :: "char \<Rightarrow> string" where
  "esc_char c =
     (let n = code c in
      if n = 34 then [CHR 0x5C, CHR 0x22]
      else if n = 92 then [CHR 0x5C, CHR 0x5C]
      else if n = 10 then [CHR 0x5C, CHR ''n'']
      else if n = 13 then [CHR 0x5C, CHR ''r'']
      else if n = 9 then [CHR 0x5C, CHR ''t'']
      else if n = 12 then [CHR 0x5C, CHR ''f'']
      else if n = 8 then [CHR 0x5C, CHR ''b'']
      else if 32 \<le> n \<and> n \<le> 126 then [c]
      else [CHR 0x5C, CHR ''u'', CHR ''0'', CHR ''0'', hex_digit (n div 16), hex_digit (n mod 16)])"

definition json_str :: "string \<Rightarrow> string" where
  "json_str s = CHR 0x22 # concat (map esc_char s) @ [CHR 0x22]"

definition json_float :: "string \<Rightarrow> string" where
  "json_float s =
     (if s = ''nan'' then ''NaN'' else if s = ''inf'' then ''Infinity''
      else if s = ''-inf'' then ''-Infinity'' else s)"

text \<open>\<open>str(b)\<close> of a bytes object.\<close>

definition bytes_char :: "char \<Rightarrow> char \<Rightarrow> string" where
  "bytes_char q c =
     (let n = code c in
      if c = q \<or> n = 92 then [CHR 0x5C, c]
      else if n = 9 then [CHR 0x5C, CHR ''t'']
      else if n = 10 then [CHR 0x5C, CHR ''n'']
      else if n = 13 then [CHR 0x5C, CHR ''r'']
      else if 32 \<le> n \<and> n \<le> 126 then [c]
      else [CHR 0x5C, CHR ''x'', hex_digit (n div 16), hex_digit (n mod 16)])"

definition bytes_repr :: "string \<Rightarrow> string" where
  "bytes_repr b =
     (let q = (if CHR 0x27 \<in> set b \<and> CHR 0x22 \<notin> set b then CHR 0x22 else CHR 0x27) in
      CHR ''b'' # q # concat (map (bytes_char q) b) @ [q])"

record json_opts =
  sort_keys :: bool
  item_sep :: string
  key_sep :: string
  default_str :: bool

definition default_opts :: json_opts where
  "default_opts = \<lparr>sort_keys = False, item_sep = '', '', key_sep = '': '', default_str = False\<rparr>"

fun join :: "string \<Rightarrow> string list \<Rightarrow> string" where
  "join sep [] = []"
| "join sep [s] = s"
| "join sep (s # t # ss) = s @ sep @ join sep (t # ss)"

text \<open>Evaluate a list of results left to right, stopping at the first exception.\<close>

fun collect :: "'a res list \<Rightarrow> 'a list res" where
  "collect [] = Inr []"
| "collect (r # rs) =
     (case r of Inl e \<Rightarrow> Inl e
      | Inr x \<Rightarrow> (case collect rs of Inl e \<Rightarrow> Inl e | Inr xs \<Rightarrow> Inr (x # xs)))"

definition order_items :: "json_opts \<Rightarrow> (string \<times> 'v) list \<Rightarrow> (string \<times> 'v) list" where
  "order_items opts kvs = (if sort_keys opts then sort_key fst kvs else kvs)"

definition not_serializable :: "json_opts \<Rightarrow> string \<Rightarrow> string \<Rightarrow> string res" where
  "not_serializable opts ty s =
     (if default_str opts then Inr (json_str s)
      else Inl (TypeError (''Object of type '' @ ty @ '' is not JSON serializable'')))"

lemma set_order_items [simp]: "set (order_items opts kvs) = set kvs"
  by (simp add: order_items_def)

lemma size_dict_member [termination_simp]:
  "(k, v) \<in> set kvs \<Longrightarrow> size v < Suc (size_list (\<lambda>x. Suc (size (snd x))) kvs)"
  by (induction kvs) auto

fun dumps :: "json_opts \<Rightarrow> pyval \<Rightarrow> string res" where
  "dumps opts PyNone = Inr ''null''"
| "dumps opts (PyBool b) = Inr (if b then ''true'' else ''false'')"
| "dumps opts (PyInt i) = Inr (int_str i)"
| "dumps opts (PyFloat s) = Inr (json_float s)"
| "dumps opts (PyStr s) = Inr (json_str s)"
| "dumps opts (PyBytes b) = not_serializable opts ''bytes'' (bytes_repr b)"
| "dumps opts (PyOpaque s) = not_serializable opts ''object'' s"
| "dumps opts (PyList xs) =
     (case collect (map (dumps opts) xs) of
        Inl e \<Rightarrow> Inl e
      | Inr ss \<Rightarrow> Inr (''['' @ join (item_sep opts) ss @ '']''))"
| "dumps opts (PyDict kvs) =
     (case collect (map (\<lambda>(k, v). case dumps opts v of Inl e \<Rightarrow> Inl e
                          | Inr s \<Rightarrow> Inr (json_str k @ key_sep opts @ s)) (order_items opts kvs)) of
        Inl e \<Rightarrow> Inl e
      | Inr ss \<Rightarrow> Inr (''{'' @ join (item_sep opts) ss @ ''}''))"

section \<open>Reading\<close>

definition is_ws :: "char \<Rightarrow> bool" where
  "is_ws c \<longleftrightarrow> code c \<in> {32, 9, 10, 13}"

definition skip_ws :: "string \<Rightarrow> string" where
  "skip_ws s = dropWhile is_ws s"

definition simple_escape :: "char \<Rightarrow> char option" where
  "simple_escape c =
     (let n = code c in
      if n = 34 \<or> n = 92 \<or> n = 47 then Some c
      else if c = CHR ''n'' then Some (char_of (10::nat))
      else if c = CHR ''r'' then Some (char_of (13::nat))
      else if c = CHR ''t'' then Some (char_of (9::nat))
      else if c = CHR ''f'' then Some (char_of (12::nat))
      else if c = CHR ''b'' then Some (char_of (8::nat))
      else None)"

text \<open>The characters of a string literal up to the closing quote, and the rest.\<close>

fun scan_str :: "string \<Rightarrow> (string \<times> string) option" where
  "scan_str [] = None"
| "scan_str (c # cs) =
     (if code c = 34 then Some ([], cs)
      else if code c = 92 then
        (case cs of
           [] \<Rightarrow> None
         | e # rest \<Rightarrow>
             if e = CHR ''u'' then
               (case rest of
                  a # b # x # y # rest' \<Rightarrow>
                    (case (hex_val a, hex_val b, hex_val x, hex_val y) of
                       (Some 0, Some 0, Some h, Some l) \<Rightarrow>
                         map_option (\<lambda>(s, r). (char_of (16 * h + l) # s, r)) (scan_str rest')
                     | _ \<Rightarrow> None)
                | _ \<Rightarrow> None)
             else (case simple_escape e of
                     None \<Rightarrow> None
                   | Some d \<Rightarrow> map_option (\<lambda>(s, r). (d # s, r)) (scan_str rest)))
      else if code c < 32 then None
      else map_option (\<lambda>(s, r). (c # s, r)) (scan_str cs))"

text \<open>
  The number literal at the head of the input: integer part (no leading zeros), optional
  fraction, optional exponent. The result is the literal's text, whether it is a float, the rest.
\<close>

definition scan_int_part :: "string \<Rightarrow> (string \<times> string) option" where
  "scan_int_part s =
     (let ds = takeWhile is_digit s in
      if ds = [] then None
      else if hd ds = CHR ''0'' then Some (''0'', tl s)
      else Some (ds, dropWhile is_digit s))"

definition scan_frac :: "string \<Rightarrow> string \<times> string" where
  "scan_frac s =
     (case s of
        c # cs \<Rightarrow> (let ds = takeWhile is_digit cs in
                  if c = CHR ''.'' \<and> ds \<noteq> [] then (c # ds, dropWhile is_digit cs) else ([], s))
      | [] \<Rightarrow> ([], []))"

definition scan_expo :: "string \<Rightarrow> string \<times> string" where
  "scan_expo s =
     (case s of
        c # cs \<Rightarrow>
          (let (sg, r) = (case cs of d # ds \<Rightarrow> if d = CHR ''+'' \<or> d = CHR ''-'' then ([d], ds) else ([], cs)
                          | [] \<Rightarrow> ([], []));
               ds = takeWhile is_digit r in
           if (c = CHR ''e'' \<or> c = CHR ''E'') \<and> ds \<noteq> [] then (c # sg @ ds, dropWhile is_digit r) else ([], s))
      | [] \<Rightarrow> ([], []))"

definition scan_number :: "string \<Rightarrow> (pyval \<times> string) option" where
  "scan_number s =
     (let (neg, s') = (case s of c # cs \<Rightarrow> if c = CHR ''-'' then (True, cs) else (False, s) | [] \<Rightarrow> (False, [])) in
      case scan_int_part s' of
        None \<Rightarrow> None
      | Some (ip, r1) \<Rightarrow>
          (let (fr, r2) = scan_frac r1; (ex, r3) = scan_expo r2; sg = (if neg then ''-'' else []) in
           if fr = [] \<and> ex = [] then
             Some (PyInt (if neg then - int (digits_val ip) else int (digits_val ip)), r3)
           else Some (PyFloat (sg @ ip @ fr @ ex), r3)))"

definition strip_prefix :: "string \<Rightarrow> string \<Rightarrow> string option" where
  "strip_prefix p s = (if take (length p) s = p then Some (drop (length p) s) else None)"

definition scan_literal :: "string \<Rightarrow> (pyval \<times> string) option" where
  "scan_literal s =
     (case strip_prefix ''null'' s of Some r \<Rightarrow> Some (PyNone, r) | None \<Rightarrow>
      case strip_prefix ''true'' s of Some r \<Rightarrow> Some (PyBool True, r) | None \<Rightarrow>
      case strip_prefix ''false'' s of Some r \<Rightarrow> Some (PyBool False, r) | None \<Rightarrow>
      case scan_number s of Some res \<Rightarrow> Some res | None \<Rightarrow>
      case strip_prefix ''NaN'' s of Some r \<Rightarrow> Some (PyFloat ''nan'', r) | None \<Rightarrow>
      case strip_prefix ''Infinity'' s of Some r \<Rightarrow> Some (PyFloat ''inf'', r) | None \<Rightarrow>
      case strip_prefix ''-Infinity'' s of Some r \<Rightarrow> Some (PyFloat ''-inf'', r) | None \<Rightarrow> None)"

text \<open>\<open>dict(pairs)\<close>: a repeated key keeps its first position and its last value.\<close>

definition dict_of_pairs :: "(string \<times> pyval) list \<Rightarrow> (string \<times> pyval) list" where
  "dict_of_pairs kvs = foldl (\<lambda>d (k, v). dset d k v) [] kvs"

text \<open>
  Values, array elements and object members; each call spends one unit of fuel. \<open>loads\<close> gives
  more fuel than the input can use (two calls per character).
\<close>

fun parse_value :: "nat \<Rightarrow> string \<Rightarrow> (pyval \<times> string) option"
  and parse_elems :: "nat \<Rightarrow> string \<Rightarrow> (pyval list \<times> string) option"
  and parse_members :: "nat \<Rightarrow> string \<Rightarrow> ((string \<times> pyval) list \<times> string) option" where
  "parse_value 0 s = None"
| "parse_value (Suc n) s =
     (case s of
        [] \<Rightarrow> None
      | c # cs \<Rightarrow>
          if code c = 34 then map_option (\<lambda>(t, r). (PyStr t, r)) (scan_str cs)
          else if c = CHR ''{'' then
            (let r = skip_ws cs in
             if r \<noteq> [] \<and> hd r = CHR ''}'' then Some (PyDict [], tl r)
             else map_option (\<lambda>(kvs, r'). (PyDict (dict_of_pairs kvs), r')) (parse_members n r))
          else if c = CHR ''['' then
            (let r = skip_ws cs in
             if r \<noteq> [] \<and> hd r = CHR '']'' then Some (PyList [], tl r)
             else map_option (\<lambda>(vs, r'). (PyList vs, r')) (parse_elems n r))
          else scan_literal s)"
| "parse_elems 0 s = None"
| "parse_elems (Suc n) s =
     (case parse_value n s of
        None \<Rightarrow> None
      | Some (v, r) \<Rightarrow>
          (case skip_ws r of
             [] \<Rightarrow> None
           | c # cs \<Rightarrow>
               if c = CHR '']'' then Some ([v], cs)
               else if c = CHR '','' then map_option (\<lambda>(vs, r'). (v # vs, r')) (parse_elems n (skip_ws cs))
               else None))"
| "parse_members 0 s = None"
| "parse_members (Suc n) s =
     (case s of
        [] \<Rightarrow> None
      | q # qs \<Rightarrow>
          if code q \<noteq> 34 then None
          else (case scan_str qs of
                  None \<Rightarrow> None
                | Some (k, r) \<Rightarrow>
                    (case skip_ws r of
                       [] \<Rightarrow> None
                     | c # cs \<Rightarrow>
                         if c \<noteq> CHR '':'' then None
                         else (case parse_value n (skip_ws cs) of
                                 None \<Rightarrow> None
                               | Some (v, r2) \<Rightarrow>
                                   (case skip_ws r2 of
                                      [] \<Rightarrow> None
                                    | d # ds \<Rightarrow>
                                        if d = CHR ''}'' then Some ([(k, v)], ds)
                                        else if d = CHR '','' then
                                          map_option (\<lambda>(kvs, r'). ((k, v) # kvs, r')) (parse_members n (skip_ws ds))
                                        else None)))))"

definition loads :: "string \<Rightarrow> pyval res" where
  "loads s =
     (case parse_value (2 * length s + 2) (skip_ws s) of
        None \<Rightarrow> Inl (JSONDecodeError ''Expecting value'')
      | Some (v, r) \<Rightarrow> if skip_ws r = [] then Inr v else Inl (JSONDecodeError ''Extra data''))"

end
