(* ===== verification/Py_Json_Roundtrip.thy ===== *)
theory Py_Json_Roundtrip
  imports Py_Json
begin

text \<open>
  The round trip of the JSON model. \<open>json_norm\<close> says what a document keeps of a value: objects
  without a JSON form are replaced by their \<open>str\<close> and, under \<open>sort_keys\<close>, members are ordered
  by key. \<open>loads_dumps\<close> shows that reading a printed document returns exactly \<open>json_norm\<close> of the
  value; with the options of the persisted payload that is the value itself.
\<close>

section \<open>What a document keeps\<close>

fun json_norm :: "json_opts \<Rightarrow> pyval \<Rightarrow> pyval" where
  "json_norm opts (PyBytes b) = PyStr (bytes_repr b)"
| "json_norm opts (PyOpaque s) = PyStr s"
| "json_norm opts (PyList xs) = PyList (map (json_norm opts) xs)"
| "json_norm opts (PyDict kvs) = PyDict (map (\<lambda>(k, v). (k, json_norm opts v)) (order_items opts kvs))"
| "json_norm opts v = v"

text \<open>A float is written as a literal the reader takes back as the same float.\<close>

definition float_ok :: "string \<Rightarrow> bool" where
  "float_ok s \<longleftrightarrow> s \<in> {''nan'', ''inf'', ''-inf''} \<or> scan_number s = Some (PyFloat s, [])"

text \<open>Well-formed values: distinct keys in every dictionary, canonical float literals.\<close>

fun val_ok :: "pyval \<Rightarrow> bool" where
  "val_ok (PyFloat s) \<longleftrightarrow> float_ok s"
| "val_ok (PyList xs) \<longleftrightarrow> (\<forall>x \<in> set xs. val_ok x)"
| "val_ok (PyDict kvs) \<longleftrightarrow> dict_ok kvs \<and> (\<forall>(k, v) \<in> set kvs. val_ok v)"
| "val_ok _ \<longleftrightarrow> True"

definition seps_ok :: "json_opts \<Rightarrow> bool" where
  "seps_ok opts \<longleftrightarrow>
     (\<exists>w. item_sep opts = CHR '','' # w \<and> (\<forall>c \<in> set w. is_ws c)) \<and>
     (\<exists>w. key_sep opts = CHR '':'' # w \<and> (\<forall>c \<in> set w. is_ws c))"

definition num_end :: "string \<Rightarrow> bool" where
  "num_end r \<longleftrightarrow>
     r = [] \<or> (\<not> is_digit (hd r) \<and> hd r \<notin> set ''.eE+-'')"

section \<open>String literals\<close>

lemma hex_val_hex_digit: "n < 16 \<Longrightarrow> hex_val (hex_digit n) = Some n"
  by (auto simp: hex_val_def hex_digit_def Let_def)

lemma hex_digit_plain: "n < 16 \<Longrightarrow> hex_digit n \<noteq> CHR 0x22"
  by (auto simp: hex_digit_def code_inject [symmetric]) (auto simp: code_def)

lemma code_lits [simp]:
  "code CHR 0x22 = 34" "code CHR 0x5C = 92" "code CHR ''u'' = 117" "code CHR ''n'' = 110"
  "code CHR ''r'' = 114" "code CHR ''t'' = 116" "code CHR ''f'' = 102" "code CHR ''b'' = 98"
  by (simp_all add: code_def)

lemma simple_escape_lits [simp]:
  "simple_escape CHR 0x22 = Some CHR 0x22" "simple_escape CHR 0x5C = Some CHR 0x5C"
  "simple_escape CHR ''n'' = Some (char_of (10::nat))" "simple_escape CHR ''r'' = Some (char_of (13::nat))"
  "simple_escape CHR ''t'' = Some (char_of (9::nat))" "simple_escape CHR ''f'' = Some (char_of (12::nat))"
  "simple_escape CHR ''b'' = Some (char_of (8::nat))"
  by (simp_all add: simple_escape_def)

lemma char_of_eq: "code c = n \<Longrightarrow> char_of n = c"
  by auto

lemma code_quote: "code c = 34 \<Longrightarrow> c = CHR 0x22" and code_backslash: "code c = 92 \<Longrightarrow> c = CHR 0x5C"
  by (simp_all add: code_inject [symmetric])

lemma hex_val_zero: "hex_val CHR ''0'' = Some 0"
  by (simp add: hex_val_def code_def)

lemma scan_str_esc:
  "scan_str (esc_char c @ t) = map_option (\<lambda>(s, r). (c # s, r)) (scan_str t)"
proof -
  consider "code c \<in> {34, 92, 10, 13, 9, 12, 8}"
    | "code c \<notin> {34, 92, 10, 13, 9, 12, 8}" "32 \<le> code c" "code c \<le> 126"
    | "code c \<notin> {34, 92, 10, 13, 9, 12, 8}" "\<not> (32 \<le> code c \<and> code c \<le> 126)"
    by blast
  then show ?thesis
  proof cases
    case 1
    then show ?thesis
      by (auto simp: esc_char_def Let_def dest: char_of_eq code_quote code_backslash)
  next
    case 2
    then show ?thesis by (simp add: esc_char_def Let_def)
  next
    case 3
    have "code c div 16 < 16" using code_less [of c] by linarith
    moreover have "16 * (code c div 16) + code c mod 16 = code c" by simp
    ultimately show ?thesis
      using 3 by (simp add: esc_char_def Let_def hex_val_zero hex_val_hex_digit)
  qed
qed

lemma scan_str_json: "scan_str (concat (map esc_char s) @ CHR 0x22 # r) = Some (s, r)"
  by (induction s) (simp_all add: scan_str_esc)

section \<open>Numbers\<close>

lemma num_end_takeWhile: "num_end r \<Longrightarrow> takeWhile is_digit r = []"
  by (cases r) (auto simp: num_end_def)

lemma num_end_dropWhile: "num_end r \<Longrightarrow> dropWhile is_digit r = r"
  by (cases r) (auto simp: num_end_def)

lemmas num_end_simps = num_end_takeWhile num_end_dropWhile

lemma scan_frac_end: "num_end r \<Longrightarrow> scan_frac r = ([], r)"
  by (cases r) (auto simp: scan_frac_def num_end_def Let_def)

lemma scan_expo_end: "num_end r \<Longrightarrow> scan_expo r = ([], r)"
  by (cases r) (auto simp: scan_expo_def num_end_def Let_def split: prod.splits)

lemma nat_str_no_leading_zero: "0 < n \<Longrightarrow> hd (nat_str n) \<noteq> CHR ''0''"
proof (induction n rule: nat_str.induct)
  case (1 n)
  show ?case
  proof (cases "n < 10")
    case True
    have "code (digit_char n) \<noteq> code CHR ''0''"
      using True "1.prems" by (simp add: digit_char_def) (simp add: code_def)
    with True show ?thesis
      by (subst nat_str.simps) (metis list.sel(1) if_True)
  next
    case False
    with 1 show ?thesis by (subst nat_str.simps) simp
  qed
qed

lemma nat_str_zero: "nat_str 0 = ''0''"
  by code_simp

lemma scan_int_part_nat:
  assumes "num_end r"
  shows "scan_int_part (nat_str n @ r) = Some (nat_str n, r)"
proof (cases "n = 0")
  case True
  then show ?thesis by (simp add: scan_int_part_def nat_str_zero is_digit_def code_def)
next
  case False
  have "takeWhile is_digit (nat_str n @ r) = nat_str n"
    and "dropWhile is_digit (nat_str n @ r) = r"
    using nat_str_digits [of n] assms by (simp_all add: num_end_simps)
  with False nat_str_no_leading_zero [of n] show ?thesis
    by (simp add: scan_int_part_def Let_def)
qed

lemma nat_str_hd_minus: "hd (nat_str n) \<noteq> CHR ''-''"
  using hd_nat_str_digit [of n] by (auto simp: is_digit_def code_def)

lemma scan_number_int:
  assumes "num_end r"
  shows "scan_number (int_str i @ r) = Some (PyInt i, r)"
proof (cases "i < 0")
  case True
  then show ?thesis
    using scan_int_part_nat [OF assms, of "nat (- i)"]
    by (simp add: scan_number_def int_str_def scan_frac_end scan_expo_end assms)
next
  case False
  obtain c cs where c: "nat_str (nat i) = c # cs" by (cases "nat_str (nat i)") auto
  with nat_str_hd_minus [of "nat i"] have "c \<noteq> CHR ''-''" by simp
  with c show ?thesis
    using False scan_int_part_nat [OF assms, of "nat i"] digits_val_nat_str [of "nat i"]
    by (simp add: scan_number_def int_str_def scan_frac_end scan_expo_end assms)
qed

text \<open>Scanners do not look into a rest that cannot continue a number.\<close>

lemma takeWhile_num_end: "num_end r \<Longrightarrow> takeWhile is_digit (s @ r) = takeWhile is_digit s"
  by (induction s) (auto simp: num_end_simps)

lemma dropWhile_num_end: "num_end r \<Longrightarrow> dropWhile is_digit (s @ r) = dropWhile is_digit s @ r"
  by (induction s) (auto simp: num_end_simps)

lemmas num_end_app = takeWhile_num_end dropWhile_num_end

lemma scan_int_part_app:
  "num_end r \<Longrightarrow> scan_int_part s = Some (ip, t) \<Longrightarrow> scan_int_part (s @ r) = Some (ip, t @ r)"
  by (cases s) (auto simp: scan_int_part_def Let_def num_end_app split: if_splits)

lemma scan_frac_app:
  "num_end r \<Longrightarrow> scan_frac s = (fr, t) \<Longrightarrow> scan_frac (s @ r) = (fr, t @ r)"
  by (cases s) (auto simp: scan_frac_end, auto simp: scan_frac_def Let_def num_end_app split: if_splits)

lemma scan_expo_app:
  assumes "num_end r" and "scan_expo s = (ex, t)"
  shows "scan_expo (s @ r) = (ex, t @ r)"
proof (cases s)
  case Nil
  moreover have "scan_expo [] = ([], [])" by (simp add: scan_expo_def)
  ultimately show ?thesis using assms by (simp add: scan_expo_end)
next
  case (Cons c cs)
  show ?thesis
  proof (cases cs)
    case Nil
    with Cons assms show ?thesis
      by (cases r) (auto simp: scan_expo_def num_end_def)
  next
    case (Cons d ds)
    with \<open>s = c # cs\<close> assms show ?thesis
      by (auto simp: scan_expo_def Let_def num_end_app split: if_splits)
  qed
qed

lemma scan_number_app:
  assumes r: "num_end r" and s: "scan_number s = Some (v, t)"
  shows "scan_number (s @ r) = Some (v, t @ r)"
proof -
  from s obtain c cs where c: "s = c # cs"
    by (cases s) (auto simp: scan_number_def scan_int_part_def)
  define s' where "s' = (if c = CHR ''-'' then cs else s)"
  from s obtain ip r1 fr r2 ex r3 where
    "scan_int_part s' = Some (ip, r1)" "scan_frac r1 = (fr, r2)" "scan_expo r2 = (ex, r3)"
    by (auto simp: scan_number_def c s'_def split: option.splits prod.splits if_splits)
  with r have "scan_int_part (s' @ r) = Some (ip, r1 @ r)" "scan_frac (r1 @ r) = (fr, r2 @ r)"
    "scan_expo (r2 @ r) = (ex, r3 @ r)"
    by (auto intro: scan_int_part_app scan_frac_app scan_expo_app)
  with s \<open>scan_int_part s' = _\<close> \<open>scan_frac r1 = _\<close> \<open>scan_expo r2 = _\<close> show ?thesis
    by (auto simp: scan_number_def c s'_def Let_def split: if_splits)
qed

section \<open>Literals\<close>

lemma strip_prefix_app [simp]: "strip_prefix p (p @ r) = Some r"
  by (simp add: strip_prefix_def)

lemma strip_prefix_hd: "hd s \<noteq> c \<Longrightarrow> s \<noteq> [] \<Longrightarrow> strip_prefix (c # p) s = None"
  by (cases s) (auto simp: strip_prefix_def)

lemma scan_number_hd:
  assumes "scan_number s = Some x"
  shows "s \<noteq> [] \<and> (is_digit (hd s) \<or> hd s = CHR ''-'')"
proof (cases s)
  case (Cons c cs)
  with assms show ?thesis
    by (auto simp: scan_number_def scan_int_part_def Let_def split: if_splits option.splits)
qed (use assms in \<open>simp add: scan_number_def scan_int_part_def\<close>)

lemma scan_literal_number:
  assumes "scan_number s = Some x"
  shows "scan_literal s = Some x"
proof -
  have "s \<noteq> []" and "hd s \<notin> set ''ntf''"
    using scan_number_hd [OF assms] by (auto simp: is_digit_def code_def)
  then show ?thesis
    by (simp add: scan_literal_def strip_prefix_hd assms)
qed

lemma scan_literal_words:
  "scan_literal (''null'' @ r) = Some (PyNone, r)"
  "scan_literal (''true'' @ r) = Some (PyBool True, r)"
  "scan_literal (''false'' @ r) = Some (PyBool False, r)"
  "scan_literal (''NaN'' @ r) = Some (PyFloat ''nan'', r)"
  "scan_literal (''Infinity'' @ r) = Some (PyFloat ''inf'', r)"
  "scan_literal (''-Infinity'' @ r) = Some (PyFloat ''-inf'', r)"
  by (simp_all add: scan_literal_def strip_prefix_def scan_number_def scan_int_part_def is_digit_def code_def)

section \<open>Documents\<close>

text \<open>\<open>s\<close> is a printed document that reads as \<open>v\<close>, whatever follows it.\<close>

definition reads :: "string \<Rightarrow> pyval \<Rightarrow> bool" where
  "reads s v \<longleftrightarrow>
     s \<noteq> [] \<and> \<not> is_ws (hd s) \<and> hd s \<noteq> CHR '']'' \<and>
     (\<forall>n r. 2 * length s < n \<longrightarrow> num_end r \<longrightarrow> parse_value n (s @ r) = Some (v, r))"

lemma readsD: "reads s v \<Longrightarrow> 2 * length s < n \<Longrightarrow> num_end r \<Longrightarrow> parse_value n (s @ r) = Some (v, r)"
  by (simp add: reads_def)

lemma skip_ws_reads: "reads s v \<Longrightarrow> skip_ws (s @ r) = s @ r"
  by (cases s) (auto simp: reads_def skip_ws_def)

lemma num_end_lits [simp]: "num_end []" "num_end (CHR '','' # r)" "num_end (CHR '']'' # r)" "num_end (CHR ''}'' # r)"
  by (simp_all add: num_end_def is_digit_def code_def)

lemma is_ws_lits [simp]:
  "\<not> is_ws (CHR '','')" "\<not> is_ws (CHR '']'')" "\<not> is_ws (CHR ''}'')" "\<not> is_ws (CHR '':'')"
  "\<not> is_ws (CHR 0x22)" "\<not> is_ws (CHR ''['')" "\<not> is_ws (CHR ''{'')"
  by (simp_all add: is_ws_def code_def)

lemma skip_ws_prefix: "\<forall>c \<in> set w. is_ws c \<Longrightarrow> skip_ws (w @ s) = skip_ws s"
  by (simp add: skip_ws_def)

lemma skip_ws_Cons: "\<not> is_ws c \<Longrightarrow> skip_ws (c # s) = c # s"
  by (simp add: skip_ws_def)

text \<open>A scalar token is read by \<open>scan_literal\<close> in one step.\<close>

lemma reads_literal:
  assumes "s \<noteq> []" and "\<not> is_ws (hd s)" and "hd s \<notin> set ''[]{'' \<union> {CHR 0x22}"
    and "\<And>r. num_end r \<Longrightarrow> scan_literal (s @ r) = Some (v, r)"
  shows "reads s v"
proof -
  have "parse_value n (s @ r) = Some (v, r)" if "2 * length s < n" "num_end r" for n r
  proof -
    from that obtain m where "n = Suc m" by (cases n) auto
    moreover obtain c cs where "s = c # cs" using assms(1) by (cases s) auto
    moreover have "code c \<noteq> 34" using assms(3) \<open>s = c # cs\<close> by (auto dest: code_quote)
    ultimately show ?thesis using assms(3) assms(4) [OF that(2)] by simp
  qed
  with assms show ?thesis by (simp add: reads_def)
qed

lemma reads_number:
  assumes "scan_number s = Some (v, [])"
  shows "reads s v"
proof (rule reads_literal)
  from scan_number_hd [OF assms]
  show "s \<noteq> []" "\<not> is_ws (hd s)" "hd s \<notin> set ''[]{'' \<union> {CHR 0x22}"
    by (auto simp: is_ws_def is_digit_def code_def)
next
  fix r assume "num_end r"
  with assms show "scan_literal (s @ r) = Some (v, r)"
    using scan_number_app scan_literal_number by fastforce
qed

lemma reads_float: "float_ok s \<Longrightarrow> reads (json_float s) (PyFloat s)"
proof -
  assume "float_ok s"
  then consider "s = ''nan''" | "s = ''inf''" | "s = ''-inf''"
    | "scan_number s = Some (PyFloat s, [])" "s \<notin> {''nan'', ''inf'', ''-inf''}"
    by (auto simp: float_ok_def)
  then show ?thesis
  proof cases
    case 1 then show ?thesis
      by (intro reads_literal) (use scan_literal_words in \<open>auto simp: json_float_def is_ws_def code_def\<close>)
  next
    case 2 then show ?thesis
      by (intro reads_literal) (use scan_literal_words in \<open>auto simp: json_float_def is_ws_def code_def\<close>)
  next
    case 3 then show ?thesis
      by (intro reads_literal) (use scan_literal_words in \<open>auto simp: json_float_def is_ws_def code_def\<close>)
  next
    case 4 then show ?thesis by (simp add: json_float_def reads_number)
  qed
qed

lemma reads_word:
  "reads ''null'' PyNone" "reads ''true'' (PyBool True)" "reads ''false'' (PyBool False)"
  by (rule reads_literal; use scan_literal_words in \<open>auto simp: is_ws_def code_def\<close>)+

lemma reads_int: "reads (int_str i) (PyInt i)"
  using scan_number_int [of "[]" i] by (intro reads_number) simp

lemma parse_value_str: "parse_value (Suc n) (json_str s @ r) = Some (PyStr s, r)"
  by (simp add: json_str_def scan_str_json)

lemma reads_str: "reads (json_str s) (PyStr s)"
proof -
  have "parse_value n (json_str s @ r) = Some (PyStr s, r)" if "2 * length (json_str s) < n" for n r
    using that parse_value_str by (cases n) auto
  then show ?thesis by (simp add: reads_def) (simp add: json_str_def)
qed

section \<open>Arrays and objects\<close>

lemma join_Cons: "ss \<noteq> [] \<Longrightarrow> join sep (s # ss) = s @ sep @ join sep ss"
  by (cases ss) auto

lemma reads_hd_join: "list_all2 reads (s # ss) vs \<Longrightarrow> skip_ws (join sep (s # ss) @ r) = join sep (s # ss) @ r"
  by (cases ss) (auto simp: list_all2_Cons1 skip_ws_reads)

lemma parse_elems_join:
  assumes "item_sep opts = CHR '','' # w" and "\<forall>c \<in> set w. is_ws c"
    and "list_all2 reads ss vs" and "ss \<noteq> []" and "2 * length (join (item_sep opts) ss) + 1 < n"
  shows "parse_elems n (join (item_sep opts) ss @ CHR '']'' # r) = Some (vs, r)"
  using assms(3-5)
proof (induction ss arbitrary: vs n)
  case (Cons s ss)
  then obtain v vs' m where vs: "vs = v # vs'" "reads s v" "list_all2 reads ss vs'" and n: "n = Suc m"
    by (cases n) (auto simp: list_all2_Cons1)
  show ?case
  proof (cases "ss = []")
    case True
    with Cons.prems vs n have "parse_value m (s @ CHR '']'' # r) = Some (v, CHR '']'' # r)"
      by (intro readsD) auto
    with True vs n show ?thesis by (simp add: skip_ws_Cons)
  next
    case False
    let ?t = "join (item_sep opts) ss @ CHR '']'' # r"
    have len: "2 * length s < m" "2 * length (join (item_sep opts) ss) + 1 < m"
      using Cons.prems(3) n assms(1) False by (auto simp: join_Cons)
    have "parse_value m (s @ item_sep opts @ ?t) = Some (v, item_sep opts @ ?t)"
      using readsD [OF vs(2) len(1)] assms(1) by simp
    moreover have "skip_ws ?t = ?t"
      using False vs(3) by (cases ss) (auto simp: reads_hd_join simp del: join.simps)
    moreover have "parse_elems m ?t = Some (vs', r)"
      using Cons.IH [OF vs(3) False len(2)] .
    ultimately show ?thesis
      using False vs(1) n assms(1,2) by (simp add: join_Cons skip_ws_Cons skip_ws_prefix)
  qed
qed simp

lemma reads_list:
  assumes "seps_ok opts" and "list_all2 reads ss vs"
  shows "reads (''['' @ join (item_sep opts) ss @ '']'') (PyList vs)"
proof -
  from assms(1) obtain w where w: "item_sep opts = CHR '','' # w" "\<forall>c \<in> set w. is_ws c"
    by (auto simp: seps_ok_def)
  have "parse_value n ((''['' @ join (item_sep opts) ss @ '']'') @ r) = Some (PyList vs, r)"
    if "2 * length (''['' @ join (item_sep opts) ss @ '']'') < n" for n r
  proof (cases ss)
    case Nil
    with that assms(2) show ?thesis by (cases n) (auto simp: skip_ws_Cons code_def)
  next
    case (Cons s ss')
    from that obtain m where n: "n = Suc m" and m: "2 * length (join (item_sep opts) ss) + 1 < m"
      by (cases n) auto
    have el: "parse_elems m (join (item_sep opts) ss @ CHR '']'' # r) = Some (vs, r)"
      using parse_elems_join [OF w assms(2) _ m] Cons by simp
    have sk: "skip_ws (join (item_sep opts) ss @ CHR '']'' # r) = join (item_sep opts) ss @ CHR '']'' # r"
      using assms(2) unfolding Cons by (rule reads_hd_join)
    have "hd s \<noteq> CHR '']''" "s \<noteq> []" using assms(2) Cons by (auto simp: list_all2_Cons1 reads_def)
    then have hd: "hd (join (item_sep opts) ss @ CHR '']'' # r) \<noteq> CHR '']''"
      using Cons by (cases ss') auto
    show ?thesis using n el sk hd by (simp add: code_def Let_def)
  qed
  then show ?thesis by (simp add: reads_def)
qed

text \<open>Printed members \<open>t\<close> of an object: key, separator, value.\<close>

definition reads_member :: "json_opts \<Rightarrow> string \<Rightarrow> string \<times> pyval \<Rightarrow> bool" where
  "reads_member opts t kv \<longleftrightarrow> (\<exists>s. t = json_str (fst kv) @ key_sep opts @ s \<and> reads s (snd kv))"

lemma json_str_Cons: "json_str k @ r = CHR 0x22 # (concat (map esc_char k) @ CHR 0x22 # r)"
  by (simp add: json_str_def)

lemma parse_members_step:
  assumes "key_sep opts = CHR '':'' # w" and "\<forall>c \<in> set w. is_ws c"
    and "reads s v" and "2 * length s < m" and "num_end (d # ds)" and "\<not> is_ws d"
  shows "parse_members (Suc m) (json_str k @ key_sep opts @ s @ d # ds) =
     (if d = CHR ''}'' then Some ([(k, v)], ds)
      else if d = CHR '','' then map_option (\<lambda>(kvs, r'). ((k, v) # kvs, r')) (parse_members m (skip_ws ds))
      else None)"
  using assms readsD [OF assms(3-5)] skip_ws_reads [OF assms(3), of "d # ds"]
  by (simp add: json_str_Cons scan_str_json skip_ws_Cons skip_ws_prefix)

lemma member_hd_join:
  "list_all2 (reads_member opts) (t # ts) kvs \<Longrightarrow> \<exists>u. join sep (t # ts) @ r = CHR 0x22 # u"
  by (cases ts) (auto simp: list_all2_Cons1 reads_member_def json_str_def)

lemma parse_members_join:
  assumes w: "item_sep opts = CHR '','' # w" "\<forall>c \<in> set w. is_ws c"
    and w': "key_sep opts = CHR '':'' # w'" "\<forall>c \<in> set w'. is_ws c"
    and "list_all2 (reads_member opts) ts kvs" and "ts \<noteq> []"
    and "2 * length (join (item_sep opts) ts) + 1 < n"
  shows "parse_members n (join (item_sep opts) ts @ CHR ''}'' # r) = Some (kvs, r)"
  using assms(5-7)
proof (induction ts arbitrary: kvs n)
  case (Cons t ts)
  then obtain k v kvs' m where kvs: "kvs = (k, v) # kvs'" "list_all2 (reads_member opts) ts kvs'"
    and tv: "reads_member opts t (k, v)" and n: "n = Suc m"
    by (cases n) (auto simp: list_all2_Cons1)
  from tv obtain s where t: "t = json_str k @ key_sep opts @ s" "reads s v"
    by (auto simp: reads_member_def)
  show ?case
  proof (cases "ts = []")
    case True
    with Cons.prems t kvs n show ?thesis
      using parse_members_step [OF w' t(2), of m "CHR ''}''" r k] by simp
  next
    case False
    let ?u = "join (item_sep opts) ts @ CHR ''}'' # r"
    have len: "2 * length s < m" "2 * length (join (item_sep opts) ts) + 1 < m"
      using Cons.prems(3) n w(1) False t(1) by (auto simp: join_Cons)
    have "skip_ws ?u = ?u"
      using False kvs(2) member_hd_join [of opts "hd ts" "tl ts" kvs' "item_sep opts" "CHR ''}'' # r"]
      by (auto simp: skip_ws_Cons)
    moreover have "parse_members m ?u = Some (kvs', r)"
      using Cons.IH [OF kvs(2) False len(2)] .
    ultimately show ?thesis
      using False kvs(1) t(1) n w
        parse_members_step [OF w' t(2) len(1), of "CHR '',''" "w @ ?u" k]
      by (simp add: join_Cons skip_ws_prefix)
  qed
qed simp

lemma dict_of_pairs_distinct: "dict_ok kvs \<Longrightarrow> dict_of_pairs kvs = kvs"
proof -
  have fresh: "k \<notin> set (dkeys d) \<Longrightarrow> dset d k v = d @ [(k, v)]" for d :: "(string \<times> pyval) list" and k v
    by (induction d k v rule: dset.induct) (auto simp: dkeys_def)
  have "dict_ok (d @ kvs) \<Longrightarrow> foldl (\<lambda>d (k, v). dset d k v) d kvs = d @ kvs" for d
  proof (induction kvs arbitrary: d)
    case (Cons kv kvs)
    obtain k v where kv: "kv = (k, v)" by fastforce
    from Cons.prems have "k \<notin> set (dkeys d)" by (auto simp: dict_ok_def dkeys_def kv)
    moreover from Cons.prems have "dict_ok ((d @ [(k, v)]) @ kvs)" by (simp add: kv)
    ultimately show ?case using Cons.IH [of "d @ [(k, v)]"] by (simp add: kv fresh)
  qed simp
  from this [of "[]"] show "dict_ok kvs \<Longrightarrow> dict_of_pairs kvs = kvs"
    by (simp add: dict_of_pairs_def)
qed

lemma reads_dict:
  assumes "seps_ok opts" and "list_all2 (reads_member opts) ts kvs" and "dict_ok kvs"
  shows "reads (''{'' @ join (item_sep opts) ts @ ''}'') (PyDict kvs)"
proof -
  from assms(1) obtain w w' where w: "item_sep opts = CHR '','' # w" "\<forall>c \<in> set w. is_ws c"
    and w': "key_sep opts = CHR '':'' # w'" "\<forall>c \<in> set w'. is_ws c"
    by (auto simp: seps_ok_def)
  have "parse_value n ((''{'' @ join (item_sep opts) ts @ ''}'') @ r) = Some (PyDict kvs, r)"
    if "2 * length (''{'' @ join (item_sep opts) ts @ ''}'') < n" for n r
  proof (cases ts)
    case Nil
    with that assms(2) show ?thesis by (cases n) (auto simp: skip_ws_Cons code_def)
  next
    case (Cons t ts')
    from that obtain m where n: "n = Suc m" and m: "2 * length (join (item_sep opts) ts) + 1 < m"
      by (cases n) auto
    let ?d = "join (item_sep opts) ts @ CHR ''}'' # r"
    have el: "parse_members m ?d = Some (kvs, r)"
      using parse_members_join [OF w w' assms(2) _ m] Cons by simp
    obtain u where u: "?d = CHR 0x22 # u"
      using member_hd_join assms(2) Cons by blast
    then have sk: "skip_ws ?d = ?d" "hd ?d \<noteq> CHR ''}''" "?d \<noteq> []"
      by (simp_all add: skip_ws_Cons)
    show ?thesis
      using n el sk dict_of_pairs_distinct [OF assms(3)] by (simp add: code_def Let_def)
  qed
  then show ?thesis by (simp add: reads_def)
qed

section \<open>The round trip\<close>

lemma collect_map_Inr [simp]: "collect (map Inr xs) = Inr xs"
  by (induction xs) auto

lemma collect_Inr: "collect rs = Inr xs \<longleftrightarrow> rs = map Inr xs"
proof
  show "collect rs = Inr xs \<Longrightarrow> rs = map Inr xs"
    by (induction rs arbitrary: xs) (auto split: sum.splits)
qed simp

lemma map_Inr_conv: "(\<exists>ss. map f xs = map Inr ss) \<longleftrightarrow> (\<forall>x \<in> set xs. \<exists>s. f x = Inr s)"
proof (induction xs)
  case (Cons x xs)
  then show ?case by (auto simp: Cons_eq_map_conv)
qed simp

lemma dict_ok_norm:
  assumes "dict_ok kvs"
  shows "dict_ok (map (\<lambda>(k, v). (k, f v)) (order_items opts kvs))"
proof -
  have "map fst (map (\<lambda>(k, v). (k, f v)) (order_items opts kvs)) = map fst (order_items opts kvs)"
    by auto
  moreover have "distinct (map fst (order_items opts kvs))"
    using assms by (auto simp: order_items_def dict_ok_def dkeys_def distinct_map)
  ultimately show ?thesis by (simp only: dict_ok_def dkeys_def)
qed

lemma reads_dumps:
  "seps_ok opts \<Longrightarrow> val_ok v \<Longrightarrow> dumps opts v = Inr s \<Longrightarrow> reads s (json_norm opts v)"
proof (induction opts v arbitrary: s rule: dumps.induct)
  case (8 opts xs)
  from "8.prems"(3) obtain ss where s: "s = ''['' @ join (item_sep opts) ss @ '']''"
    and ss: "map (dumps opts) xs = map Inr ss"
    by (auto split: sum.splits simp: collect_Inr)
  have "list_all2 reads ss (map (json_norm opts) xs)"
  proof (rule list_all2_all_nthI)
    show len: "length ss = length (map (json_norm opts) xs)" using arg_cong [OF ss, of length] by simp
    fix i assume "i < length ss"
    with len "8.prems" "8.IH" [of "xs ! i" "ss ! i"] arg_cong [OF ss, of "\<lambda>l. l ! i"]
    show "reads (ss ! i) (map (json_norm opts) xs ! i)" by simp
  qed
  with "8.prems"(1) show ?case unfolding s json_norm.simps by (rule reads_list)
next
  case (9 opts kvs)
  let ?kvs = "order_items opts kvs"
  from "9.prems"(3) obtain ts where s: "s = ''{'' @ join (item_sep opts) ts @ ''}''"
    and ts: "map (\<lambda>(k, v). case dumps opts v of Inl e \<Rightarrow> Inl e
                | Inr s \<Rightarrow> Inr (json_str k @ key_sep opts @ s)) ?kvs = map Inr ts"
    by (auto split: sum.splits simp: collect_Inr)
  have "list_all2 (reads_member opts) ts (map (\<lambda>(k, v). (k, json_norm opts v)) ?kvs)"
  proof (rule list_all2_all_nthI)
    show len: "length ts = length (map (\<lambda>(k, v). (k, json_norm opts v)) ?kvs)"
      using arg_cong [OF ts, of length] by simp
    fix i assume i: "i < length ts"
    obtain k v where kv: "?kvs ! i = (k, v)" by fastforce
    have mem: "(k, v) \<in> set ?kvs" using i len kv by (metis length_map nth_mem)
    obtain t where t: "dumps opts v = Inr t" "ts ! i = json_str k @ key_sep opts @ t"
      using arg_cong [OF ts, of "\<lambda>l. l ! i"] i len kv by (auto split: sum.splits)
    have "val_ok v" using "9.prems"(2) mem by auto
    then have "reads t (json_norm opts v)" using "9.IH" [OF mem refl "9.prems"(1) _ t(1)] by simp
    then show "reads_member opts (ts ! i) (map (\<lambda>(k, v). (k, json_norm opts v)) ?kvs ! i)"
      using t(2) i len kv by (simp add: reads_member_def)
  qed
  moreover have "dict_ok (map (\<lambda>(k, v). (k, json_norm opts v)) ?kvs)"
    using "9.prems"(2) by (auto intro: dict_ok_norm)
  ultimately show ?case unfolding s json_norm.simps using "9.prems"(1) by (intro reads_dict)
qed (auto simp: reads_word reads_int reads_float reads_str not_serializable_def split: if_splits)

lemma reads_loads: "reads s v \<Longrightarrow> loads s = Inr v"
  using readsD [of s v "2 * length s + 2" "[]"] skip_ws_reads [of s v "[]"]
  by (simp add: loads_def) (simp add: skip_ws_def)

theorem loads_dumps:
  "seps_ok opts \<Longrightarrow> val_ok v \<Longrightarrow> dumps opts v = Inr s \<Longrightarrow> loads s = Inr (json_norm opts v)"
  by (intro reads_loads reads_dumps)

lemma seps_ok_default: "seps_ok default_opts"
  by (simp add: seps_ok_def default_opts_def is_ws_def code_def)

text \<open>Without \<open>default=str\<close> and \<open>sort_keys\<close> nothing is changed on the way.\<close>

lemma json_norm_plain:
  "\<not> sort_keys opts \<Longrightarrow> \<not> default_str opts \<Longrightarrow> dumps opts v = Inr s \<Longrightarrow> json_norm opts v = v"
proof (induction opts v arbitrary: s rule: dumps.induct)
  case (8 opts xs)
  then obtain ss where ss: "map (dumps opts) xs = map Inr ss"
    by (auto split: sum.splits simp: collect_Inr)
  have "json_norm opts x = x" if "x \<in> set xs" for x
  proof -
    from that ss obtain t where "dumps opts x = Inr t" using map_Inr_conv by metis
    with "8.IH" [OF that "8.prems"(1,2)] show ?thesis by blast
  qed
  then show ?case by (simp add: map_idI)
next
  case (9 opts kvs)
  from "9.prems"(3) obtain ts where ts: "map (\<lambda>(k, v). case dumps opts v of Inl e \<Rightarrow> Inl e
                | Inr s \<Rightarrow> Inr (json_str k @ key_sep opts @ s)) (order_items opts kvs) = map Inr ts"
    by (auto split: sum.splits simp: collect_Inr)
  have "json_norm opts v = v" if mem: "(k, v) \<in> set (order_items opts kvs)" for k v
  proof -
    let ?f = "\<lambda>(k, v). case dumps opts v of Inl e \<Rightarrow> Inl e | Inr s \<Rightarrow> Inr (json_str k @ key_sep opts @ s)"
    from ts have "\<forall>kv \<in> set (order_items opts kvs). \<exists>s. ?f kv = Inr s"
      using map_Inr_conv [of ?f "order_items opts kvs"] by blast
    then obtain t where "dumps opts v = Inr t" using mem by (auto split: sum.splits)
    with "9.IH" [OF mem refl "9.prems"(1,2)] show ?thesis by blast
  qed
  with "9.prems"(1) show ?case by (auto simp: order_items_def intro!: map_idI)
qed (auto simp: not_serializable_def)

corollary loads_dumps_default:
  "val_ok v \<Longrightarrow> dumps default_opts v = Inr s \<Longrightarrow> loads s = Inr v"
  using loads_dumps [OF seps_ok_default] json_norm_plain [of default_opts v s]
  by (simp add: default_opts_def)

text \<open>The canonical text depends on a value only through its normal form.\<close>

lemma order_items_idem_map:
  "order_items opts (map (\<lambda>(k, v). (k, f v)) (order_items opts kvs)) = map (\<lambda>(k, v). (k, f v)) (order_items opts kvs)"
proof (cases "sort_keys opts")
  case True
  have "map fst (map (\<lambda>(k, v). (k, f v)) (sort_key fst kvs)) = map fst (sort_key fst kvs)" by auto
  then have "sorted (map fst (map (\<lambda>(k, v). (k, f v)) (sort_key fst kvs)))"
    by (metis sorted_sort_key)
  then show ?thesis using True by (simp add: order_items_def sort_key_id_if_sorted del: map_map)
qed (simp add: order_items_def)

lemma dumps_norm: "default_str opts \<Longrightarrow> dumps opts (json_norm opts v) = dumps opts v"
proof (induction opts v rule: dumps.induct)
  case (8 opts xs)
  then have "map (dumps opts) (map (json_norm opts) xs) = map (dumps opts) xs" by simp
  then show ?case by (simp only: json_norm.simps dumps.simps)
next
  case (9 opts kvs)
  have "map (\<lambda>(k, v). case dumps opts v of Inl e \<Rightarrow> Inl e | Inr s \<Rightarrow> Inr (json_str k @ key_sep opts @ s))
          (map (\<lambda>(k, v). (k, json_norm opts v)) (order_items opts kvs)) =
        map (\<lambda>(k, v). case dumps opts v of Inl e \<Rightarrow> Inl e | Inr s \<Rightarrow> Inr (json_str k @ key_sep opts @ s))
          (order_items opts kvs)"
    using 9 by auto
  then show ?case by (simp only: json_norm.simps dumps.simps order_items_idem_map)
qed (simp_all add: not_serializable_def)

text \<open>With \<open>default=str\<close> printing never raises.\<close>

lemma dumps_default_str: "default_str opts \<Longrightarrow> \<exists>s. dumps opts v = Inr s"
proof (induction opts v rule: dumps.induct)
  case (8 opts xs)
  then have "\<exists>ss. map (dumps opts) xs = map Inr ss" unfolding map_Inr_conv by blast
  then show ?case by auto
next
  case (9 opts kvs)
  let ?f = "\<lambda>(k, v). case dumps opts v of Inl e \<Rightarrow> Inl e | Inr s \<Rightarrow> Inr (json_str k @ key_sep opts @ s)"
  have "\<exists>s. ?f kv = Inr s" if "kv \<in> set (order_items opts kvs)" for kv
    using "9.IH" "9.prems" that by (cases kv) fastforce
  then have "\<exists>ss. map ?f (order_items opts kvs) = map Inr ss" unfolding map_Inr_conv by blast
  then show ?case by auto
qed (auto simp: not_serializable_def)

end
