(* ===== verification/Sha256.thy ===== *)
theory Sha256
  imports Py_Json "HOL-Library.Word"
begin

text \<open>
  \<open>hashlib.sha256(data).hexdigest()\<close> (FIPS 180-4) on byte strings, with 32-bit words and
  wrap-around addition, and \<open>str.encode("utf-8")\<close>. The digest text always has 64 lower-case
  hexadecimal characters.
\<close>

unbundle bit_operations_syntax

type_synonym w32 = "32 word"

text \<open>The round constants: 32 bits of the fractional parts of the cube roots of the first 64 primes.\<close>

definition sha_k :: "w32 list" where
  "sha_k =
    [1116352408, 1899447441, 3049323471, 3921009573, 961987163, 1508970993,
     2453635748, 2870763221, 3624381080, 310598401, 607225278, 1426881987,
     1925078388, 2162078206, 2614888103, 3248222580, 3835390401, 4022224774,
     264347078, 604807628, 770255983, 1249150122, 1555081692, 1996064986,
     2554220882, 2821834349, 2952996808, 3210313671, 3336571891, 3584528711,
     113926993, 338241895, 666307205, 773529912, 1294757372, 1396182291,
     1695183700, 1986661051, 2177026350, 2456956037, 2730485921, 2820302411,
     3259730800, 3345764771, 3516065817, 3600352804, 4094571909, 275423344,
     430227734, 506948616, 659060556, 883997877, 958139571, 1322822218,
     1537002063, 1747873779, 1955562222, 2024104815, 2227730452, 2361852424,
     2428436474, 2756734187, 3204031479, 3329325298]"

definition sha_h0 :: "w32 list" where
  "sha_h0 = [0x6a09e667, 0xbb67ae85, 0x3c6ef372, 0xa54ff53a, 0x510e527f, 0x9b05688c, 0x1f83d9ab, 0x5be0cd19]"

definition rotr :: "nat \<Rightarrow> w32 \<Rightarrow> w32" where
  "rotr n x = drop_bit n x OR push_bit (32 - n) x"

definition sha_ch :: "w32 \<Rightarrow> w32 \<Rightarrow> w32 \<Rightarrow> w32" where
  "sha_ch x y z = (x AND y) XOR (NOT x AND z)"

definition sha_maj :: "w32 \<Rightarrow> w32 \<Rightarrow> w32 \<Rightarrow> w32" where
  "sha_maj x y z = (x AND y) XOR (x AND z) XOR (y AND z)"

definition big_sigma0 :: "w32 \<Rightarrow> w32" where
  "big_sigma0 x = rotr 2 x XOR rotr 13 x XOR rotr 22 x"

definition big_sigma1 :: "w32 \<Rightarrow> w32" where
  "big_sigma1 x = rotr 6 x XOR rotr 11 x XOR rotr 25 x"

definition small_sigma0 :: "w32 \<Rightarrow> w32" where
  "small_sigma0 x = rotr 7 x XOR rotr 18 x XOR drop_bit 3 x"

definition small_sigma1 :: "w32 \<Rightarrow> w32" where
  "small_sigma1 x = rotr 17 x XOR rotr 19 x XOR drop_bit 10 x"

text \<open>Big-endian bytes of a number, most significant first.\<close>

fun be_bytes :: "nat \<Rightarrow> nat \<Rightarrow> nat list" where
  "be_bytes 0 n = []"
| "be_bytes (Suc k) n = be_bytes k (n div 256) @ [n mod 256]"

definition sha_pad :: "nat list \<Rightarrow> nat list" where
  "sha_pad m =
     (let l = length m; k = (119 - l mod 64) mod 64 in
      m @ [128] @ replicate k 0 @ be_bytes 8 ((8 * l) mod 2 ^ 64))"

fun be_words :: "nat list \<Rightarrow> w32 list" where
  "be_words (a # b # c # d # bs) = of_nat (((a * 256 + b) * 256 + c) * 256 + d) # be_words bs"
| "be_words _ = []"

text \<open>The message schedule: the last sixteen words are kept in order, newest last.\<close>

fun schedule :: "nat \<Rightarrow> w32 list \<Rightarrow> w32 list" where
  "schedule 0 ws = []"
| "schedule (Suc k) ws =
     ws ! 0 # schedule k (tl ws @ [small_sigma1 (ws ! 14) + ws ! 9 + small_sigma0 (ws ! 1) + ws ! 0])"

type_synonym sha_state = "w32 \<times> w32 \<times> w32 \<times> w32 \<times> w32 \<times> w32 \<times> w32 \<times> w32"

fun sha_round :: "w32 \<times> w32 \<Rightarrow> sha_state \<Rightarrow> sha_state" where
  "sha_round (k, w) (a, b, c, d, e, f, g, h) =
     (let t1 = h + big_sigma1 e + sha_ch e f g + k + w;
          t2 = big_sigma0 a + sha_maj a b c in
      (t1 + t2, a, b, c, d + t1, e, f, g))"

fun state_of :: "w32 list \<Rightarrow> sha_state" where
  "state_of [a, b, c, d, e, f, g, h] = (a, b, c, d, e, f, g, h)"
| "state_of _ = (0, 0, 0, 0, 0, 0, 0, 0)"

fun list_of_state :: "sha_state \<Rightarrow> w32 list" where
  "list_of_state (a, b, c, d, e, f, g, h) = [a, b, c, d, e, f, g, h]"

definition sha_block :: "w32 list \<Rightarrow> w32 list \<Rightarrow> w32 list" where
  "sha_block hs ws =
     map2 (+) hs (list_of_state (fold sha_round (zip sha_k (schedule 64 ws)) (state_of hs)))"

fun sha_blocks :: "nat \<Rightarrow> w32 list \<Rightarrow> w32 list \<Rightarrow> w32 list" where
  "sha_blocks 0 hs ws = hs"
| "sha_blocks (Suc n) hs ws = sha_blocks n (sha_block hs (take 16 ws)) (drop 16 ws)"

definition sha256 :: "nat list \<Rightarrow> w32 list" where
  "sha256 m = (let ws = be_words (sha_pad m) in sha_blocks (length ws div 16) sha_h0 ws)"

definition hex_byte :: "nat \<Rightarrow> string" where
  "hex_byte b = [hex_digit (b div 16), hex_digit (b mod 16)]"

definition hex_word :: "w32 \<Rightarrow> string" where
  "hex_word w = concat (map hex_byte (be_bytes 4 (unat w)))"

definition hexdigest :: "nat list \<Rightarrow> string" where
  "hexdigest m = concat (map hex_word (sha256 m))"

text \<open>UTF-8 of the code points below 256.\<close>

definition utf8_char :: "char \<Rightarrow> nat list" where
  "utf8_char c = (let n = code c in if n < 128 then [n] else [192 + n div 64, 128 + n mod 64])"

definition utf8 :: "string \<Rightarrow> nat list" where
  "utf8 s = concat (map utf8_char s)"

section \<open>Facts\<close>

lemma length_be_bytes [simp]: "length (be_bytes k n) = k"
  by (induction k arbitrary: n) auto

lemma length_list_of_state: "length (list_of_state s) = 8"
  by (cases s rule: list_of_state.cases) simp

lemma length_sha_block: "length hs = 8 \<Longrightarrow> length (sha_block hs ws) = 8"
  unfolding sha_block_def by (simp only: length_map length_zip length_list_of_state min.idem)

lemma length_sha_blocks: "length hs = 8 \<Longrightarrow> length (sha_blocks n hs ws) = 8"
  by (induction n arbitrary: hs ws) (simp_all add: length_sha_block)

lemma length_sha256: "length (sha256 m) = 8"
  unfolding sha256_def Let_def by (rule length_sha_blocks) (simp add: sha_h0_def)

lemma length_concat_const: "(\<And>x. length (f x) = k) \<Longrightarrow> length (concat (map f xs)) = k * length xs"
  by (induction xs) auto

lemma hex_word_length: "length (hex_word w) = 8"
  unfolding hex_word_def by (subst length_concat_const [where k = 2]) (simp_all add: hex_byte_def)

lemma length_hexdigest: "length (hexdigest m) = 64"
  unfolding hexdigest_def by (subst length_concat_const [where k = 8]) (simp_all add: hex_word_length length_sha256)

text \<open>Padding completes the message to whole blocks of 64 bytes.\<close>

lemma sha_pad_blocks: "length (sha_pad m) mod 64 = 0"
proof -
  let ?a = "length m mod 64"
  have "(119 - ?a) mod 64 = (if ?a \<le> 55 then 55 - ?a else 119 - ?a)"
  proof (cases "?a \<le> 55")
    case True
    then have "119 - ?a = (55 - ?a) + 64" by simp
    then show ?thesis using True by (simp only: mod_add_self2) simp
  qed simp
  moreover have "?a < 64" by simp
  ultimately have "(?a + 9 + (119 - ?a) mod 64) mod 64 = 0"
    by (cases "?a \<le> 55") auto
  then have "(length m + (9 + (119 - ?a) mod 64)) mod 64 = 0"
    by (metis add.assoc mod_add_left_eq)
  then show ?thesis by (simp add: sha_pad_def Let_def ac_simps)
qed

end
