(* ===== verification/Models.thy ===== *)
theory Models
  imports Py_Json_Roundtrip Sha256
begin

text \<open>
  \<open>models.py\<close>: requests and responses, the idempotency key, and the storage form of a request.
  \<open>created_at\<close> is a float on which the program never computes; it is carried as its decimal
  literal. The fresh identifier and the clock that \<open>from_storage\<close> uses as defaults are
  arguments. A stored field of another type would build an ill-typed \<open>Request\<close> in Python; the
  model refuses it with \<open>TypeError\<close>.
\<close>

record Request =
  req_method :: string
  req_url :: string
  req_headers :: "(string, string) dict"
  req_params :: "(string, pyval) dict"
  req_body :: pyval
  req_priority :: int
  req_request_id :: string
  req_created_at :: string

record Response =
  status_code :: int
  resp_data :: pyval
  resp_headers :: "(string, string) dict"
  resp_error :: "string option"
  resp_retries :: int
  resp_request_id :: string

definition stable_opts :: json_opts where
  "stable_opts = \<lparr>sort_keys = True, item_sep = '','', key_sep = '':'', default_str = True\<rparr>"

text \<open>\<open>_stable_dump\<close>; with \<open>default=str\<close> the encoder never raises on these values.\<close>

definition stable_dump :: "pyval \<Rightarrow> string" where
  "stable_dump v = (case dumps stable_opts v of Inr s \<Rightarrow> s | Inl _ \<Rightarrow> [])"

definition key_payload :: "Request \<Rightarrow> pyval" where
  "key_payload r =
     PyDict [(''method'', PyStr (upper (req_method r))), (''url'', PyStr (req_url r)),
             (''params'', PyDict (req_params r)), (''body'', req_body r)]"

definition idempotency_key :: "Request \<Rightarrow> string" where
  "idempotency_key r = hexdigest (utf8 (stable_dump (key_payload r)))"

definition to_storage :: "Request \<Rightarrow> pyval" where
  "to_storage r =
     PyDict [(''method'', PyStr (req_method r)), (''url'', PyStr (req_url r)),
             (''headers'', PyDict (map (\<lambda>(k, v). (k, PyStr v)) (req_headers r))),
             (''params'', PyDict (req_params r)), (''body'', req_body r),
             (''priority'', PyInt (req_priority r)), (''request_id'', PyStr (req_request_id r)),
             (''created_at'', PyFloat (req_created_at r))]"

text \<open>Reading one field of the stored dictionary at the type the dataclass declares.\<close>

definition ill_typed :: "string \<Rightarrow> 'a res" where
  "ill_typed k = Inl (TypeError (''ill-typed field '' @ k))"

definition str_field :: "(string, pyval) dict \<Rightarrow> string \<Rightarrow> string option \<Rightarrow> string res" where
  "str_field d k def =
     (case dget d k of
        Some (PyStr s) \<Rightarrow> Inr s
      | Some _ \<Rightarrow> ill_typed k
      | None \<Rightarrow> (case def of Some s \<Rightarrow> Inr s | None \<Rightarrow> Inl (KeyError k)))"

text \<open>\<open>data.get(k, {}) or {}\<close>: a missing or falsy value is the empty dictionary.\<close>

definition falsy :: "pyval \<Rightarrow> bool" where
  "falsy v \<longleftrightarrow>
     v \<in> {PyNone, PyBool False, PyInt 0, PyFloat ''0.0'', PyFloat ''-0.0'', PyStr [], PyBytes [],
          PyList [], PyDict []}"

definition dict_field :: "(string, pyval) dict \<Rightarrow> string \<Rightarrow> (string, pyval) dict res" where
  "dict_field d k =
     (case dget d k of
        None \<Rightarrow> Inr []
      | Some v \<Rightarrow> if falsy v then Inr [] else (case v of PyDict kvs \<Rightarrow> Inr kvs | _ \<Rightarrow> ill_typed k))"

fun str_items :: "(string, pyval) dict \<Rightarrow> (string, string) dict res" where
  "str_items [] = Inr []"
| "str_items ((k, v) # kvs) =
     (case v of
        PyStr s \<Rightarrow> (case str_items kvs of Inl e \<Rightarrow> Inl e | Inr ss \<Rightarrow> Inr ((k, s) # ss))
      | _ \<Rightarrow> ill_typed k)"

definition from_storage :: "string \<Rightarrow> string \<Rightarrow> pyval \<Rightarrow> Request res" where
  "from_storage fresh_id now data =
     (case data of
        PyDict d \<Rightarrow>
          (case str_field d ''method'' None of Inl e \<Rightarrow> Inl e | Inr m \<Rightarrow>
           case str_field d ''url'' None of Inl e \<Rightarrow> Inl e | Inr u \<Rightarrow>
           case dict_field d ''headers'' of Inl e \<Rightarrow> Inl e | Inr hs \<Rightarrow>
           case str_items hs of Inl e \<Rightarrow> Inl e | Inr hdrs \<Rightarrow>
           case dict_field d ''params'' of Inl e \<Rightarrow> Inl e | Inr ps \<Rightarrow>
           case (case dget d ''priority'' of None \<Rightarrow> Inr 0 | Some (PyInt p) \<Rightarrow> Inr p
                 | Some _ \<Rightarrow> ill_typed ''priority'') of Inl e \<Rightarrow> Inl e | Inr prio \<Rightarrow>
           case str_field d ''request_id'' (Some fresh_id) of Inl e \<Rightarrow> Inl e | Inr rid \<Rightarrow>
           case (case dget d ''created_at'' of None \<Rightarrow> Inr now | Some (PyFloat t) \<Rightarrow> Inr t
                 | Some _ \<Rightarrow> ill_typed ''created_at'') of Inl e \<Rightarrow> Inl e | Inr cr \<Rightarrow>
           Inr \<lparr>req_method = m, req_url = u, req_headers = hdrs, req_params = ps,
                req_body = (case dget d ''body'' of Some b \<Rightarrow> b | None \<Rightarrow> PyNone),
                req_priority = prio, req_request_id = rid, req_created_at = cr\<rparr>)
      | _ \<Rightarrow> Inl (TypeError ''payload is not an object''))"

text \<open>The payload column of both tables and how recovery reads it back.\<close>

definition request_payload :: "Request \<Rightarrow> string res" where
  "request_payload r = dumps default_opts (to_storage r)"

definition parse_payload :: "string \<Rightarrow> string \<Rightarrow> string \<Rightarrow> Request res" where
  "parse_payload fresh_id now s =
     (case loads s of Inl e \<Rightarrow> Inl e | Inr v \<Rightarrow> from_storage fresh_id now v)"

text \<open>Well-formed requests: real dictionaries, real floats.\<close>

definition req_ok :: "Request \<Rightarrow> bool" where
  "req_ok r \<longleftrightarrow> dict_ok (req_headers r) \<and> val_ok (PyDict (req_params r)) \<and> val_ok (req_body r)
     \<and> float_ok (req_created_at r)"

text \<open>The part of a request that decides its key: normal form of the hashed dictionary.\<close>

definition canonical :: "Request \<Rightarrow> pyval" where
  "canonical r = json_norm stable_opts (key_payload r)"

text \<open>Values \<open>json.dumps\<close> encodes without a \<open>default\<close>.\<close>

fun encodable :: "pyval \<Rightarrow> bool" where
  "encodable (PyBytes _) \<longleftrightarrow> False"
| "encodable (PyOpaque _) \<longleftrightarrow> False"
| "encodable (PyList xs) \<longleftrightarrow> (\<forall>x \<in> set xs. encodable x)"
| "encodable (PyDict kvs) \<longleftrightarrow> (\<forall>(k, v) \<in> set kvs. encodable v)"
| "encodable _ \<longleftrightarrow> True"

text \<open>A request for examples.\<close>

definition sample_request :: Request where
  "sample_request =
     \<lparr>req_method = ''POST'', req_url = ''https://api.example.com/v1/items'', req_headers = [(''X-Tag'', ''a'')],
      req_params = [(''page'', PyInt 2)], req_body = PyDict [(''name'', PyStr ''x''), (''tags'', PyList [PyInt 1, PyNone])],
      req_priority = 0, req_request_id = ''r1'', req_created_at = ''1.5''\<rparr>"

section \<open>The payload round trip\<close>

lemma str_items_str: "str_items (map (\<lambda>(k, v). (k, PyStr v)) hs) = Inr hs"
  by (induction hs) auto

lemma dict_field_self: "dget d k = Some (PyDict kvs) \<Longrightarrow> dict_field d k = Inr kvs"
  by (auto simp: dict_field_def falsy_def)

lemma from_to_storage: "from_storage fid now (to_storage r) = Inr r"
proof -
  let ?d = "[(''method'', PyStr (req_method r)), (''url'', PyStr (req_url r)),
             (''headers'', PyDict (map (\<lambda>(k, v). (k, PyStr v)) (req_headers r))),
             (''params'', PyDict (req_params r)), (''body'', req_body r),
             (''priority'', PyInt (req_priority r)), (''request_id'', PyStr (req_request_id r)),
             (''created_at'', PyFloat (req_created_at r))]"
  have "dict_field ?d ''headers'' = Inr (map (\<lambda>(k, v). (k, PyStr v)) (req_headers r))"
    and "dict_field ?d ''params'' = Inr (req_params r)"
    by (rule dict_field_self; simp add: dget_def)+
  then show ?thesis
    by (simp add: from_storage_def to_storage_def str_field_def str_items_str dget_def)
qed

lemma val_ok_to_storage: "req_ok r \<Longrightarrow> val_ok (to_storage r)"
  by (auto simp: req_ok_def to_storage_def dict_ok_def dkeys_def case_prod_unfold comp_def)

lemma parse_request_payload:
  "req_ok r \<Longrightarrow> request_payload r = Inr s \<Longrightarrow> parse_payload fid now s = Inr r"
  using loads_dumps_default [OF val_ok_to_storage, of r s]
  by (simp add: parse_payload_def request_payload_def from_to_storage)

lemma dumps_encodable: "\<not> default_str opts \<Longrightarrow> (\<exists>s. dumps opts v = Inr s) \<longleftrightarrow> encodable v"
proof (induction opts v rule: dumps.induct)
  case (8 opts xs)
  then have "(\<exists>ss. map (dumps opts) xs = map Inr ss) \<longleftrightarrow> (\<forall>x \<in> set xs. encodable x)"
    by (simp add: map_Inr_conv)
  then show ?case by (auto split: sum.splits simp: collect_Inr)
next
  case (9 opts kvs)
  let ?f = "\<lambda>(k, v). case dumps opts v of Inl e \<Rightarrow> Inl e | Inr s \<Rightarrow> Inr (json_str k @ key_sep opts @ s)"
  have "(\<exists>s. ?f kv = Inr s) \<longleftrightarrow> encodable (snd kv)" if "kv \<in> set (order_items opts kvs)" for kv
    using "9.IH" [OF that prod.collapse "9.prems"] by (auto split: sum.splits prod.splits)
  then have "(\<exists>ss. map ?f (order_items opts kvs) = map Inr ss) \<longleftrightarrow> (\<forall>kv \<in> set kvs. encodable (snd kv))"
    unfolding map_Inr_conv by simp
  then show ?case by (auto split: sum.splits simp: collect_Inr case_prod_unfold)
qed (auto simp: not_serializable_def)

lemma request_payload_defined:
  "(\<exists>s. request_payload r = Inr s) \<longleftrightarrow> encodable (PyDict (req_params r)) \<and> encodable (req_body r)"
  unfolding request_payload_def
  by (subst dumps_encodable) (auto simp: default_opts_def to_storage_def)

section \<open>The idempotency key\<close>

lemma stable_dump_Inr: "dumps stable_opts v = Inr (stable_dump v)"
  using dumps_default_str [of stable_opts v] by (auto simp: stable_dump_def stable_opts_def)

lemma seps_ok_stable: "seps_ok stable_opts"
  by (simp add: seps_ok_def stable_opts_def)

lemma stable_dump_norm: "stable_dump (json_norm stable_opts v) = stable_dump v"
  by (simp add: stable_dump_def dumps_norm stable_opts_def)

lemma stable_dump_inject:
  assumes "val_ok v" and "val_ok w"
  shows "stable_dump v = stable_dump w \<longleftrightarrow> json_norm stable_opts v = json_norm stable_opts w"
proof
  assume "stable_dump v = stable_dump w"
  then show "json_norm stable_opts v = json_norm stable_opts w"
    using loads_dumps [OF seps_ok_stable assms(1) stable_dump_Inr]
      loads_dumps [OF seps_ok_stable assms(2) stable_dump_Inr] by simp
qed (metis stable_dump_norm)

lemma utf8_char_inject: "utf8_char c @ s = utf8_char d @ t \<longleftrightarrow> c = d \<and> s = t"
proof
  assume eq: "utf8_char c @ s = utf8_char d @ t"
  have "code c < 128 \<longleftrightarrow> code d < 128"
    using eq by (auto simp: utf8_char_def Let_def split: if_splits)
  moreover have "code c = code d" if "code c \<ge> 128" "code d \<ge> 128"
  proof -
    have "code c div 64 = code d div 64" "code c mod 64 = code d mod 64"
      using eq that by (auto simp: utf8_char_def Let_def)
    then show ?thesis by (metis div_mult_mod_eq)
  qed
  ultimately have "code c = code d" using eq by (auto simp: utf8_char_def Let_def split: if_splits)
  then have "c = d" by (simp add: code_inject)
  with eq show "c = d \<and> s = t" by simp
qed simp

lemma utf8_inject: "utf8 s = utf8 t \<longleftrightarrow> s = t"
proof
  have ne: "utf8_char c \<noteq> []" for c by (simp add: utf8_char_def Let_def)
  show "utf8 s = utf8 t \<Longrightarrow> s = t"
  proof (induction s arbitrary: t)
    case Nil
    then show ?case using ne by (cases t) (auto simp: utf8_def)
  next
    case (Cons c s)
    then obtain d t' where t: "t = d # t'" using ne by (cases t) (auto simp: utf8_def)
    with Cons.prems have "utf8_char c @ utf8 s = utf8_char d @ utf8 t'" by (simp add: utf8_def)
    then show ?case using Cons.IH t utf8_char_inject by auto
  qed
qed simp

lemma val_ok_key_payload: "req_ok r \<Longrightarrow> val_ok (key_payload r)"
  by (auto simp: req_ok_def key_payload_def dict_ok_def dkeys_def)

lemma idempotency_key_canonical: "canonical r = canonical s \<Longrightarrow> idempotency_key r = idempotency_key s"
  by (metis canonical_def idempotency_key_def stable_dump_norm)

lemma canonical_upper: "canonical (r\<lparr>req_method := upper (req_method r)\<rparr>) = canonical r"
  by (simp add: canonical_def key_payload_def)

lemma length_idempotency_key: "length (idempotency_key r) = 64"
  by (simp add: idempotency_key_def length_hexdigest)

lemma order_items_perm:
  assumes "sort_keys opts" and "dict_ok xs" and "dict_ok ys" and "set xs = set ys"
  shows "order_items opts xs = order_items opts ys"
proof -
  have d: "distinct (map fst (sort_key fst xs))" "distinct (map fst (sort_key fst ys))"
    using assms(2,3) by (simp_all add: dict_ok_def dkeys_def distinct_map)
  have "inj_on fst (set (sort_key fst xs) \<union> set (sort_key fst ys))"
    using assms(2,4) by (simp add: dict_ok_def dkeys_def distinct_map)
  then have "sort_key fst xs = sort_key fst ys"
    using d assms(4) by (intro map_sorted_distinct_set_unique [of fst]) auto
  with assms(1) show ?thesis by (simp add: order_items_def)
qed

text \<open>The key does not depend on the case of the method, the order of the parameters, or on
  headers, priority, identifier and time stamp; it is always 64 characters long.\<close>

lemma idempotency_key_incidentals:
  assumes "dict_ok (req_params r)" and "dict_ok ps" and "set ps = set (req_params r)" and "upper m = upper (req_method r)"
  shows "idempotency_key \<lparr>req_method = m, req_url = req_url r, req_headers = h, req_params = ps, req_body = req_body r,
      req_priority = p, req_request_id = i, req_created_at = t\<rparr> = idempotency_key r
    \<and> length (idempotency_key r) = 64"
proof -
  have "order_items stable_opts ps = order_items stable_opts (req_params r)"
    using assms(1-3) by (intro order_items_perm) (auto simp: stable_opts_def)
  then have "json_norm stable_opts (PyDict ps) = json_norm stable_opts (PyDict (req_params r))" by simp
  then have "canonical \<lparr>req_method = m, req_url = req_url r, req_headers = h, req_params = ps, req_body = req_body r,
      req_priority = p, req_request_id = i, req_created_at = t\<rparr> = canonical r"
    using assms(4) by (simp add: canonical_def key_payload_def order_items_def stable_opts_def)
  from idempotency_key_canonical [OF this] show ?thesis by (simp add: length_idempotency_key)
qed

lemma sample_request_ok: "req_ok sample_request"
  by code_simp

section \<open>Properties\<close>

text \<open>C24: What \<open>to_storage\<close> and \<open>json.dumps\<close> write into the payload column, \<open>json.loads\<close> and
  \<open>from_storage\<close> read back as the same request, field by field.\<close>

theorem payload_round_trip:
  assumes "req_ok r" and "encodable (PyDict (req_params r))" and "encodable (req_body r)"
  shows "\<exists>s. request_payload r = Inr s \<and> parse_payload fid now s = Inr r"
  using request_payload_defined [of r] parse_request_payload [OF assms(1)] assms(2,3) by blast

theorem payload_round_trip_witness:
  "\<exists>s. request_payload sample_request = Inr s \<and> parse_payload ''fresh'' ''2.0'' s = Inr sample_request"
  using payload_round_trip [OF sample_request_ok, of "''fresh''" "''2.0''"] by (simp add: sample_request_def)



end
