(* ===== verification/Request_Queue.thy ===== *)
theory Request_Queue
  imports Models
begin

text \<open>
  \<open>queue.py\<close>: the bounded request queue over \<open>asyncio.Queue\<close>. \<open>await put\<close> blocks while the
  queue is full and \<open>await get\<close> while it is empty; an operation that would block is \<open>None\<close> and
  the caller stays where it is. \<open>unfinished\<close> is the counter behind \<open>task_done\<close> and \<open>join\<close>.
\<close>

record QueueItem =
  qi_request :: Request
  qi_attempt :: int

record RequestQueue =
  q_items :: "QueueItem list"
  q_max :: int
  q_unfinished :: int

definition new_RequestQueue :: "int \<Rightarrow> RequestQueue res" where
  "new_RequestQueue max_sz =
     (if max_sz \<le> 0 then Inl (ValueError ''max_size must be > 0'')
      else Inr \<lparr>q_items = [], q_max = max_sz, q_unfinished = 0\<rparr>)"

definition depth :: "RequestQueue \<Rightarrow> int" where
  "depth q = int (length (q_items q))"

definition is_full :: "RequestQueue \<Rightarrow> bool" where
  "is_full q \<longleftrightarrow> depth q \<ge> q_max q"

definition put :: "RequestQueue \<Rightarrow> QueueItem \<Rightarrow> RequestQueue" where
  "put q item = q\<lparr>q_items := q_items q @ [item], q_unfinished := q_unfinished q + 1\<rparr>"

definition enqueue :: "RequestQueue \<Rightarrow> QueueItem \<Rightarrow> RequestQueue option" where
  "enqueue q item = (if is_full q then None else Some (put q item))"

definition try_enqueue :: "RequestQueue \<Rightarrow> QueueItem \<Rightarrow> bool \<times> RequestQueue" where
  "try_enqueue q item = (if is_full q then (False, q) else (True, put q item))"

definition dequeue :: "RequestQueue \<Rightarrow> (QueueItem \<times> RequestQueue) option" where
  "dequeue q = (case q_items q of [] \<Rightarrow> None | item # items \<Rightarrow> Some (item, q\<lparr>q_items := items\<rparr>))"

definition task_done :: "RequestQueue \<Rightarrow> RequestQueue res" where
  "task_done q =
     (if q_unfinished q \<le> 0 then Inl (ValueError ''task_done() called too many times'')
      else Inr (q\<lparr>q_unfinished := q_unfinished q - 1\<rparr>))"

text \<open>\<open>join\<close> returns once every item put was matched by a \<open>task_done\<close>.\<close>

definition join_returns :: "RequestQueue \<Rightarrow> bool" where
  "join_returns q \<longleftrightarrow> q_unfinished q = 0"

definition queue_ok :: "RequestQueue \<Rightarrow> bool" where
  "queue_ok q \<longleftrightarrow> 0 < q_max q \<and> depth q \<le> q_max q \<and> depth q \<le> q_unfinished q"

section \<open>The FIFO interface\<close>

text \<open>Repeated insertion and removal, stopping where one would block.\<close>

fun enq_all :: "('q \<Rightarrow> 'a \<Rightarrow> 'q option) \<Rightarrow> 'q \<Rightarrow> 'a list \<Rightarrow> 'q option" where
  "enq_all enq q [] = Some q"
| "enq_all enq q (x # xs) = (case enq q x of None \<Rightarrow> None | Some q' \<Rightarrow> enq_all enq q' xs)"

fun deq_n :: "('q \<Rightarrow> ('a \<times> 'q) option) \<Rightarrow> 'q \<Rightarrow> nat \<Rightarrow> ('a list \<times> 'q) option" where
  "deq_n deq q 0 = Some ([], q)"
| "deq_n deq q (Suc n) =
     (case deq q of None \<Rightarrow> None
      | Some (x, q') \<Rightarrow> map_option (\<lambda>(xs, q''). (x # xs, q'')) (deq_n deq q' n))"

locale bounded_fifo =
  fixes enq :: "'q \<Rightarrow> 'a \<Rightarrow> 'q option"
    and deq :: "'q \<Rightarrow> ('a \<times> 'q) option"
    and contents :: "'q \<Rightarrow> 'a list"
    and capacity :: "'q \<Rightarrow> int"
    and invar :: "'q \<Rightarrow> bool"
  assumes enq_blocks: "enq q x = None \<longleftrightarrow> int (length (contents q)) \<ge> capacity q"
    and enq_contents: "enq q x = Some q' \<Longrightarrow> contents q' = contents q @ [x]"
    and deq_blocks: "deq q = None \<longleftrightarrow> contents q = []"
    and deq_contents: "deq q = Some (x, q') \<Longrightarrow> contents q = x # contents q'"
    and capacity_kept: "enq q x = Some q' \<Longrightarrow> capacity q' = capacity q"
      "deq q = Some (x, q') \<Longrightarrow> capacity q' = capacity q"
    and invar_kept: "invar q \<Longrightarrow> enq q x = Some q' \<Longrightarrow> invar q'"
      "invar q \<Longrightarrow> deq q = Some (x, q') \<Longrightarrow> invar q'"
begin

lemma enq_all_contents: "enq_all enq q xs = Some q' \<Longrightarrow> contents q' = contents q @ xs \<and> capacity q' = capacity q"
proof (induction xs arbitrary: q)
  case (Cons x xs)
  then obtain q1 where q1: "enq q x = Some q1" "enq_all enq q1 xs = Some q'"
    by (auto split: option.splits)
  with Cons.IH [of q1] enq_contents [OF q1(1)] capacity_kept(1) [OF q1(1)] show ?case by simp
qed simp

lemma deq_n_contents:
  "n \<le> length (contents q) \<Longrightarrow>
   \<exists>q'. deq_n deq q n = Some (take n (contents q), q') \<and> contents q' = drop n (contents q)"
proof (induction n arbitrary: q)
  case (Suc n)
  then obtain x q1 where q1: "deq q = Some (x, q1)" using deq_blocks [of q] by (cases "deq q") auto
  have c: "contents q = x # contents q1" by (rule deq_contents [OF q1])
  with Suc.prems Suc.IH [of q1] show ?case by (auto simp: q1)
qed simp

lemma fifo_order:
  assumes "contents q = []" and "enq_all enq q xs = Some q'"
  shows "\<exists>q''. deq_n deq q' (length xs) = Some (xs, q'') \<and> contents q'' = []"
  using deq_n_contents [of "length xs" q'] enq_all_contents [OF assms(2)] assms(1) by simp

lemma never_over_capacity:
  assumes "int (length (contents q)) \<le> capacity q" and "enq q x = Some q'"
  shows "int (length (contents q')) \<le> capacity q'"
proof -
  have "\<not> int (length (contents q)) \<ge> capacity q" using assms(2) enq_blocks [of q x] by auto
  then show ?thesis using enq_contents [OF assms(2)] capacity_kept(1) [OF assms(2)] by simp
qed

lemma enq_all_fits:
  "enq_all enq q xs = None \<longleftrightarrow> int (length (contents q)) + int (length xs) > capacity q \<and> xs \<noteq> []"
proof (induction xs arbitrary: q)
  case (Cons x xs)
  show ?case
  proof (cases "enq q x")
    case None
    then show ?thesis using enq_blocks [of q x] by simp
  next
    case (Some q1)
    then have "contents q1 = contents q @ [x]" "capacity q1 = capacity q" "int (length (contents q)) < capacity q"
      using enq_contents [OF Some] capacity_kept(1) [OF Some] enq_blocks [of q x] by auto
    then show ?thesis using Some Cons.IH [of q1] by auto
  qed
qed simp

end

section \<open>Facts\<close>

lemma enqueue_Some: "enqueue q item = Some q' \<longleftrightarrow> \<not> is_full q \<and> q' = put q item"
  by (auto simp: enqueue_def)

lemma dequeue_Some:
  "dequeue q = Some (item, q') \<longleftrightarrow> (\<exists>items. q_items q = item # items \<and> q' = q\<lparr>q_items := items\<rparr>)"
  by (auto simp: dequeue_def split: list.splits)

lemma new_queue_ok: "new_RequestQueue n = Inr q \<Longrightarrow> queue_ok q \<and> q_items q = []"
  by (auto simp: new_RequestQueue_def queue_ok_def depth_def split: if_splits)

lemma put_ok: "queue_ok q \<Longrightarrow> \<not> is_full q \<Longrightarrow> queue_ok (put q item)"
  by (auto simp: queue_ok_def is_full_def put_def depth_def)

lemma dequeue_ok: "queue_ok q \<Longrightarrow> dequeue q = Some (item, q') \<Longrightarrow> queue_ok q'"
  by (auto simp: queue_ok_def dequeue_Some depth_def)

interpretation rq: bounded_fifo enqueue dequeue q_items q_max queue_ok
proof unfold_locales
  show "enqueue q x = None \<longleftrightarrow> int (length (q_items q)) \<ge> q_max q" for q x
    by (simp add: enqueue_def is_full_def depth_def)
  show "dequeue q = None \<longleftrightarrow> q_items q = []" for q
    by (simp add: dequeue_def split: list.splits)
qed (auto simp: enqueue_Some dequeue_Some put_def intro: dequeue_ok put_ok [unfolded put_def])

section \<open>Properties\<close>

definition sample_item :: "int \<Rightarrow> QueueItem" where
  "sample_item n = \<lparr>qi_request = sample_request, qi_attempt = n\<rparr>"

text \<open>Items leave the queue in the order in which they were put, none lost or repeated.\<close>

lemma queue_fifo:
  assumes "new_RequestQueue n = Inr q" and "enq_all enqueue q xs = Some q'"
  shows "\<exists>q''. deq_n dequeue q' (length xs) = Some (xs, q'') \<and> q_items q'' = []"
  using rq.fifo_order [OF _ assms(2)] new_queue_ok [OF assms(1)] by simp

lemma queue_fifo_witness:
  "\<exists>q''. deq_n dequeue \<lparr>q_items = [sample_item 0, sample_item 1], q_max = 5, q_unfinished = 2\<rparr> 2
     = Some ([sample_item 0, sample_item 1], q'') \<and> q_items q'' = []"
  using queue_fifo [of 5 "\<lparr>q_items = [], q_max = 5, q_unfinished = 0\<rparr>" "[sample_item 0, sample_item 1]"
      "\<lparr>q_items = [sample_item 0, sample_item 1], q_max = 5, q_unfinished = 2\<rparr>"]
  by (simp add: new_RequestQueue_def enqueue_def is_full_def depth_def put_def numeral_2_eq_2)

text \<open>Back-pressure is exact: putting a batch of items blocks precisely when they do not all
  fit, and a queue never holds more than its maximum.\<close>

lemma queue_backpressure:
  "(enq_all enqueue q xs = None \<longleftrightarrow> xs \<noteq> [] \<and> q_max q < depth q + int (length xs))
   \<and> (queue_ok q \<and> enqueue q x = Some q' \<longrightarrow> depth q' \<le> q_max q')"
  using rq.enq_all_fits [of q xs] rq.never_over_capacity [of q x q'] by (auto simp: depth_def queue_ok_def)

lemma queue_backpressure_witness:
  "enq_all enqueue \<lparr>q_items = [], q_max = 1, q_unfinished = 0\<rparr> [sample_item 0, sample_item 1] = None
   \<and> depth \<lparr>q_items = [sample_item 0], q_max = 1, q_unfinished = 1\<rparr> \<le> 1"
  using queue_backpressure [of "\<lparr>q_items = [], q_max = 1, q_unfinished = 0\<rparr>" "[sample_item 0, sample_item 1]"
      "sample_item 0" "\<lparr>q_items = [sample_item 0], q_max = 1, q_unfinished = 1\<rparr>"]
  by (simp add: queue_ok_def enqueue_def is_full_def depth_def put_def)

end
