(* ===== verification/Py_Float.thy ===== *)
theory Py_Float
  imports Py_Text
begin

text \<open>
  Python's \<open>float\<close> as far as text can produce it: finite values, the two infinities and NaN,
  the order comparisons with them, and \<open>float(s)\<close> with its grammar (sign, digits with single
  underscores between them, point, exponent, \<open>inf\<close>, \<open>infinity\<close>, \<open>nan\<close>). Finite values are
  exact; a literal whose magnitude rounds beyond the largest double is an infinity.
\<close>

datatype pyfloat = Fin real | PInf | NInf | NaN

text \<open>\<open>x > y\<close>; false as soon as one side is NaN.\<close>

fun fgt :: "pyfloat \<Rightarrow> pyfloat \<Rightarrow> bool" where
  "fgt (Fin x) (Fin y) \<longleftrightarrow> x > y"
| "fgt PInf (Fin y) \<longleftrightarrow> True"
| "fgt (Fin x) NInf \<longleftrightarrow> True"
| "fgt PInf NInf \<longleftrightarrow> True"
| "fgt _ _ \<longleftrightarrow> False"

text \<open>\<open>max(a, b)\<close> keeps the first argument unless the second is greater; \<open>min\<close> likewise.\<close>

definition fmax :: "pyfloat \<Rightarrow> pyfloat \<Rightarrow> pyfloat" where
  "fmax a b = (if fgt b a then b else a)"

definition fmin :: "pyfloat \<Rightarrow> pyfloat \<Rightarrow> pyfloat" where
  "fmin a b = (if fgt a b then b else a)"

section \<open>Reading a literal\<close>

text \<open>A run of digits, single underscores allowed between two digits: the digits and the rest.\<close>

fun scan_digits :: "bool \<Rightarrow> string \<Rightarrow> string \<times> string" where
  "scan_digits prev [] = ([], [])"
| "scan_digits prev (c # cs) =
     (if is_digit c then (let (ds, r) = scan_digits True cs in (c # ds, r))
      else if c = CHR ''_'' \<and> prev \<and> cs \<noteq> [] \<and> is_digit (hd cs) then scan_digits False cs
      else ([], c # cs))"

definition scan_sign :: "string \<Rightarrow> int \<times> string" where
  "scan_sign s =
     (case s of
        [] \<Rightarrow> (1, [])
      | c # cs \<Rightarrow> if c = CHR ''-'' then (-1, cs) else if c = CHR ''+'' then (1, cs) else (1, s))"

text \<open>The exponent part: absent, or \<open>e\<close>, a sign and at least one digit.\<close>

definition scan_exp :: "string \<Rightarrow> (int \<times> string) option" where
  "scan_exp s =
     (case s of
        [] \<Rightarrow> Some (0, [])
      | c # cs \<Rightarrow>
          if c = CHR ''e'' \<or> c = CHR ''E'' then
            (let (sg, r) = scan_sign cs; (ds, r') = scan_digits False r in
             if ds = [] then None else Some (sg * int (digits_val ds), r'))
          else Some (0, s))"

definition pow10 :: "int \<Rightarrow> real" where
  "pow10 e = (if 0 \<le> e then 10 ^ nat e else 1 / 10 ^ nat (- e))"

text \<open>Magnitudes from here on round to infinity (half an ulp above the largest double).\<close>

definition float_overflow :: real where
  "float_overflow = 2 ^ 1024 - 2 ^ 970"

definition mk_float :: "int \<Rightarrow> real \<Rightarrow> pyfloat" where
  "mk_float sg m =
     (if m \<ge> float_overflow then (if sg < 0 then NInf else PInf) else Fin (of_int sg * m))"

definition float_number :: "int \<Rightarrow> string \<Rightarrow> pyfloat option" where
  "float_number sg s =
     (let (ip, r) = scan_digits False s;
          (fp, r') = (case r of [] \<Rightarrow> ([], [])
                      | c # cs \<Rightarrow> if c = CHR ''.'' then scan_digits False cs else ([], r)) in
      if ip = [] \<and> fp = [] then None
      else (case scan_exp r' of
              None \<Rightarrow> None
            | Some (e, rest) \<Rightarrow>
                if rest \<noteq> [] then None
                else Some (mk_float sg ((real (digits_val ip)
                       + real (digits_val fp) / 10 ^ length fp) * pow10 e))))"

definition float_of_str :: "string \<Rightarrow> pyfloat res" where
  "float_of_str s0 =
     (let (sg, s) = scan_sign (strip s0); l = lower s in
      if l = ''inf'' \<or> l = ''infinity'' then Inr (if sg < 0 then NInf else PInf)
      else if l = ''nan'' then Inr NaN
      else case float_number sg s of
             None \<Rightarrow> Inl (ValueError ''could not convert string to float'')
           | Some x \<Rightarrow> Inr x)"

section \<open>Facts\<close>

lemma fmax_zero_cases:
  "fmax (Fin 0) x = (case x of Fin r \<Rightarrow> Fin (max 0 r) | PInf \<Rightarrow> PInf | NInf \<Rightarrow> Fin 0 | NaN \<Rightarrow> Fin 0)"
  by (cases x) (auto simp: fmax_def)

lemma scan_digits_all:
  "\<forall>c \<in> set ds. is_digit c \<Longrightarrow> (r = [] \<or> (\<not> is_digit (hd r) \<and> hd r \<noteq> CHR ''_'')) \<Longrightarrow>
   scan_digits p (ds @ r) = (ds, r)"
proof (induction ds arbitrary: p)
  case Nil
  then show ?case by (cases r) auto
next
  case (Cons d ds)
  then show ?case by simp
qed

lemma not_space_digit: "is_digit c \<Longrightarrow> \<not> is_space c"
  by (auto simp: is_digit_def is_space_def)

lemma dropWhile_hd: "s \<noteq> [] \<Longrightarrow> \<not> P (hd s) \<Longrightarrow> dropWhile P s = s"
  by (cases s) auto

lemma strip_digits: "\<forall>c \<in> set s. is_digit c \<Longrightarrow> strip s = s"
proof (cases "s = []")
  case False
  assume all: "\<forall>c \<in> set s. is_digit c"
  then have "\<not> is_space (hd s)" "\<not> is_space (hd (rev s))"
    using False by (simp_all add: not_space_digit hd_rev)
  with False show ?thesis by (simp add: strip_def dropWhile_hd)
qed (simp add: strip_def)

lemma lower_digit: "is_digit c \<Longrightarrow> lower_char c = c"
  by (simp add: lower_char_def is_digit_def Let_def)

lemma lower_digits: "\<forall>c \<in> set s. is_digit c \<Longrightarrow> lower s = s"
  by (simp add: lower_def lower_digit map_idI)

lemma scan_sign_digit: "s \<noteq> [] \<Longrightarrow> is_digit (hd s) \<Longrightarrow> scan_sign s = (1, s)"
  by (cases s) (auto simp: scan_sign_def is_digit_def code_def)

lemma float_number_nat:
  "real n < float_overflow \<Longrightarrow> float_number 1 (nat_str n) = Some (Fin (real n))"
  using scan_digits_all [OF nat_str_digits [of n], of "[]" False]
  by (simp add: float_number_def scan_exp_def pow10_def mk_float_def digits_val_def [of "[]"])

lemma float_of_str_nat:
  assumes "real n < float_overflow"
  shows "float_of_str (nat_str n) = Inr (Fin (real n))"
proof -
  have "nat_str n \<noteq> ''inf''" "nat_str n \<noteq> ''infinity''" "nat_str n \<noteq> ''nan''"
    using hd_nat_str_digit [of n] by (auto simp: is_digit_def code_def)
  with assms show ?thesis
    using nat_str_digits [of n]
    by (simp add: float_of_str_def strip_digits scan_sign_digit lower_digits float_number_nat)
qed

text \<open>A number printed with three decimals reads back as the rounded number.\<close>

lemma strip_ends: "s \<noteq> [] \<Longrightarrow> \<not> is_space (hd s) \<Longrightarrow> \<not> is_space (last s) \<Longrightarrow> strip s = s"
  by (simp add: strip_def dropWhile_hd hd_rev)

lemma nat_str_digit: "d < 10 \<Longrightarrow> nat_str d = [digit_char d]"
  by (subst nat_str.simps) simp

lemma float_number_point:
  assumes "\<forall>c \<in> set ip. is_digit c" and "\<forall>c \<in> set fp. is_digit c" and "ip \<noteq> []"
  shows "float_number 1 (ip @ ''.'' @ fp) = Some (mk_float 1 (real (digits_val ip) + real (digits_val fp) / 10 ^ length fp))"
proof -
  have "scan_digits False (ip @ ''.'' @ fp) = (ip, ''.'' @ fp)"
    by (rule scan_digits_all [OF assms(1)]) (simp add: is_digit_def code_def)
  moreover have "scan_digits False fp = (fp, [])" using scan_digits_all [OF assms(2), of "[]" False] by simp
  ultimately show ?thesis using assms(3) by (simp add: float_number_def scan_exp_def pow10_def)
qed

lemma float_of_str_point:
  assumes ip: "\<forall>c \<in> set ip. is_digit c" "ip \<noteq> []" and fp: "\<forall>c \<in> set fp. is_digit c" "fp \<noteq> []"
  shows "float_of_str (ip @ ''.'' @ fp) = Inr (mk_float 1 (real (digits_val ip) + real (digits_val fp) / 10 ^ length fp))"
proof -
  let ?s = "ip @ ''.'' @ fp"
  have hd: "is_digit (hd ?s)" and last: "is_digit (last ?s)" using assms by (auto simp: hd_append last_append)
  have "lower ?s = ?s" using ip fp by (simp add: lower_def lower_digit map_idI) (simp add: lower_char_def code_def)
  moreover have "?s \<noteq> ''inf''" "?s \<noteq> ''infinity''" "?s \<noteq> ''nan''"
  proof -
    have "\<not> is_digit CHR ''i''" "\<not> is_digit CHR ''n''" by (simp_all add: is_digit_def code_def)
    then show "?s \<noteq> ''inf''" "?s \<noteq> ''infinity''" "?s \<noteq> ''nan''" using hd by (metis list.sel(1))+
  qed
  moreover have "strip ?s = ?s" using hd last by (intro strip_ends) (auto simp: not_space_digit)
  moreover have "scan_sign ?s = (1, ?s)" using hd by (intro scan_sign_digit) auto
  ultimately show ?thesis using float_number_point [OF ip(1) fp(1) ip(2)] by (simp add: float_of_str_def)
qed

lemma round_half_even_near: "\<bar>of_int (round_half_even y) - y\<bar> \<le> 1 / 2"
  using of_int_floor_le [of y] floor_correct [of y] by (auto simp: round_half_even_def Let_def)

lemma round_half_even_nonneg: "0 \<le> y \<Longrightarrow> 0 \<le> round_half_even y"
  by (auto simp: round_half_even_def Let_def)

lemma three_digits: "100 * (m div 100) + 10 * (m div 10 mod 10) + m mod 10 = (m :: nat)"
proof -
  have "m div 100 = m div 10 div 10" by (simp add: div_mult2_eq [symmetric])
  then show ?thesis using div_mult_mod_eq [of "m div 10" 10] div_mult_mod_eq [of m 10] by linarith
qed

lemma fmt_3f_reads:
  assumes "0 \<le> x" and "x < 10 ^ 300"
  shows "float_of_str (fmt_3f x) = Inr (Fin (of_int (round_half_even (x * 1000)) / 1000))"
proof -
  define r where "r = nat (round_half_even (\<bar>x\<bar> * 1000))"
  let ?m = "r mod 1000"
  let ?ip = "nat_str (r div 1000)" and ?fp = "nat_str (?m div 100) @ nat_str (?m div 10 mod 10) @ nat_str (?m mod 10)"
  have d: "?m div 100 < 10" "?m div 10 mod 10 < 10" "?m mod 10 < 10" by (simp_all add: less_mult_imp_div_less)
  have fp: "?fp = [digit_char (?m div 100), digit_char (?m div 10 mod 10), digit_char (?m mod 10)]"
    using d by (simp add: nat_str_digit)
  have "digits_val ?fp = 100 * (?m div 100) + 10 * (?m div 10 mod 10) + ?m mod 10"
    unfolding fp using d by (simp add: digits_val_def)
  also have "\<dots> = ?m" by (rule three_digits)
  finally have val: "digits_val ?fp = ?m" .
  have thousands: "real (r div 1000) * 1000 + real ?m = real r"
    by (metis div_mult_mod_eq of_nat_add of_nat_mult of_nat_numeral)
  have "fmt_3f x = ?ip @ ''.'' @ ?fp" using assms(1) by (simp add: fmt_3f_def r_def Let_def)
  then have "float_of_str (fmt_3f x) = Inr (mk_float 1 (real (r div 1000) + real ?m / 10 ^ length ?fp))"
    using float_of_str_point [of ?ip ?fp] nat_str_digits val by (auto simp: ball_Un)
  also have "real (r div 1000) + real ?m / 10 ^ length ?fp = real r / 1000"
    unfolding fp using thousands by simp
  also have "real r = of_int (round_half_even (x * 1000))"
    using assms(1) round_half_even_nonneg [of "x * 1000"] by (simp add: r_def)
  finally have "float_of_str (fmt_3f x) = Inr (mk_float 1 (of_int (round_half_even (x * 1000)) / 1000))" .
  moreover have "of_int (round_half_even (x * 1000)) / 1000 < float_overflow"
  proof -
    have "of_int (round_half_even (x * 1000)) \<le> x * 1000 + 1 / 2" using round_half_even_near [of "x * 1000"] by linarith
    then have "of_int (round_half_even (x * 1000)) / 1000 < (10 ^ 300 + 1 :: real)" using assms(2) by simp
    also have "\<dots> \<le> float_overflow" by (simp add: float_overflow_def)
    finally show ?thesis .
  qed
  ultimately show ?thesis by (simp add: mk_float_def)
qed

end
