(* ===== verification/Errors.thy ===== *)
theory Errors
  imports Py_Float Py_Json
begin

text \<open>
  \<open>errors.py\<close>: the exception classes of the client, the transport exceptions it classifies
  (the \<open>aiohttp\<close> and \<open>asyncio\<close> classes named in \<open>is_retryable_exception\<close>, with their
  \<open>str\<close>; every other exception is \<open>OtherExc\<close> with its class name), and the two classifiers.
  \<open>_is_throttle\<close> of \<open>client.py\<close> is here because it is a classifier of the same exceptions.
\<close>

datatype exc =
    CircuitOpenError string real
  | RetryableError string "int option" "pyfloat option"
  | NonRetryableError string "int option" pyval
  | DeadLetterError string "int option" pyval
  | TimeoutErr string
  | ClientConnectionErr string
  | ServerDisconnectedErr string
  | ClientPayloadErr string
  | OtherExc string string

text \<open>\<open>str(exc)\<close> and \<open>exc.__class__.__name__\<close>.\<close>

fun str_exc :: "exc \<Rightarrow> string" where
  "str_exc (CircuitOpenError host ra) =
     ''circuit open for '' @ host @ '', retry after '' @ fmt_1f ra @ ''s''"
| "str_exc (RetryableError m _ _) = m"
| "str_exc (NonRetryableError m _ _) = m"
| "str_exc (DeadLetterError m _ _) = m"
| "str_exc (TimeoutErr m) = m"
| "str_exc (ClientConnectionErr m) = m"
| "str_exc (ServerDisconnectedErr m) = m"
| "str_exc (ClientPayloadErr m) = m"
| "str_exc (OtherExc _ m) = m"

fun class_name :: "exc \<Rightarrow> string" where
  "class_name (CircuitOpenError _ _) = ''CircuitOpenError''"
| "class_name (RetryableError _ _ _) = ''RetryableError''"
| "class_name (NonRetryableError _ _ _) = ''NonRetryableError''"
| "class_name (DeadLetterError _ _ _) = ''DeadLetterError''"
| "class_name (TimeoutErr _) = ''TimeoutError''"
| "class_name (ClientConnectionErr _) = ''ClientConnectionError''"
| "class_name (ServerDisconnectedErr _) = ''ServerDisconnectedError''"
| "class_name (ClientPayloadErr _) = ''ClientPayloadError''"
| "class_name (OtherExc c _) = c"

text \<open>\<open>isinstance\<close> along the class hierarchy.\<close>

fun is_RetryableError :: "exc \<Rightarrow> bool" where
  "is_RetryableError (RetryableError _ _ _) = True"
| "is_RetryableError _ = False"

fun is_NonRetryableError :: "exc \<Rightarrow> bool" where
  "is_NonRetryableError (NonRetryableError _ _ _) = True"
| "is_NonRetryableError (DeadLetterError _ _ _) = True"
| "is_NonRetryableError _ = False"

fun is_CircuitOpenError :: "exc \<Rightarrow> bool" where
  "is_CircuitOpenError (CircuitOpenError _ _) = True"
| "is_CircuitOpenError _ = False"

definition is_AsyncHardenedError :: "exc \<Rightarrow> bool" where
  "is_AsyncHardenedError e \<longleftrightarrow> is_RetryableError e \<or> is_NonRetryableError e \<or> is_CircuitOpenError e"

definition is_retryable_status :: "int \<Rightarrow> bool" where
  "is_retryable_status status_code =
     (if status_code = 429 then True else 500 \<le> status_code \<and> status_code < 600)"

definition is_retryable_exception :: "exc \<Rightarrow> bool" where
  "is_retryable_exception e =
     (if is_RetryableError e then True
      else if is_NonRetryableError e then False
      else case e of
             TimeoutErr _ \<Rightarrow> True
           | ClientConnectionErr _ \<Rightarrow> True
           | ServerDisconnectedErr _ \<Rightarrow> True
           | ClientPayloadErr _ \<Rightarrow> True
           | _ \<Rightarrow> False)"

fun status_code_of :: "exc \<Rightarrow> int option" where
  "status_code_of (RetryableError _ s _) = s"
| "status_code_of (NonRetryableError _ s _) = s"
| "status_code_of (DeadLetterError _ s _) = s"
| "status_code_of _ = None"

text \<open>\<open>getattr(exc, "retry_after", None)\<close>.\<close>

fun retry_after_of :: "exc \<Rightarrow> pyfloat option" where
  "retry_after_of (RetryableError _ _ ra) = ra"
| "retry_after_of (CircuitOpenError _ ra) = Some (Fin ra)"
| "retry_after_of _ = None"

definition is_throttle :: "exc \<Rightarrow> bool" where
  "is_throttle e \<longleftrightarrow> is_RetryableError e \<and> status_code_of e = Some 429"

section \<open>Facts\<close>

lemma is_retryable_status_iff: "is_retryable_status s \<longleftrightarrow> s = 429 \<or> (500 \<le> s \<and> s \<le> 599)"
  by (auto simp: is_retryable_status_def)

lemma is_retryable_exception_client [simp]:
  "is_retryable_exception (RetryableError m s ra)"
  "\<not> is_retryable_exception (NonRetryableError m s b)"
  "\<not> is_retryable_exception (DeadLetterError m s b)"
  "\<not> is_retryable_exception (CircuitOpenError h r)"
  by (simp_all add: is_retryable_exception_def)

end
