(* ===== verification/Dedup.thy ===== *)
theory Dedup
  imports Errors
begin

text \<open>
  \<open>dedup.py\<close>: the in-flight registry. Futures are shared objects, so the registry carries a heap
  of them and its dictionary maps a key to an index. A future is pending, has a result, has an
  exception, or was cancelled (\<open>Task.cancel\<close> on a task that awaits a future cancels that very
  future). Each method runs without awaiting between its dictionary accesses, so each is atomic.
\<close>

datatype 'v future = Pending | Result 'v | Failed exc | Cancelled

record 'v InFlightRegistry =
  r_inflight :: "(string, nat) dict"
  r_futures :: "'v future list"
  dedup_hits :: int
  unique_requests :: int

definition new_InFlightRegistry :: "'v InFlightRegistry" where
  "new_InFlightRegistry = \<lparr>r_inflight = [], r_futures = [], dedup_hits = 0, unique_requests = 0\<rparr>"

definition fut_done :: "'v InFlightRegistry \<Rightarrow> nat \<Rightarrow> bool" where
  "fut_done reg f \<longleftrightarrow> r_futures reg ! f \<noteq> Pending"

definition get_or_create :: "'v InFlightRegistry \<Rightarrow> string \<Rightarrow> (nat \<times> bool) \<times> 'v InFlightRegistry" where
  "get_or_create reg key =
     (let fresh = ((length (r_futures reg), True),
                   reg\<lparr>r_futures := r_futures reg @ [Pending],
                       r_inflight := dset (r_inflight reg) key (length (r_futures reg)),
                       unique_requests := unique_requests reg + 1\<rparr>) in
      case dget (r_inflight reg) key of
        Some existing \<Rightarrow>
          if \<not> fut_done reg existing
          then ((existing, False), reg\<lparr>dedup_hits := dedup_hits reg + 1\<rparr>)
          else fresh
      | None \<Rightarrow> fresh)"

text \<open>The common shape of \<open>resolve\<close> and \<open>fail\<close>: pop the key, then settle a pending future.\<close>

definition settle :: "'v InFlightRegistry \<Rightarrow> string \<Rightarrow> 'v future \<Rightarrow> 'v InFlightRegistry" where
  "settle reg key outcome =
     (let reg' = reg\<lparr>r_inflight := dpop (r_inflight reg) key\<rparr> in
      case dget (r_inflight reg) key of
        Some f \<Rightarrow> if \<not> fut_done reg' f then reg'\<lparr>r_futures := (r_futures reg')[f := outcome]\<rparr> else reg'
      | None \<Rightarrow> reg')"

definition resolve :: "'v InFlightRegistry \<Rightarrow> string \<Rightarrow> 'v \<Rightarrow> 'v InFlightRegistry" where
  "resolve reg key value = settle reg key (Result value)"

definition fail :: "'v InFlightRegistry \<Rightarrow> string \<Rightarrow> exc \<Rightarrow> 'v InFlightRegistry" where
  "fail reg key e = settle reg key (Failed e)"

definition discard :: "'v InFlightRegistry \<Rightarrow> string \<Rightarrow> 'v InFlightRegistry" where
  "discard reg key = reg\<lparr>r_inflight := dpop (r_inflight reg) key\<rparr>"

text \<open>Cancelling a task that awaits future \<open>f\<close>.\<close>

definition cancel_waiter :: "'v InFlightRegistry \<Rightarrow> nat \<Rightarrow> 'v InFlightRegistry" where
  "cancel_waiter reg f =
     (if \<not> fut_done reg f then reg\<lparr>r_futures := (r_futures reg)[f := Cancelled]\<rparr> else reg)"

section \<open>The single-flight interface\<close>

text \<open>The pending future registered for a key.\<close>

definition pending_for :: "'v InFlightRegistry \<Rightarrow> string \<Rightarrow> nat option" where
  "pending_for reg key =
     (case dget (r_inflight reg) key of
        Some f \<Rightarrow> if \<not> fut_done reg f then Some f else None
      | None \<Rightarrow> None)"

definition fut_state :: "'v InFlightRegistry \<Rightarrow> nat \<Rightarrow> 'v future" where
  "fut_state reg f = r_futures reg ! f"

definition reg_ok :: "'v InFlightRegistry \<Rightarrow> bool" where
  "reg_ok reg \<longleftrightarrow> dict_ok (r_inflight reg)
     \<and> (\<forall>k f. dget (r_inflight reg) k = Some f \<longrightarrow> f < length (r_futures reg))
     \<and> (\<forall>k k' f. dget (r_inflight reg) k = Some f \<longrightarrow> dget (r_inflight reg) k' = Some f \<longrightarrow> k = k')"

text \<open>What \<open>resolve\<close> and \<open>fail\<close> deliver to every waiter.\<close>

datatype 'v verdict = Ok 'v | Err exc

definition finish_with :: "'v InFlightRegistry \<Rightarrow> string \<Rightarrow> 'v verdict \<Rightarrow> 'v InFlightRegistry" where
  "finish_with reg key v = (case v of Ok x \<Rightarrow> resolve reg key x | Err e \<Rightarrow> fail reg key e)"

definition verdict_of :: "'v InFlightRegistry \<Rightarrow> nat \<Rightarrow> 'v verdict option" where
  "verdict_of reg f = (case fut_state reg f of Result v \<Rightarrow> Some (Ok v) | Failed e \<Rightarrow> Some (Err e) | _ \<Rightarrow> None)"

text \<open>\<open>n\<close> callers with the same key, in a row.\<close>

fun attach_n :: "('r \<Rightarrow> 'k \<Rightarrow> (nat \<times> bool) \<times> 'r) \<Rightarrow> nat \<Rightarrow> 'r \<Rightarrow> 'k \<Rightarrow> (nat \<times> bool) list \<times> 'r" where
  "attach_n att 0 r k = ([], r)"
| "attach_n att (Suc n) r k =
     (fst (att r k) # fst (attach_n att n (snd (att r k)) k), snd (attach_n att n (snd (att r k)) k))"

locale single_flight =
  fixes attach :: "'r \<Rightarrow> 'k \<Rightarrow> (nat \<times> bool) \<times> 'r"
    and finish :: "'r \<Rightarrow> 'k \<Rightarrow> 'o \<Rightarrow> 'r"
    and pending :: "'r \<Rightarrow> 'k \<Rightarrow> nat option"
    and outcome :: "'r \<Rightarrow> nat \<Rightarrow> 'o option"
    and invar :: "'r \<Rightarrow> bool"
  assumes attach_waiter: "pending r k = Some f \<Longrightarrow>
      fst (attach r k) = (f, False) \<and> pending (snd (attach r k)) = pending r"
    and attach_owner: "invar r \<Longrightarrow> pending r k = None \<Longrightarrow>
      snd (fst (attach r k)) \<and> pending (snd (attach r k)) = (pending r)(k \<mapsto> fst (fst (attach r k)))"
    and finish_pending: "invar r \<Longrightarrow> pending r k = Some f \<Longrightarrow>
      pending (finish r k v) = (pending r)(k := None) \<and> outcome (finish r k v) f = Some v"
    and finish_frame: "invar r \<Longrightarrow> pending r k = Some f \<Longrightarrow> g \<noteq> f \<Longrightarrow>
      outcome (finish r k v) g = outcome r g"
    and invar_attach: "invar r \<Longrightarrow> invar (snd (attach r k))"
    and invar_finish: "invar r \<Longrightarrow> invar (finish r k v)"
begin

lemma attach_n_waiters:
  "pending r k = Some f \<Longrightarrow>
   fst (attach_n attach n r k) = replicate n (f, False) \<and> pending (snd (attach_n attach n r k)) = pending r"
proof (induction n arbitrary: r)
  case (Suc n)
  then show ?case using attach_waiter [OF Suc.prems] Suc.IH [of "snd (attach r k)"] by simp
qed simp

lemma invar_attach_n: "invar r \<Longrightarrow> invar (snd (attach_n attach n r k))"
  by (induction n arbitrary: r) (simp_all add: invar_attach)

lemma collapse:
  assumes "invar r" and "pending r k = None"
  shows "\<exists>f. fst (attach_n attach (Suc n) r k) = (f, True) # replicate n (f, False)
           \<and> outcome (finish (snd (attach_n attach (Suc n) r k)) k v) f = Some v
           \<and> pending (finish (snd (attach_n attach (Suc n) r k)) k v) k = None"
proof -
  let ?r = "snd (attach r k)" and ?f = "fst (fst (attach r k))"
  have own: "snd (fst (attach r k))" and p: "pending ?r k = Some ?f"
    using attach_owner [OF assms] by auto
  have w: "fst (attach_n attach n ?r k) = replicate n (?f, False)"
    "pending (snd (attach_n attach n ?r k)) k = Some ?f"
    using attach_n_waiters [OF p, of n] p by simp_all
  have "invar (snd (attach_n attach n ?r k))" using assms(1) invar_attach invar_attach_n by blast
  from finish_pending [OF this w(2)] own w(1) show ?thesis
    by (intro exI [of _ ?f]) (auto simp: prod_eq_iff)
qed

end

section \<open>Facts\<close>

lemma reg_ok_new: "reg_ok new_InFlightRegistry"
  by (simp add: reg_ok_def new_InFlightRegistry_def)

lemma pending_for_new [simp]: "pending_for new_InFlightRegistry k = None"
  by (simp add: new_InFlightRegistry_def pending_for_def)

lemma dget_valid: "reg_ok reg \<Longrightarrow> dget (r_inflight reg) k = Some f \<Longrightarrow> f < length (r_futures reg)"
  by (simp add: reg_ok_def)

lemma pending_for_hits [simp]: "pending_for (reg\<lparr>dedup_hits := n\<rparr>) = pending_for reg"
  by (auto simp: pending_for_def fun_eq_iff fut_done_def split: option.splits)

lemma get_or_create_hit:
  "pending_for reg key = Some f \<Longrightarrow>
   get_or_create reg key = ((f, False), reg\<lparr>dedup_hits := dedup_hits reg + 1\<rparr>)"
  by (auto simp: pending_for_def get_or_create_def Let_def split: option.splits if_splits)

lemma get_or_create_miss:
  "pending_for reg key = None \<Longrightarrow>
   get_or_create reg key =
     ((length (r_futures reg), True),
      reg\<lparr>r_futures := r_futures reg @ [Pending], r_inflight := dset (r_inflight reg) key (length (r_futures reg)),
          unique_requests := unique_requests reg + 1\<rparr>)"
  by (auto simp: pending_for_def get_or_create_def Let_def split: option.splits if_splits)

lemma reg_ok_get_or_create: "reg_ok reg \<Longrightarrow> reg_ok (snd (get_or_create reg key))"
proof (cases "pending_for reg key")
  case None
  assume ok: "reg_ok reg"
  have fresh: "dget (r_inflight reg) k = Some f \<Longrightarrow> f < length (r_futures reg)" for k f
    using ok by (simp add: reg_ok_def)
  show ?thesis
    using ok None by (auto simp: get_or_create_miss reg_ok_def less_Suc_eq dest: fresh split: if_splits)
qed (simp add: get_or_create_hit reg_ok_def)

lemma reg_ok_settle: "reg_ok reg \<Longrightarrow> reg_ok (settle reg key v)"
  by (auto simp: settle_def reg_ok_def Let_def split: option.splits if_splits)

lemma reg_ok_cancel: "reg_ok reg \<Longrightarrow> reg_ok (cancel_waiter reg f)"
  by (auto simp: cancel_waiter_def reg_ok_def)

lemma pending_for_attach_miss:
  assumes "reg_ok reg" and "pending_for reg key = None"
  shows "pending_for (snd (get_or_create reg key)) = (pending_for reg)(key \<mapsto> length (r_futures reg))"
  using assms(1)
  by (auto simp: get_or_create_miss [OF assms(2)] pending_for_def fut_done_def nth_append fun_eq_iff
      dest: dget_valid split: option.splits)

text \<open>Settling a key wakes its own future only.\<close>

lemma pending_for_settle:
  assumes ok: "reg_ok reg" and "v \<noteq> Pending"
  shows "pending_for (settle reg key v) = (pending_for reg)(key := None)"
proof
  fix k
  have other: "dget (r_inflight reg) k = Some f \<Longrightarrow> dget (r_inflight reg) key = Some g \<Longrightarrow> k \<noteq> key \<Longrightarrow> f \<noteq> g" for f g
    using ok by (auto simp: reg_ok_def)
  show "pending_for (settle reg key v) k = ((pending_for reg)(key := None)) k"
    by (auto simp: settle_def pending_for_def fut_done_def Let_def nth_list_update
        dest: other split: option.splits if_splits)
qed

lemma fut_state_settle:
  assumes "reg_ok reg" and "pending_for reg key = Some f"
  shows "fut_state (settle reg key v) g = (if g = f then v else fut_state reg g)"
proof -
  have "dget (r_inflight reg) key = Some f" "\<not> fut_done reg f"
    using assms(2) by (auto simp: pending_for_def split: option.splits if_splits)
  moreover have "f < length (r_futures reg)" using assms(1) calculation(1) by (rule dget_valid)
  ultimately show ?thesis by (auto simp: settle_def fut_state_def fut_done_def Let_def)
qed

lemma finish_with_settle:
  "finish_with reg key v = settle reg key (case v of Ok x \<Rightarrow> Result x | Err e \<Rightarrow> Failed e)"
  by (simp add: finish_with_def resolve_def fail_def split: verdict.splits)

interpretation ifr: single_flight get_or_create finish_with pending_for verdict_of reg_ok
proof unfold_locales
  fix reg :: "'v InFlightRegistry" and k f
  assume "pending_for reg k = Some f"
  then show "fst (get_or_create reg k) = (f, False) \<and> pending_for (snd (get_or_create reg k)) = pending_for reg"
    by (simp add: get_or_create_hit)
next
  fix reg :: "'v InFlightRegistry" and k
  assume "reg_ok reg" "pending_for reg k = None"
  then show "snd (fst (get_or_create reg k)) \<and>
      pending_for (snd (get_or_create reg k)) = (pending_for reg)(k \<mapsto> fst (fst (get_or_create reg k)))"
    using pending_for_attach_miss [of reg k] get_or_create_miss [of reg k] by simp
next
  fix reg :: "'v InFlightRegistry" and k f v
  assume "reg_ok reg" "pending_for reg k = Some f"
  then show "pending_for (finish_with reg k v) = (pending_for reg)(k := None) \<and>
      verdict_of (finish_with reg k v) f = Some v"
    by (simp add: finish_with_settle pending_for_settle fut_state_settle verdict_of_def split: verdict.splits)
next
  fix reg :: "'v InFlightRegistry" and k f g v
  assume "reg_ok reg" "pending_for reg k = Some f" "g \<noteq> f"
  then show "verdict_of (finish_with reg k v) g = verdict_of reg g"
    by (simp add: finish_with_settle fut_state_settle verdict_of_def)
qed (simp_all add: reg_ok_get_or_create finish_with_settle reg_ok_settle)

section \<open>Properties\<close>

text \<open>C20: However many callers ask for a key that is not in flight, exactly the first becomes the
  owner, all get the same future, and the owner's verdict is what that future holds; the key is
  then free again.\<close>

theorem single_flight_collapse:
  assumes "reg_ok reg" and "pending_for reg key = None"
  shows "\<exists>f. fst (attach_n get_or_create (Suc n) reg key) = (f, True) # replicate n (f, False)
     \<and> verdict_of (finish_with (snd (attach_n get_or_create (Suc n) reg key)) key v) f = Some v
     \<and> pending_for (finish_with (snd (attach_n get_or_create (Suc n) reg key)) key v) key = None"
  by (rule ifr.collapse [OF assms])

theorem single_flight_collapse_witness:
  "\<exists>f. fst (attach_n get_or_create 4 (new_InFlightRegistry :: int InFlightRegistry) ''k'') =
     (f, True) # replicate 3 (f, False)"
  using single_flight_collapse [of "new_InFlightRegistry :: int InFlightRegistry" "''k''" 3 "Ok 7"]
  by (auto simp: reg_ok_new pending_for_new)

end
