(* ===== verification/Storage.thy ===== *)
theory Storage
  imports Models
begin

text \<open>
  \<open>storage.py\<close>: the two SQLite tables and the statements on them. A database is the rows of each
  table in insertion order plus the AUTOINCREMENT counter of \<open>dead_letter_queue\<close>; every write
  commits under \<open>_write_lock\<close>, so each operation is one atomic step on the database. The clock
  reading \<open>_now()\<close> is an argument. Without an open connection every operation raises the
  \<open>RuntimeError\<close> of the \<open>conn\<close> property. Rows that compare equal in an ORDER BY are listed in
  insertion order (SQLite leaves their order open; no property depends on it).
\<close>

section \<open>Tables\<close>

definition STATUS_PENDING :: string where "STATUS_PENDING = ''pending''"

definition STATUS_IN_PROGRESS :: string where "STATUS_IN_PROGRESS = ''in_progress''"

record inflight_rec =
  i_key :: string
  i_request_id :: string
  i_payload :: string
  i_status :: string
  i_retry_count :: int
  i_last_error :: "string option"
  i_created_at :: real
  i_updated_at :: real

record dlq_rec =
  d_id :: int
  d_key :: string
  d_request_id :: string
  d_payload :: string
  d_error :: string
  d_retry_count :: int
  d_first_seen :: real
  d_last_attempt :: real

record database =
  inflight_requests :: "inflight_rec list"
  dead_letter_queue :: "dlq_rec list"
  dlq_seq :: int

definition empty_db :: database where
  "empty_db = \<lparr>inflight_requests = [], dead_letter_queue = [], dlq_seq = 0\<rparr>"

text \<open>The rows as the program sees them, with the payload decoded.\<close>

record InflightRow =
  ir_idempotency_key :: string
  ir_request_id :: string
  ir_request :: Request
  ir_status :: string
  ir_retry_count :: int
  ir_last_error :: "string option"
  ir_created_at :: real
  ir_updated_at :: real

record DeadLetterRow =
  dl_id :: int
  dl_idempotency_key :: string
  dl_request_id :: string
  dl_request :: Request
  dl_error :: string
  dl_retry_count :: int
  dl_first_seen :: real
  dl_last_attempt :: real

text \<open>The wrapper: the path, the file contents (which outlive a connection), the connection.\<close>

record Storage =
  st_path :: string
  st_db :: database
  st_open :: bool

section \<open>Connection\<close>

text \<open>\<open>:memory:\<close> names a fresh private database on every connection.\<close>

definition st_open_conn :: "Storage \<Rightarrow> Storage" where
  "st_open_conn s =
     (if st_open s then s
      else s\<lparr>st_open := True, st_db := (if st_path s = '':memory:'' then empty_db else st_db s)\<rparr>)"

definition st_close :: "Storage \<Rightarrow> Storage" where
  "st_close s = (if st_open s then s\<lparr>st_open := False\<rparr> else s)"

definition not_open :: "'a res" where
  "not_open = Inl (RuntimeError ''Storage not opened'')"

text \<open>Run a statement on the database of an open connection.\<close>

definition run_sql :: "(database \<Rightarrow> 'a \<times> database) \<Rightarrow> Storage \<Rightarrow> ('a \<times> Storage) res" where
  "run_sql f s =
     (if \<not> st_open s then not_open
      else let (x, db) = f (st_db s) in Inr (x, s\<lparr>st_db := db\<rparr>))"

section \<open>The statements on inflight_requests\<close>

definition find_inflight :: "database \<Rightarrow> string \<Rightarrow> inflight_rec option" where
  "find_inflight db key = find (\<lambda>r. i_key r = key) (inflight_requests db)"

text \<open>INSERT .. ON CONFLICT(idempotency_key) DO UPDATE.\<close>

definition sql_upsert :: "inflight_rec \<Rightarrow> database \<Rightarrow> database" where
  "sql_upsert row db =
     db\<lparr>inflight_requests :=
        (if \<exists>r \<in> set (inflight_requests db). i_key r = i_key row
         then map (\<lambda>r. if i_key r = i_key row
                       then r\<lparr>i_status := i_status row, i_retry_count := i_retry_count row,
                              i_last_error := i_last_error row, i_updated_at := i_updated_at row\<rparr>
                       else r) (inflight_requests db)
         else inflight_requests db @ [row])\<rparr>"

definition sql_update_inflight :: "string \<Rightarrow> (inflight_rec \<Rightarrow> inflight_rec) \<Rightarrow> database \<Rightarrow> database" where
  "sql_update_inflight key f db =
     db\<lparr>inflight_requests := map (\<lambda>r. if i_key r = key then f r else r) (inflight_requests db)\<rparr>"

definition sql_delete_inflight :: "string \<Rightarrow> database \<Rightarrow> database" where
  "sql_delete_inflight key db = db\<lparr>inflight_requests := filter (\<lambda>r. i_key r \<noteq> key) (inflight_requests db)\<rparr>"

section \<open>The operations on inflight_requests\<close>

definition upsert_inflight ::
  "Request \<Rightarrow> string \<Rightarrow> int \<Rightarrow> string option \<Rightarrow> real \<Rightarrow> Storage \<Rightarrow> (unit \<times> Storage) res" where
  "upsert_inflight request status retry_count last_error now s =
     (case request_payload request of
        Inl e \<Rightarrow> Inl e
      | Inr payload \<Rightarrow>
          run_sql (\<lambda>db. ((), sql_upsert
            \<lparr>i_key = idempotency_key request, i_request_id = req_request_id request, i_payload = payload,
             i_status = status, i_retry_count = retry_count, i_last_error = last_error,
             i_created_at = now, i_updated_at = now\<rparr> db)) s)"

definition mark_inflight_status ::
  "string \<Rightarrow> string \<Rightarrow> string option \<Rightarrow> real \<Rightarrow> Storage \<Rightarrow> (unit \<times> Storage) res" where
  "mark_inflight_status key status last_error now s =
     run_sql (\<lambda>db. ((), sql_update_inflight key
       (\<lambda>r. r\<lparr>i_status := status,
              i_last_error := (case last_error of Some e \<Rightarrow> Some e | None \<Rightarrow> i_last_error r),
              i_updated_at := now\<rparr>) db)) s"

definition increment_retry :: "string \<Rightarrow> string \<Rightarrow> real \<Rightarrow> Storage \<Rightarrow> (int \<times> Storage) res" where
  "increment_retry key last_error now s =
     run_sql (\<lambda>db.
       (let db' = sql_update_inflight key
              (\<lambda>r. r\<lparr>i_retry_count := i_retry_count r + 1, i_status := STATUS_PENDING,
                     i_last_error := Some last_error, i_updated_at := now\<rparr>) db in
        (case find_inflight db' key of Some r \<Rightarrow> i_retry_count r | None \<Rightarrow> 0, db'))) s"

definition delete_inflight :: "string \<Rightarrow> Storage \<Rightarrow> (unit \<times> Storage) res" where
  "delete_inflight key s = run_sql (\<lambda>db. ((), sql_delete_inflight key db)) s"

text \<open>
  Decoding a row for \<open>list_inflight\<close>; the identifier and time that \<open>from_storage\<close> would use for
  missing fields are the arguments \<open>fid\<close> and \<open>t\<close>.
\<close>

definition decode_inflight :: "string \<Rightarrow> string \<Rightarrow> inflight_rec \<Rightarrow> InflightRow res" where
  "decode_inflight fid t r =
     (case parse_payload fid t (i_payload r) of
        Inl e \<Rightarrow> Inl e
      | Inr req \<Rightarrow>
          Inr \<lparr>ir_idempotency_key = i_key r, ir_request_id = i_request_id r, ir_request = req,
               ir_status = i_status r, ir_retry_count = i_retry_count r, ir_last_error = i_last_error r,
               ir_created_at = i_created_at r, ir_updated_at = i_updated_at r\<rparr>)"

definition list_inflight :: "string \<Rightarrow> string \<Rightarrow> Storage \<Rightarrow> InflightRow list res" where
  "list_inflight fid t s =
     (if \<not> st_open s then not_open
      else collect (map (decode_inflight fid t) (sort_key i_created_at (inflight_requests (st_db s)))))"

section \<open>The operations on dead_letter_queue\<close>

definition sql_insert_dlq :: "(int \<Rightarrow> dlq_rec) \<Rightarrow> database \<Rightarrow> int \<times> database" where
  "sql_insert_dlq mk db =
     (let i = dlq_seq db + 1 in
      (i, db\<lparr>dead_letter_queue := dead_letter_queue db @ [mk i], dlq_seq := i\<rparr>))"

definition push_dead_letter ::
  "Request \<Rightarrow> string \<Rightarrow> int \<Rightarrow> real \<Rightarrow> Storage \<Rightarrow> (int \<times> Storage) res" where
  "push_dead_letter request error retry_count now s =
     (case request_payload request of
        Inl e \<Rightarrow> Inl e
      | Inr payload \<Rightarrow>
          run_sql (sql_insert_dlq (\<lambda>i.
            \<lparr>d_id = i, d_key = idempotency_key request, d_request_id = req_request_id request,
             d_payload = payload, d_error = error, d_retry_count = retry_count,
             d_first_seen = now, d_last_attempt = now\<rparr>)) s)"

definition decode_dlq :: "string \<Rightarrow> string \<Rightarrow> dlq_rec \<Rightarrow> DeadLetterRow res" where
  "decode_dlq fid t r =
     (case parse_payload fid t (d_payload r) of
        Inl e \<Rightarrow> Inl e
      | Inr req \<Rightarrow>
          Inr \<lparr>dl_id = d_id r, dl_idempotency_key = d_key r, dl_request_id = d_request_id r,
               dl_request = req, dl_error = d_error r, dl_retry_count = d_retry_count r,
               dl_first_seen = d_first_seen r, dl_last_attempt = d_last_attempt r\<rparr>)"

text \<open>LIMIT: a negative limit is no limit.\<close>

definition sql_limit :: "int \<Rightarrow> 'a list \<Rightarrow> 'a list" where
  "sql_limit n xs = (if n < 0 then xs else take (nat n) xs)"

definition list_dead_letter :: "string \<Rightarrow> string \<Rightarrow> int \<Rightarrow> Storage \<Rightarrow> DeadLetterRow list res" where
  "list_dead_letter fid t limit s =
     (if \<not> st_open s then not_open
      else collect (map (decode_dlq fid t)
             (sql_limit limit (sort_key (\<lambda>r. - d_last_attempt r) (dead_letter_queue (st_db s))))))"

definition remove_dead_letter :: "int \<Rightarrow> Storage \<Rightarrow> (unit \<times> Storage) res" where
  "remove_dead_letter dlq_id s =
     run_sql (\<lambda>db. ((), db\<lparr>dead_letter_queue := filter (\<lambda>r. d_id r \<noteq> dlq_id) (dead_letter_queue db)\<rparr>)) s"

definition purge_dead_letter :: "Storage \<Rightarrow> (int \<times> Storage) res" where
  "purge_dead_letter s =
     run_sql (\<lambda>db. (int (length (dead_letter_queue db)), db\<lparr>dead_letter_queue := []\<rparr>)) s"

section \<open>Invariant\<close>

text \<open>The primary key is unique and identifiers are unique and at most the counter.\<close>

definition db_ok :: "database \<Rightarrow> bool" where
  "db_ok db \<longleftrightarrow> distinct (map i_key (inflight_requests db))
     \<and> distinct (map d_id (dead_letter_queue db))
     \<and> 0 \<le> dlq_seq db
     \<and> (\<forall>r \<in> set (dead_letter_queue db). 0 < d_id r \<and> d_id r \<le> dlq_seq db)"

text \<open>The persisted retry count of a key, if it has a row.\<close>

definition row_count :: "database \<Rightarrow> string \<Rightarrow> int option" where
  "row_count db key = map_option i_retry_count (find_inflight db key)"

section \<open>The work-log interface\<close>

text \<open>
  What the orchestrator relies on: a key persisted is present with the count given, a bump adds
  one to the count of that key only, a drop removes that key only.
\<close>

locale work_log =
  fixes count :: "'s \<Rightarrow> 'k \<Rightarrow> int option"
    and persist :: "'k \<Rightarrow> int \<Rightarrow> 's \<Rightarrow> 's \<Rightarrow> bool"
    and bump :: "'k \<Rightarrow> 's \<Rightarrow> 's \<Rightarrow> bool"
    and drop_key :: "'k \<Rightarrow> 's \<Rightarrow> 's \<Rightarrow> bool"
  assumes persist_count: "persist k n s s' \<Longrightarrow> count s' = (count s)(k \<mapsto> n)"
    and bump_count: "bump k s s' \<Longrightarrow> count s' = (count s)(k := map_option (\<lambda>n. n + 1) (count s k))"
    and drop_count: "drop_key k s s' \<Longrightarrow> count s' = (count s)(k := None)"
begin

lemma persist_then_drop: "persist k n s s1 \<Longrightarrow> drop_key k s1 s2 \<Longrightarrow> count s2 = (count s)(k := None)"
  by (auto simp: persist_count drop_count)

lemma persist_then_bump: "persist k n s s1 \<Longrightarrow> bump k s1 s2 \<Longrightarrow> count s2 = (count s)(k \<mapsto> n + 1)"
  by (auto simp: persist_count bump_count)

lemma bump_steps: "(bump k)\<^sup>*\<^sup>* s s' \<Longrightarrow> count s k = Some n \<Longrightarrow> \<exists>m \<ge> n. count s' k = Some m \<and> (\<forall>k'. k' \<noteq> k \<longrightarrow> count s' k' = count s k')"
proof (induction rule: rtranclp_induct)
  case (step t u)
  then obtain m where "m \<ge> n" "count t k = Some m" "\<forall>k'. k' \<noteq> k \<longrightarrow> count t k' = count s k'" by blast
  with bump_count [OF step.hyps(2)] show ?case by (intro exI [of _ "m + 1"]) auto
qed auto

end

section \<open>Facts\<close>

lemma run_sql_Inr:
  "run_sql f s = Inr (x, s') \<longleftrightarrow> st_open s \<and> x = fst (f (st_db s)) \<and> s' = s\<lparr>st_db := snd (f (st_db s))\<rparr>"
  by (auto simp: run_sql_def not_open_def split: prod.splits)

lemma find_map_upd:
  "(\<And>r. i_key (f r) = i_key r) \<Longrightarrow>
   find (\<lambda>r. i_key r = k) (map (\<lambda>r. if i_key r = key then f r else r) rs) =
     (if k = key then map_option f (find (\<lambda>r. i_key r = k) rs) else find (\<lambda>r. i_key r = k) rs)"
  by (induction rs) auto

lemma find_append: "find P (xs @ ys) = (case find P xs of Some x \<Rightarrow> Some x | None \<Rightarrow> find P ys)"
  by (induction xs) auto

lemma find_filter_key:
  "find (\<lambda>r. i_key r = k) (filter (\<lambda>r. i_key r \<noteq> key) rs) = (if k = key then None else find (\<lambda>r. i_key r = k) rs)"
  by (induction rs) auto

lemma find_inflight_upsert:
  "find_inflight (sql_upsert row db) k =
     (if k = i_key row
      then Some (case find_inflight db k of
                   None \<Rightarrow> row
                 | Some r \<Rightarrow> r\<lparr>i_status := i_status row, i_retry_count := i_retry_count row,
                                i_last_error := i_last_error row, i_updated_at := i_updated_at row\<rparr>)
      else find_inflight db k)"
proof (cases "\<exists>r \<in> set (inflight_requests db). i_key r = i_key row")
  case True
  then have "\<exists>r. find (\<lambda>r. i_key r = i_key row) (inflight_requests db) = Some r"
    by (metis (mono_tags, lifting) find_None_iff not_Some_eq)
  with True show ?thesis by (auto simp: find_inflight_def sql_upsert_def find_map_upd)
next
  case False
  then have "find (\<lambda>r. i_key r = i_key row) (inflight_requests db) = None"
    by (simp add: find_None_iff)
  with False show ?thesis
    by (auto simp: find_inflight_def sql_upsert_def find_append split: option.splits)
qed

lemma find_inflight_update:
  "(\<And>r. i_key (f r) = i_key r) \<Longrightarrow>
   find_inflight (sql_update_inflight key f db) k =
     (if k = key then map_option f (find_inflight db k) else find_inflight db k)"
  by (simp add: find_inflight_def sql_update_inflight_def find_map_upd)

lemma find_inflight_delete:
  "find_inflight (sql_delete_inflight key db) k = (if k = key then None else find_inflight db k)"
  by (simp add: find_inflight_def sql_delete_inflight_def find_filter_key)

lemma row_count_upsert: "row_count (sql_upsert row db) = (row_count db)(i_key row \<mapsto> i_retry_count row)"
  by (auto simp: row_count_def find_inflight_upsert fun_eq_iff split: option.splits)

lemma row_count_delete: "row_count (sql_delete_inflight key db) = (row_count db)(key := None)"
  by (simp add: row_count_def find_inflight_delete fun_eq_iff)

lemma row_count_update:
  "(\<And>r. i_key (f r) = i_key r) \<Longrightarrow> (\<And>r. i_retry_count (f r) = g (i_retry_count r)) \<Longrightarrow>
   row_count (sql_update_inflight key f db) = (row_count db)(key := map_option g (row_count db key))"
  by (auto simp: row_count_def find_inflight_update fun_eq_iff option.map_comp comp_def)

lemma upsert_inflight_Inr:
  assumes "upsert_inflight req st n err now s = Inr (u, s')"
  shows "st_open s \<and> s' = s\<lparr>st_db := st_db s'\<rparr>
     \<and> row_count (st_db s') = (row_count (st_db s))(idempotency_key req \<mapsto> n)"
  using assms by (auto simp: upsert_inflight_def run_sql_Inr row_count_upsert split: sum.splits)

lemma increment_retry_Inr:
  assumes "increment_retry key err now s = Inr (n, s')"
  shows "st_open s \<and> s' = s\<lparr>st_db := st_db s'\<rparr>
     \<and> row_count (st_db s') = (row_count (st_db s))(key := map_option (\<lambda>n. n + 1) (row_count (st_db s) key))
     \<and> n = (case row_count (st_db s) key of Some m \<Rightarrow> m + 1 | None \<Rightarrow> 0)"
proof -
  let ?f = "\<lambda>r. r\<lparr>i_retry_count := i_retry_count r + 1, i_status := STATUS_PENDING,
                    i_last_error := Some err, i_updated_at := now\<rparr>"
  have rc: "row_count (sql_update_inflight key ?f db) = (row_count db)(key := map_option (\<lambda>n. n + 1) (row_count db key))" for db
    by (rule row_count_update) auto
  have fi: "find_inflight (sql_update_inflight key ?f db) key = map_option ?f (find_inflight db key)" for db
    by (subst find_inflight_update) auto
  show ?thesis
    using assms
    by (auto simp: increment_retry_def run_sql_Inr Let_def rc fi)
       (auto simp: row_count_def split: option.splits)
qed

lemma delete_inflight_Inr:
  assumes "delete_inflight key s = Inr (u, s')"
  shows "st_open s \<and> s' = s\<lparr>st_db := st_db s'\<rparr> \<and> row_count (st_db s') = (row_count (st_db s))(key := None)"
  using assms by (auto simp: delete_inflight_def run_sql_Inr row_count_delete)

interpretation wal: work_log
  "\<lambda>s. row_count (st_db s)"
  "\<lambda>k n s s'. \<exists>req st err now u. idempotency_key req = k \<and> upsert_inflight req st n err now s = Inr (u, s')"
  "\<lambda>k s s'. \<exists>err now n. increment_retry k err now s = Inr (n, s')"
  "\<lambda>k s s'. \<exists>u. delete_inflight k s = Inr (u, s')"
  by unfold_locales (auto dest!: upsert_inflight_Inr increment_retry_Inr delete_inflight_Inr)

text \<open>The laws of the log on the storage operations themselves.\<close>

lemma persisted_count:
  "upsert_inflight req st n err now s = Inr (u, s') \<Longrightarrow>
   row_count (st_db s') = (row_count (st_db s))(idempotency_key req \<mapsto> n)"
  by (rule wal.persist_count) blast

lemma bumped_count:
  "increment_retry key err now s = Inr (n, s') \<Longrightarrow>
   row_count (st_db s') = (row_count (st_db s))(key := map_option (\<lambda>n. n + 1) (row_count (st_db s) key))"
  by (rule wal.bump_count) blast

lemma dropped_count:
  "delete_inflight key s = Inr (u, s') \<Longrightarrow> row_count (st_db s') = (row_count (st_db s))(key := None)"
  by (rule wal.drop_count) blast

end
