(* ===== verification/Config.thy ===== *)
theory Config
  imports Prelude
begin

text \<open>
  The configuration dataclasses of \<open>config.py\<close> with their defaults. They are frozen in the
  source; here they are immutable records. The rolling window is a natural number: \<open>deque\<close> refuses a
  negative length when a breaker is created.
\<close>

record RateLimitConfig =
  rate_per_second :: real
  burst :: int

record CircuitBreakerConfig =
  failure_threshold :: int
  failure_rate :: real
  rolling_window :: nat
  open_seconds :: real
  half_open_max_probes :: int

record RetryPolicy =
  max_retries :: int
  base_delay :: real
  max_delay :: real
  jitter :: bool

record QueueConfig =
  max_size :: int
  worker_count :: nat

record ClientConfig =
  db_path :: string
  request_timeout :: real
  rate_limit :: RateLimitConfig
  circuit_breaker :: CircuitBreakerConfig
  retry :: RetryPolicy
  queue_cfg :: QueueConfig
  user_agent :: string

definition default_RateLimitConfig :: RateLimitConfig where
  "default_RateLimitConfig = \<lparr>rate_per_second = 10, burst = 20\<rparr>"

definition default_CircuitBreakerConfig :: CircuitBreakerConfig where
  "default_CircuitBreakerConfig =
     \<lparr>failure_threshold = 5, failure_rate = 1 / 2, rolling_window = 20, open_seconds = 30,
      half_open_max_probes = 1\<rparr>"

definition default_RetryPolicy :: RetryPolicy where
  "default_RetryPolicy = \<lparr>max_retries = 5, base_delay = 1 / 4, max_delay = 30, jitter = True\<rparr>"

definition default_QueueConfig :: QueueConfig where
  "default_QueueConfig = \<lparr>max_size = 1000, worker_count = 16\<rparr>"

definition default_ClientConfig :: ClientConfig where
  "default_ClientConfig =
     \<lparr>db_path = ''ahc_state.db'', request_timeout = 15, rate_limit = default_RateLimitConfig,
      circuit_breaker = default_CircuitBreakerConfig, retry = default_RetryPolicy,
      queue_cfg = default_QueueConfig, user_agent = ''async-hardened-client/0.1''\<rparr>"

end
