(* ===== verification/Py_Url.thy ===== *)
theory Py_Url
  imports Py_Text
begin

text \<open>
  \<open>urllib.parse.urlparse\<close> as far as \<open>host_of\<close> uses it: the network location of a URL, with the
  \<open>ValueError\<close> that unbalanced brackets raise. The extra validation of the text between
  balanced brackets by recent Python versions is not modelled.
\<close>

definition is_alpha :: "char \<Rightarrow> bool" where
  "is_alpha c \<longleftrightarrow> (65 \<le> code c \<and> code c \<le> 90) \<or> (97 \<le> code c \<and> code c \<le> 122)"

definition scheme_char :: "char \<Rightarrow> bool" where
  "scheme_char c \<longleftrightarrow> is_alpha c \<or> is_digit c \<or> c \<in> set ''+-.''"

text \<open>Leading controls and spaces are stripped; tabs and line breaks are removed everywhere.\<close>

definition clean_url :: "string \<Rightarrow> string" where
  "clean_url u = filter (\<lambda>c. code c \<notin> {9, 10, 13}) (dropWhile (\<lambda>c. code c \<le> 32) u)"

definition strip_scheme :: "string \<Rightarrow> string" where
  "strip_scheme u =
     (let s = takeWhile (\<lambda>c. c \<noteq> CHR '':'') u in
      if s \<noteq> [] \<and> length s < length u \<and> is_alpha (hd s) \<and> list_all scheme_char s
      then drop (length s + 1) u else u)"

definition netloc_delim :: "char \<Rightarrow> bool" where
  "netloc_delim c \<longleftrightarrow> c \<in> set ''/?#''"

definition netloc_text :: "string \<Rightarrow> string" where
  "netloc_text u =
     (let r = strip_scheme (clean_url u) in
      if take 2 r = ''//'' then takeWhile (\<lambda>c. \<not> netloc_delim c) (drop 2 r) else [])"

definition netloc :: "string \<Rightarrow> string res" where
  "netloc u =
     (let n = netloc_text u in
      if (CHR ''['' \<in> set n) \<noteq> (CHR '']'' \<in> set n) then Inl (ValueError ''Invalid IPv6 URL'')
      else Inr n)"

text \<open>\<open>HostRateLimiter.host_of\<close> and \<open>HostCircuitBreakers.host_of\<close>, which are the same function.\<close>

definition host_of :: "string \<Rightarrow> string res" where
  "host_of url =
     (case netloc url of
        Inl e \<Rightarrow> Inl e
      | Inr n \<Rightarrow> Inr (if lower n \<noteq> [] then lower n else url))"

section \<open>Facts\<close>

definition plain_host :: "string \<Rightarrow> bool" where
  "plain_host h \<longleftrightarrow> h \<noteq> [] \<and> (\<forall>c \<in> set h. \<not> netloc_delim c \<and> 32 < code c \<and> c \<notin> set ''[]'')"

definition plain_text :: "string \<Rightarrow> bool" where
  "plain_text p \<longleftrightarrow> (\<forall>c \<in> set p. code c \<notin> {9, 10, 13})"

lemma plain_host_clean: "plain_host h \<Longrightarrow> filter (\<lambda>c. code c \<notin> {9, 10, 13}) h = h"
proof (rule filter_cong_set)
  fix c assume "plain_host h" "c \<in> set h"
  then have "32 < code c" by (simp add: plain_host_def)
  then show "code c \<notin> {9, 10, 13}" by auto
qed

lemma netloc_text_https:
  assumes "plain_host h" and "plain_text p" and "p = [] \<or> netloc_delim (hd p)"
  shows "netloc_text (''https://'' @ h @ p) = h"
proof -
  have "clean_url (''https://'' @ h @ p) = ''https://'' @ h @ p"
    using assms plain_host_clean [OF assms(1)]
    by (simp add: clean_url_def code_def filter_id_conv plain_text_def)
  moreover have "strip_scheme (''https://'' @ h @ p) = ''//'' @ h @ p"
    by (simp add: strip_scheme_def Let_def is_alpha_def code_def scheme_char_def)
  moreover have "takeWhile (\<lambda>c. \<not> netloc_delim c) (h @ p) = h"
    using assms by (cases p) (auto simp: plain_host_def takeWhile_append)
  ultimately show ?thesis by (simp add: netloc_text_def)
qed

lemma host_of_https:
  assumes "plain_host h" and "plain_text p" and "p = [] \<or> netloc_delim (hd p)"
  shows "host_of (''https://'' @ h @ p) = Inr (lower h)"
proof -
  have "CHR ''['' \<notin> set h" "CHR '']'' \<notin> set h" "h \<noteq> []"
    using assms(1) by (auto simp: plain_host_def)
  then show ?thesis
    unfolding host_of_def netloc_def Let_def netloc_text_https [OF assms]
    by (simp add: lower_def)
qed

end
