(* ===== verification/Circuit_Breaker.thy ===== *)
theory Circuit_Breaker
  imports Config Errors Py_Url
begin

text \<open>
  \<open>circuit_breaker.py\<close>: the per-host breaker and its registry. Every method body runs under the
  breaker's lock without awaiting, so each is one atomic operation; the clock reading is an
  argument. \<open>before_call\<close> returns the exception it raises, if any, beside the new state,
  because the state it leaves behind on a rejection matters.
\<close>

datatype CircuitState = CLOSED | OPEN | HALF_OPEN

fun state_value :: "CircuitState \<Rightarrow> string" where
  "state_value CLOSED = ''closed''"
| "state_value OPEN = ''open''"
| "state_value HALF_OPEN = ''half_open''"

record CircuitBreaker =
  cb_host :: string
  cb_cfg :: CircuitBreakerConfig
  cb_state :: CircuitState
  cb_consecutive_failures :: int
  cb_opened_at :: real
  cb_inflight_probes :: int
  cb_outcomes :: "bool list"

definition new_CircuitBreaker :: "string \<Rightarrow> CircuitBreakerConfig \<Rightarrow> CircuitBreaker" where
  "new_CircuitBreaker host cfg =
     \<lparr>cb_host = host, cb_cfg = cfg, cb_state = CLOSED, cb_consecutive_failures = 0, cb_opened_at = 0,
      cb_inflight_probes = 0, cb_outcomes = []\<rparr>"

text \<open>\<open>append\<close> on a \<open>deque(maxlen=n)\<close>: the oldest entries fall off.\<close>

definition deque_append :: "nat \<Rightarrow> 'a list \<Rightarrow> 'a \<Rightarrow> 'a list" where
  "deque_append n xs x = drop (Suc (length xs) - n) (xs @ [x])"

definition failure_rate_of :: "bool list \<Rightarrow> real" where
  "failure_rate_of os =
     (if os = [] then 0
      else (let failures = length (filter (\<lambda>ok. \<not> ok) os) in real failures / real (length os)))"

definition open_now :: "real \<Rightarrow> CircuitBreaker \<Rightarrow> CircuitBreaker" where
  "open_now now cb = cb\<lparr>cb_state := OPEN, cb_opened_at := now, cb_inflight_probes := 0\<rparr>"

text \<open>The second half of \<open>before_call\<close>: take a probe slot when half open.\<close>

definition take_probe :: "CircuitBreaker \<Rightarrow> exc option \<times> CircuitBreaker" where
  "take_probe cb =
     (if cb_state cb = HALF_OPEN then
        if cb_inflight_probes cb \<ge> half_open_max_probes (cb_cfg cb)
        then (Some (CircuitOpenError (cb_host cb) 0), cb)
        else (None, cb\<lparr>cb_inflight_probes := cb_inflight_probes cb + 1\<rparr>)
      else (None, cb))"

definition before_call :: "real \<Rightarrow> CircuitBreaker \<Rightarrow> exc option \<times> CircuitBreaker" where
  "before_call now cb =
     (if cb_state cb = OPEN then
        if now - cb_opened_at cb \<ge> open_seconds (cb_cfg cb)
        then take_probe (cb\<lparr>cb_state := HALF_OPEN, cb_inflight_probes := 0\<rparr>)
        else (Some (CircuitOpenError (cb_host cb) (open_seconds (cb_cfg cb) - (now - cb_opened_at cb))), cb)
      else take_probe cb)"

definition on_success :: "CircuitBreaker \<Rightarrow> CircuitBreaker" where
  "on_success cb0 =
     (let cb = cb0\<lparr>cb_consecutive_failures := 0,
                   cb_outcomes := deque_append (rolling_window (cb_cfg cb0)) (cb_outcomes cb0) True\<rparr> in
      if cb_state cb = HALF_OPEN
      then cb\<lparr>cb_state := CLOSED, cb_inflight_probes := 0, cb_outcomes := []\<rparr>
      else cb)"

definition on_failure :: "real \<Rightarrow> CircuitBreaker \<Rightarrow> CircuitBreaker" where
  "on_failure now cb0 =
     (let cb = cb0\<lparr>cb_consecutive_failures := cb_consecutive_failures cb0 + 1,
                   cb_outcomes := deque_append (rolling_window (cb_cfg cb0)) (cb_outcomes cb0) False\<rparr> in
      if cb_state cb = HALF_OPEN then open_now now cb
      else if cb_state cb = CLOSED then
        if cb_consecutive_failures cb \<ge> failure_threshold (cb_cfg cb) then open_now now cb
        else if length (cb_outcomes cb) = rolling_window (cb_cfg cb)
                \<and> failure_rate_of (cb_outcomes cb) \<ge> failure_rate (cb_cfg cb)
        then open_now now cb
        else cb
      else cb)"

section \<open>HostCircuitBreakers\<close>

record HostCircuitBreakers =
  h_cfg :: CircuitBreakerConfig
  h_breakers :: "(string, CircuitBreaker) dict"

definition new_HostCircuitBreakers :: "CircuitBreakerConfig \<Rightarrow> HostCircuitBreakers" where
  "new_HostCircuitBreakers cfg = \<lparr>h_cfg = cfg, h_breakers = []\<rparr>"

text \<open>
  \<open>for_url\<close> returns the host, which names the breaker object: breakers are never removed from
  the registry, so the entry of the host is the object the caller holds.
\<close>

definition for_url :: "string \<Rightarrow> HostCircuitBreakers \<Rightarrow> (string \<times> HostCircuitBreakers) res" where
  "for_url url reg =
     (case host_of url of
        Inl e \<Rightarrow> Inl e
      | Inr host \<Rightarrow>
          (case dget (h_breakers reg) host of
             Some _ \<Rightarrow> Inr (host, reg)
           | None \<Rightarrow>
               Inr (host, reg\<lparr>h_breakers := dset (h_breakers reg) host (new_CircuitBreaker host (h_cfg reg))\<rparr>)))"

definition breaker_at :: "HostCircuitBreakers \<Rightarrow> string \<Rightarrow> CircuitBreaker" where
  "breaker_at reg host =
     (case dget (h_breakers reg) host of Some cb \<Rightarrow> cb | None \<Rightarrow> new_CircuitBreaker host (h_cfg reg))"

definition update_breaker ::
  "string \<Rightarrow> (CircuitBreaker \<Rightarrow> CircuitBreaker) \<Rightarrow> HostCircuitBreakers \<Rightarrow> HostCircuitBreakers" where
  "update_breaker host f reg = reg\<lparr>h_breakers := dset (h_breakers reg) host (f (breaker_at reg host))\<rparr>"

definition breakers_snapshot :: "HostCircuitBreakers \<Rightarrow> (string, CircuitState) dict" where
  "breakers_snapshot reg = map (\<lambda>(host, br). (host, cb_state br)) (h_breakers reg)"

section \<open>The breaker as a machine\<close>

text \<open>One atomic operation on a breaker, by any coroutine in any order.\<close>

datatype cb_event = Call real | Success | Failure real

fun cb_apply :: "cb_event \<Rightarrow> CircuitBreaker \<Rightarrow> CircuitBreaker" where
  "cb_apply (Call now) cb = snd (before_call now cb)"
| "cb_apply Success cb = on_success cb"
| "cb_apply (Failure now) cb = on_failure now cb"

definition cb_run :: "cb_event list \<Rightarrow> CircuitBreaker \<Rightarrow> CircuitBreaker" where
  "cb_run es cb = fold cb_apply es cb"

definition cb_ok :: "CircuitBreaker \<Rightarrow> bool" where
  "cb_ok cb \<longleftrightarrow>
     length (cb_outcomes cb) \<le> rolling_window (cb_cfg cb) \<and>
     0 \<le> cb_consecutive_failures cb \<and>
     (cb_state cb = HALF_OPEN \<longrightarrow>
        0 \<le> cb_inflight_probes cb \<and> cb_inflight_probes cb \<le> max 0 (half_open_max_probes (cb_cfg cb))) \<and>
     (cb_state cb \<noteq> HALF_OPEN \<longrightarrow> cb_inflight_probes cb = 0) \<and>
     (cb_state cb = CLOSED \<longrightarrow> 0 < failure_threshold (cb_cfg cb) \<longrightarrow>
        cb_consecutive_failures cb < failure_threshold (cb_cfg cb))"

text \<open>The edges of the state diagram, with what triggers each.\<close>

inductive cb_edge :: "cb_event \<Rightarrow> CircuitState \<Rightarrow> CircuitState \<Rightarrow> bool" where
  stay: "cb_edge e s s"
| trip: "cb_edge (Failure now) CLOSED OPEN"
| cool_down: "cb_edge (Call now) OPEN HALF_OPEN"
| probe_ok: "cb_edge Success HALF_OPEN CLOSED"
| probe_bad: "cb_edge (Failure now) HALF_OPEN OPEN"

inductive_cases cb_edge_OPEN_E: "cb_edge e OPEN s"
inductive_cases cb_edge_HALF_E: "cb_edge e HALF_OPEN s"

section \<open>Specification over the history of outcomes\<close>

text \<open>Outcomes since the breaker was last closed, oldest first.\<close>

definition trailing_failures :: "bool list \<Rightarrow> nat" where
  "trailing_failures h = length (takeWhile Not (rev h))"

definition last_n :: "nat \<Rightarrow> 'a list \<Rightarrow> 'a list" where
  "last_n n h = drop (length h - n) h"

text \<open>The history ends in the failure that must open the breaker.\<close>

definition trips :: "CircuitBreakerConfig \<Rightarrow> bool list \<Rightarrow> bool" where
  "trips cfg h \<longleftrightarrow>
     h \<noteq> [] \<and> \<not> last h \<and>
     (failure_threshold cfg \<le> int (trailing_failures h) \<or>
      (rolling_window cfg \<le> length h \<and> failure_rate cfg \<le> failure_rate_of (last_n (rolling_window cfg) h)))"

definition closed_with :: "bool list \<Rightarrow> CircuitBreaker \<Rightarrow> bool" where
  "closed_with h cb \<longleftrightarrow>
     cb_state cb = CLOSED \<and> cb_consecutive_failures cb = int (trailing_failures h) \<and>
     cb_outcomes cb = last_n (rolling_window (cb_cfg cb)) h"

text \<open>Reporting a list of outcomes, each with the clock reading a failure would take.\<close>

definition report :: "bool \<times> real \<Rightarrow> CircuitBreaker \<Rightarrow> CircuitBreaker" where
  "report o_t cb = (if fst o_t then on_success cb else on_failure (snd o_t) cb)"

section \<open>Facts\<close>

lemma length_deque_append: "length xs \<le> n \<Longrightarrow> length (deque_append n xs x) \<le> n"
  by (simp add: deque_append_def)

lemma deque_append_last_n: "deque_append n (last_n n h) x = last_n n (h @ [x])"
proof (cases "length h < n")
  case True
  then show ?thesis by (simp add: deque_append_def last_n_def)
next
  case False
  then have "length (last_n n h) = n" by (simp add: last_n_def)
  with False show ?thesis
    by (cases n) (auto simp: deque_append_def last_n_def Suc_diff_le Suc_diff_Suc)
qed

lemma length_last_n: "length (last_n n h) = min n (length h)"
  by (simp add: last_n_def)

lemma trailing_failures_snoc [simp]:
  "trailing_failures (h @ [True]) = 0" "trailing_failures (h @ [False]) = Suc (trailing_failures h)"
  by (simp_all add: trailing_failures_def)

lemmas cb_defs = before_call_def take_probe_def on_success_def on_failure_def open_now_def Let_def

lemma cb_apply_cfg [simp]: "cb_cfg (cb_apply e cb) = cb_cfg cb"
  by (cases e) (auto simp: cb_defs)

lemma cb_run_cfg [simp]: "cb_cfg (cb_run es cb) = cb_cfg cb"
  unfolding cb_run_def by (induction es arbitrary: cb) auto

lemma new_cb_ok: "cb_ok (new_CircuitBreaker host cfg)"
  by (auto simp: cb_ok_def new_CircuitBreaker_def)

lemma cb_apply_ok: "cb_ok cb \<Longrightarrow> cb_ok (cb_apply e cb)"
proof (cases e)
  case (Call now)
  assume "cb_ok cb"
  then show ?thesis using Call by (auto simp: cb_ok_def cb_defs)
next
  case Success
  assume "cb_ok cb"
  then show ?thesis
    using Success length_deque_append [of "cb_outcomes cb"] by (auto simp: cb_ok_def cb_defs)
next
  case (Failure now)
  assume "cb_ok cb"
  then show ?thesis
    using Failure length_deque_append [of "cb_outcomes cb"] by (auto simp: cb_ok_def cb_defs)
qed

interpretation cbm: invariant_system
  "\<lambda>cb. \<exists>host cfg. cb = new_CircuitBreaker host cfg" "\<lambda>cb cb'. \<exists>e. cb' = cb_apply e cb" cb_ok
  by unfold_locales (auto simp: new_cb_ok cb_apply_ok)

lemma cb_apply_edge: "cb_edge e (cb_state cb) (cb_state (cb_apply e cb))"
  by (cases e; cases "cb_state cb") (auto simp: cb_defs intro: cb_edge.intros)

lemma closed_with_new: "closed_with [] (new_CircuitBreaker host cfg)"
  by (simp add: closed_with_def new_CircuitBreaker_def trailing_failures_def last_n_def)

lemma closed_with_success: "closed_with h cb \<Longrightarrow> closed_with (h @ [True]) (on_success cb)"
  by (simp add: closed_with_def on_success_def deque_append_last_n)

lemma half_open_success_closes: "cb_state cb = HALF_OPEN \<Longrightarrow> closed_with [] (on_success cb)"
  by (simp add: closed_with_def on_success_def trailing_failures_def last_n_def Let_def)

lemma closed_with_failure:
  assumes "closed_with h cb"
  shows "if trips (cb_cfg cb) (h @ [False])
         then on_failure now cb = open_now now (on_failure now cb) \<and> cb_state (on_failure now cb) = OPEN
         else closed_with (h @ [False]) (on_failure now cb)"
  using assms length_last_n [of "rolling_window (cb_cfg cb)" "h @ [False]"]
  by (auto simp: closed_with_def on_failure_def deque_append_last_n trips_def open_now_def Let_def min_def)

lemma cb_cfg_report [simp]: "cb_cfg (report ot cb) = cb_cfg cb"
  by (simp add: report_def cb_defs)

lemma open_report: "cb_state cb = OPEN \<Longrightarrow> cb_state (fold report os cb) = OPEN"
  by (induction os arbitrary: cb) (auto simp: report_def cb_defs)

text \<open>Calls at the times \<open>ts\<close> with no outcome reported between them: how many get through.\<close>

fun admissions :: "real list \<Rightarrow> CircuitBreaker \<Rightarrow> nat" where
  "admissions [] cb = 0"
| "admissions (t # ts) cb =
     (if fst (before_call t cb) = None then 1 else 0) + admissions ts (snd (before_call t cb))"

lemma half_open_admissions:
  "cb_state cb = HALF_OPEN \<Longrightarrow>
   int (admissions ts cb) \<le> max 0 (half_open_max_probes (cb_cfg cb) - cb_inflight_probes cb)"
proof (induction ts arbitrary: cb)
  case (Cons t ts)
  show ?case
  proof (cases "cb_inflight_probes cb \<ge> half_open_max_probes (cb_cfg cb)")
    case True
    with Cons.prems Cons.IH [of cb] show ?thesis by (auto simp: cb_defs)
  next
    case False
    with Cons.prems Cons.IH [of "cb\<lparr>cb_inflight_probes := cb_inflight_probes cb + 1\<rparr>"] show ?thesis
      by (auto simp: cb_defs)
  qed
qed simp

lemma open_admissions:
  "cb_state cb = OPEN \<Longrightarrow> int (admissions ts cb) \<le> max 0 (half_open_max_probes (cb_cfg cb))"
proof (induction ts arbitrary: cb)
  case (Cons t ts)
  let ?h = "cb\<lparr>cb_state := HALF_OPEN, cb_inflight_probes := 0\<rparr>"
  show ?case
  proof (cases "t - cb_opened_at cb \<ge> open_seconds (cb_cfg cb)")
    case True
    then have "admissions (t # ts) cb = admissions (t # ts) ?h" using Cons.prems by (simp add: before_call_def)
    then show ?thesis using half_open_admissions [of ?h "t # ts"] by simp
  next
    case False
    with Cons show ?thesis by (simp add: cb_defs)
  qed
qed simp

lemma report_history:
  assumes "closed_with h cb"
  shows "cb_state (fold report os cb) = OPEN \<longleftrightarrow>
     (\<exists>n \<le> length os. 0 < n \<and> trips (cb_cfg cb) (h @ map fst (take n os)))"
  using assms
proof (induction os arbitrary: h cb)
  case Nil
  then show ?case by (simp add: closed_with_def)
next
  case (Cons ot os)
  have split: "(\<exists>n \<le> length (ot # os). 0 < n \<and> trips cfg (h @ map fst (take n (ot # os)))) \<longleftrightarrow>
      trips cfg (h @ [fst ot]) \<or> (\<exists>n \<le> length os. 0 < n \<and> trips cfg ((h @ [fst ot]) @ map fst (take n os)))" for cfg
  proof -
    have "(\<exists>n \<le> length (ot # os). 0 < n \<and> P n) \<longleftrightarrow> P 1 \<or> (\<exists>n \<le> length os. 0 < n \<and> P (Suc n))" for P
      by (metis One_nat_def Suc_le_mono le_add1 length_Cons not0_implies_Suc not_gr_zero plus_1_eq_Suc zero_less_Suc)
    from this [of "\<lambda>n. trips cfg (h @ map fst (take n (ot # os)))"] show ?thesis by simp
  qed
  show ?case
  proof (cases "fst ot")
    case True
    then have "\<not> trips (cb_cfg cb) (h @ [fst ot])" by (simp add: trips_def)
    moreover have "closed_with (h @ [fst ot]) (report ot cb)"
      using closed_with_success [OF Cons.prems] True by (simp add: report_def)
    ultimately show ?thesis unfolding split using Cons.IH [of "h @ [fst ot]" "report ot cb"] by simp
  next
    case False
    then have r: "report ot cb = on_failure (snd ot) cb" by (simp add: report_def)
    show ?thesis
    proof (cases "trips (cb_cfg cb) (h @ [False])")
      case True
      then have "cb_state (report ot cb) = OPEN" using closed_with_failure [OF Cons.prems, of "snd ot"] r by simp
      then have "cb_state (fold report (ot # os) cb) = OPEN" using open_report by simp
      with True False show ?thesis unfolding split by simp
    next
      case nt: False
      then have "closed_with (h @ [fst ot]) (report ot cb)"
        using closed_with_failure [OF Cons.prems, of "snd ot"] r False by simp
      with nt False show ?thesis unfolding split using Cons.IH [of "h @ [fst ot]" "report ot cb"] by simp
    qed
  qed
qed

section \<open>Properties\<close>

text \<open>C17: A breaker that starts closed and is told outcomes is open exactly when some prefix of the
  outcomes ends in a failure that reaches the threshold of consecutive failures, or fills the
  window with at least the configured failure rate.\<close>

theorem breaker_opens_iff:
  "cb_state (fold report os (new_CircuitBreaker host cfg)) = OPEN \<longleftrightarrow>
     (\<exists>n \<le> length os. 0 < n \<and> trips cfg (map fst (take n os)))"
  using report_history [OF closed_with_new, of os host cfg] by (simp add: new_CircuitBreaker_def)

text \<open>C18: Through any sequence of calls, successes and failures by any coroutines the breaker's
  counters stay well formed and its state moves along the documented edges only.\<close>

theorem breaker_machine:
  "cb_ok (cb_run es (new_CircuitBreaker host cfg))
   \<and> cb_edge e (cb_state (cb_run es (new_CircuitBreaker host cfg)))
       (cb_state (cb_apply e (cb_run es (new_CircuitBreaker host cfg))))"
proof -
  have "cb_ok (cb_run es cb)" if "cb_ok cb" for cb
    using that unfolding cb_run_def by (induction es arbitrary: cb) (auto simp: cb_apply_ok)
  then show ?thesis using new_cb_ok cb_apply_edge by blast
qed

text \<open>An open breaker rejects every call until its cool-down has passed, with the remaining
  time as the delay, whatever outcomes of earlier calls are still reported.\<close>

lemma open_blocks:
  assumes "cb_state cb = OPEN"
    and "\<forall>e \<in> set es. case e of Call t \<Rightarrow> t < cb_opened_at cb + open_seconds (cb_cfg cb) | _ \<Rightarrow> True"
    and "now < cb_opened_at cb + open_seconds (cb_cfg cb)"
  shows "cb_state (cb_run es cb) = OPEN
     \<and> fst (before_call now (cb_run es cb)) =
         Some (CircuitOpenError (cb_host cb) (cb_opened_at cb + open_seconds (cb_cfg cb) - now))"
proof -
  have "cb_state (cb_run es cb) = OPEN \<and> cb_opened_at (cb_run es cb) = cb_opened_at cb
      \<and> cb_cfg (cb_run es cb) = cb_cfg cb \<and> cb_host (cb_run es cb) = cb_host cb"
    using assms(1,2)
  proof (induction es arbitrary: cb)
    case (Cons e es)
    have "cb_state (cb_apply e cb) = OPEN \<and> cb_opened_at (cb_apply e cb) = cb_opened_at cb
        \<and> cb_cfg (cb_apply e cb) = cb_cfg cb \<and> cb_host (cb_apply e cb) = cb_host cb"
      using Cons.prems by (cases e) (auto simp: cb_defs)
    moreover have "\<forall>e' \<in> set es. case e' of Call t \<Rightarrow> t < cb_opened_at (cb_apply e cb) + open_seconds (cb_cfg (cb_apply e cb))
        | _ \<Rightarrow> True"
      using Cons.prems(2) calculation by (auto split: cb_event.splits)
    ultimately show ?case using Cons.IH [of "cb_apply e cb"] by (simp add: cb_run_def)
  qed (simp add: cb_run_def)
  with assms(3) show ?thesis by (auto simp: before_call_def algebra_simps)
qed

lemma open_blocks_witness:
  "fst (before_call 12 (cb_run [Success, Call 11, Failure 11]
      (open_now 10 (new_CircuitBreaker ''h'' default_CircuitBreakerConfig)))) =
   Some (CircuitOpenError ''h'' (open_seconds default_CircuitBreakerConfig - 2))"
  using open_blocks [of "open_now 10 (new_CircuitBreaker ''h'' default_CircuitBreakerConfig)"
      "[Success, Call 11, Failure 11]" 12]
  by (simp add: open_now_def new_CircuitBreaker_def default_CircuitBreakerConfig_def)

text \<open>After the cool-down at most \<open>half_open_max_probes\<close> calls pass before an outcome is
  reported, however many arrive and whenever.\<close>

lemma probes_bounded:
  assumes "cb_state cb = OPEN"
  shows "int (admissions ts cb) \<le> max 0 (half_open_max_probes (cb_cfg cb))"
  using open_admissions [OF assms] .

lemma probes_bounded_witness:
  "int (admissions [50, 51, 52] (open_now 10 (new_CircuitBreaker ''h'' default_CircuitBreakerConfig)))
     \<le> max 0 (half_open_max_probes default_CircuitBreakerConfig)"
  using probes_bounded [of "open_now 10 (new_CircuitBreaker ''h'' default_CircuitBreakerConfig)" "[50, 51, 52]"]
  by (simp add: open_now_def new_CircuitBreaker_def)

end
