(* ===== verification/Rate_Limiter.thy ===== *)
theory Rate_Limiter
  imports Config Py_Url
begin

text \<open>
  \<open>rate_limiter.py\<close>: the token bucket and the per-host registry. The clock readings are
  arguments. The body of \<open>acquire\<close> under the bucket's lock is one atomic step
  (\<open>acquire_step\<close>); the waiting loop around it is \<open>acquire\<close>, which takes the readings of the
  clock at the successive rounds. Buckets are objects shared by reference (a waiter keeps the
  bucket it got even when \<open>set_override\<close> drops it from the registry), so the limiter keeps them
  in a heap and its dictionary holds indices.
\<close>

section \<open>TokenBucket\<close>

record TokenBucket =
  b_rate :: real
  b_capacity :: real
  b_tokens :: real
  b_last :: real

definition new_TokenBucket :: "real \<Rightarrow> int \<Rightarrow> real \<Rightarrow> TokenBucket res" where
  "new_TokenBucket rate brst now =
     (if rate \<le> 0 then Inl (ValueError ''rate_per_second must be > 0'')
      else if brst \<le> 0 then Inl (ValueError ''burst must be > 0'')
      else Inr \<lparr>b_rate = rate, b_capacity = of_int brst, b_tokens = of_int brst, b_last = now\<rparr>)"

definition tokens :: "real \<Rightarrow> TokenBucket \<Rightarrow> real" where
  "tokens now b = min (b_capacity b) (b_tokens b + (now - b_last b) * b_rate b)"

definition refill :: "real \<Rightarrow> TokenBucket \<Rightarrow> TokenBucket" where
  "refill now b =
     (let elapsed = now - b_last b in
      if elapsed > 0 then
        b\<lparr>b_tokens := min (b_capacity b) (b_tokens b + elapsed * b_rate b), b_last := now\<rparr>
      else b)"

datatype acquire_result = Acquired | MustWait real

text \<open>One round of \<open>acquire\<close>: the critical section under \<open>self._lock\<close>.\<close>

definition acquire_step :: "real \<Rightarrow> real \<Rightarrow> TokenBucket \<Rightarrow> acquire_result \<times> TokenBucket" where
  "acquire_step count now b0 =
     (let b = refill now b0 in
      if b_tokens b \<ge> count then (Acquired, b\<lparr>b_tokens := b_tokens b - count\<rparr>)
      else (let deficit = count - b_tokens b; wait = deficit / b_rate b in (MustWait wait, b)))"

text \<open>
  The loop over the clock readings \<open>ts\<close> of its rounds: the total delay and the bucket once a
  round acquires, \<open>None\<close> while it is still waiting.
\<close>

fun acquire_loop :: "real \<Rightarrow> real list \<Rightarrow> real \<Rightarrow> TokenBucket \<Rightarrow> (real \<times> TokenBucket) option" where
  "acquire_loop count [] delay_total b = None"
| "acquire_loop count (now # ts) delay_total b =
     (case acquire_step count now b of
        (Acquired, b') \<Rightarrow> Some (delay_total, b')
      | (MustWait w, b') \<Rightarrow> acquire_loop count ts (delay_total + w) b')"

definition acquire :: "real \<Rightarrow> real list \<Rightarrow> TokenBucket \<Rightarrow> (real \<times> TokenBucket) option res" where
  "acquire count ts b =
     (if count > b_capacity b then Inl (ValueError ''requested tokens > bucket capacity'')
      else Inr (acquire_loop count ts 0 b))"

section \<open>HostRateLimiter\<close>

record HostRateLimiter =
  l_default :: RateLimitConfig
  l_overrides :: "(string, RateLimitConfig) dict"
  l_buckets :: "(string, nat) dict"
  l_heap :: "TokenBucket list"

definition new_HostRateLimiter :: "RateLimitConfig \<Rightarrow> HostRateLimiter" where
  "new_HostRateLimiter d = \<lparr>l_default = d, l_overrides = [], l_buckets = [], l_heap = []\<rparr>"

definition set_override :: "string \<Rightarrow> RateLimitConfig \<Rightarrow> HostRateLimiter \<Rightarrow> HostRateLimiter" where
  "set_override host cfg l =
     l\<lparr>l_overrides := dset (l_overrides l) host cfg, l_buckets := dpop (l_buckets l) host\<rparr>"

definition config_for :: "HostRateLimiter \<Rightarrow> string \<Rightarrow> RateLimitConfig" where
  "config_for l host = (case dget (l_overrides l) host of Some c \<Rightarrow> c | None \<Rightarrow> l_default l)"

text \<open>The first half of \<open>HostRateLimiter.acquire\<close>: the bucket of the URL's host, made on demand.\<close>

definition bucket_for :: "string \<Rightarrow> real \<Rightarrow> HostRateLimiter \<Rightarrow> (nat \<times> HostRateLimiter) res" where
  "bucket_for url now l =
     (case host_of url of
        Inl e \<Rightarrow> Inl e
      | Inr host \<Rightarrow>
          (case dget (l_buckets l) host of
             Some i \<Rightarrow> Inr (i, l)
           | None \<Rightarrow>
               (let cfg = config_for l host in
                case new_TokenBucket (rate_per_second cfg) (burst cfg) now of
                  Inl e \<Rightarrow> Inl e
                | Inr b \<Rightarrow>
                    (let i = length (l_heap l) in
                     Inr (i, l\<lparr>l_buckets := dset (l_buckets l) host i, l_heap := l_heap l @ [b]\<rparr>)))))"

text \<open>The second half: a round of \<open>bucket.acquire()\<close> on the bucket obtained.\<close>

definition bucket_step :: "nat \<Rightarrow> real \<Rightarrow> HostRateLimiter \<Rightarrow> acquire_result \<times> HostRateLimiter" where
  "bucket_step i now l =
     (let (r, b) = acquire_step 1 now (l_heap l ! i) in (r, l\<lparr>l_heap := (l_heap l)[i := b]\<rparr>))"

section \<open>Invariants and traces\<close>

definition bucket_ok :: "TokenBucket \<Rightarrow> bool" where
  "bucket_ok b \<longleftrightarrow> 0 < b_rate b \<and> 1 \<le> b_capacity b \<and> 0 \<le> b_tokens b \<and> b_tokens b \<le> b_capacity b"

definition limiter_ok :: "HostRateLimiter \<Rightarrow> bool" where
  "limiter_ok l \<longleftrightarrow> dict_ok (l_buckets l)
     \<and> (\<forall>b \<in> set (l_heap l). bucket_ok b)
     \<and> (\<forall>h i. dget (l_buckets l) h = Some i \<longrightarrow> i < length (l_heap l))
     \<and> (\<forall>h h' i. dget (l_buckets l) h = Some i \<longrightarrow> dget (l_buckets l) h' = Some i \<longrightarrow> h = h')"

text \<open>Any interleaving of rounds by any number of coroutines: events are a count and a clock reading.\<close>

fun bucket_run :: "TokenBucket \<Rightarrow> (real \<times> real) list \<Rightarrow> TokenBucket" where
  "bucket_run b [] = b"
| "bucket_run b ((c, t) # es) = bucket_run (snd (acquire_step c t b)) es"

fun granted :: "TokenBucket \<Rightarrow> (real \<times> real) list \<Rightarrow> real" where
  "granted b [] = 0"
| "granted b ((c, t) # es) =
     (case acquire_step c t b of (Acquired, b') \<Rightarrow> c + granted b' es | (MustWait _, b') \<Rightarrow> granted b' es)"

section \<open>Facts about buckets\<close>

lemma new_bucket_ok: "new_TokenBucket rate brst now = Inr b \<Longrightarrow> bucket_ok b"
  by (auto simp: new_TokenBucket_def bucket_ok_def split: if_splits)

lemma refill_fields [simp]:
  "b_rate (refill now b) = b_rate b" "b_capacity (refill now b) = b_capacity b"
  "b_last (refill now b) = max (b_last b) now"
  by (simp_all add: refill_def Let_def max_def)

lemma refill_tokens:
  "bucket_ok b \<Longrightarrow> b_last b \<le> now \<Longrightarrow> b_tokens (refill now b) = tokens now b"
  by (cases "b_last b = now") (auto simp: refill_def tokens_def Let_def bucket_ok_def min_def)

lemma refill_ok: "bucket_ok b \<Longrightarrow> bucket_ok (refill now b)"
  by (auto simp: refill_def bucket_ok_def Let_def)

lemma refill_gain:
  "bucket_ok b \<Longrightarrow> b_tokens (refill now b) \<le> b_tokens b + (b_last (refill now b) - b_last b) * b_rate b"
  by (auto simp: refill_def bucket_ok_def Let_def)

lemma refill_mono: "bucket_ok b \<Longrightarrow> b_tokens b \<le> b_tokens (refill now b)"
  by (auto simp: refill_def bucket_ok_def Let_def)

lemma acquire_step_fields [simp]:
  "b_rate (snd (acquire_step c now b)) = b_rate b"
  "b_capacity (snd (acquire_step c now b)) = b_capacity b"
  "b_last (snd (acquire_step c now b)) = max (b_last b) now"
  by (simp_all add: acquire_step_def Let_def)

lemma acquire_step_ok: "bucket_ok b \<Longrightarrow> 0 \<le> c \<Longrightarrow> bucket_ok (snd (acquire_step c now b))"
  using refill_ok [of b now] by (auto simp: acquire_step_def bucket_ok_def Let_def)

lemma acquire_step_cases:
  obtains "acquire_step c now b = (Acquired, (refill now b)\<lparr>b_tokens := b_tokens (refill now b) - c\<rparr>)"
      "c \<le> b_tokens (refill now b)"
  | "acquire_step c now b = (MustWait ((c - b_tokens (refill now b)) / b_rate b), refill now b)"
      "b_tokens (refill now b) < c"
  by (cases "c \<le> b_tokens (refill now b)") (auto simp: acquire_step_def Let_def)

lemma acquire_step_MustWait_pos:
  "bucket_ok b \<Longrightarrow> acquire_step c now b = (MustWait w, b') \<Longrightarrow> 0 < w"
  by (rule acquire_step_cases [of c now b]) (auto simp: bucket_ok_def)

text \<open>After sleeping at least the computed wait, a waiter that is alone gets its tokens.\<close>

lemma acquire_step_after_wait:
  assumes ok: "bucket_ok b" and cap: "c \<le> b_capacity b" and last: "b_last b \<le> now"
    and wait: "acquire_step c now b = (MustWait w, b')" and later: "now + w \<le> now'"
  shows "fst (acquire_step c now' b') = Acquired"
proof -
  have "b' = refill now b \<and> w = (c - b_tokens b') / b_rate b"
    by (rule acquire_step_cases [of c now b]) (use wait in auto)
  then have b': "b' = refill now b" and w: "w = (c - b_tokens b') / b_rate b" by simp_all
  have ok': "bucket_ok b'" using ok b' by (simp add: refill_ok)
  have r: "0 < b_rate b" using ok by (simp add: bucket_ok_def)
  have last': "b_last b' = now" and rate: "b_rate b' = b_rate b" and cap': "b_capacity b' = b_capacity b"
    using b' last by (simp_all add: max_def)
  have "0 < w" using acquire_step_MustWait_pos [OF ok wait] .
  have "c - b_tokens b' = w * b_rate b" using w r by (simp add: field_simps)
  also have "\<dots> \<le> (now' - now) * b_rate b" using later r by (simp add: mult_right_mono)
  finally have "c \<le> tokens now' b'" using cap cap' last' rate by (simp add: tokens_def)
  then have "c \<le> b_tokens (refill now' b')"
    using refill_tokens [OF ok', of now'] last' later \<open>0 < w\<close> by simp
  then show ?thesis by (simp add: acquire_step_def Let_def)
qed

section \<open>The rate bound\<close>

lemma bucket_run_ok: "bucket_ok b \<Longrightarrow> \<forall>(c, t) \<in> set es. 0 \<le> c \<Longrightarrow> bucket_ok (bucket_run b es)"
  by (induction b es rule: bucket_run.induct) (auto simp: acquire_step_ok)

lemma bucket_run_fields [simp]:
  "b_rate (bucket_run b es) = b_rate b" "b_capacity (bucket_run b es) = b_capacity b"
  by (induction b es rule: bucket_run.induct) auto

lemma granted_step:
  "granted b ((c, t) # es) =
     (if c \<le> b_tokens (refill t b) then c else 0) + granted (snd (acquire_step c t b)) es"
  by (rule acquire_step_cases [of c t b]) auto

lemma step_tokens:
  "b_tokens (snd (acquire_step c t b)) = b_tokens (refill t b) - (if c \<le> b_tokens (refill t b) then c else 0)"
  by (rule acquire_step_cases [of c t b]) auto

lemma granted_bound:
  "bucket_ok b \<Longrightarrow> \<forall>(c, t) \<in> set es. 0 \<le> c \<Longrightarrow>
   b_tokens (bucket_run b es) + granted b es
     \<le> b_tokens b + (b_last (bucket_run b es) - b_last b) * b_rate b"
proof (induction b es rule: bucket_run.induct)
  case (2 b c t es)
  let ?b = "snd (acquire_step c t b)"
  have ok: "bucket_ok ?b" using 2 by (auto intro: acquire_step_ok)
  then have "b_tokens (bucket_run ?b es) + granted ?b es
      \<le> b_tokens ?b + (b_last (bucket_run ?b es) - b_last ?b) * b_rate b"
    using 2 by auto
  moreover have "b_tokens (refill t b) \<le> b_tokens b + (b_last ?b - b_last b) * b_rate b"
    using refill_gain [OF "2.prems"(1), of t] by simp
  ultimately show ?case by (simp add: granted_step step_tokens left_diff_distrib del: granted.simps(2))
qed simp

lemma bucket_run_last_le: "b_last b \<le> T \<Longrightarrow> \<forall>(c, t) \<in> set es. t \<le> T \<Longrightarrow> b_last (bucket_run b es) \<le> T"
  by (induction b es rule: bucket_run.induct) auto

lemma granted_append: "granted b (es @ es') = granted b es + granted (bucket_run b es) es'"
  by (induction b es rule: bucket_run.induct) (simp_all add: granted_step del: granted.simps(2))

lemma bucket_run_append: "bucket_run b (es @ es') = bucket_run (bucket_run b es) es'"
  by (induction b es rule: bucket_run.induct) auto

section \<open>The registry\<close>

lemma bucket_for_ok:
  assumes ok: "limiter_ok l" and bf: "bucket_for url now l = Inr (i, l')"
  shows "limiter_ok l' \<and> i < length (l_heap l')"
proof -
  from bf obtain host where host: "host_of url = Inr host"
    by (auto simp: bucket_for_def split: sum.splits)
  show ?thesis
  proof (cases "dget (l_buckets l) host")
    case (Some j)
    with bf host ok show ?thesis by (auto simp: bucket_for_def limiter_ok_def)
  next
    case None
    with bf host obtain b where b: "bucket_ok b" and i: "i = length (l_heap l)"
      and l': "l' = l\<lparr>l_buckets := dset (l_buckets l) host i, l_heap := l_heap l @ [b]\<rparr>"
      by (auto simp: bucket_for_def Let_def split: sum.splits dest: new_bucket_ok)
    have fresh: "dget (l_buckets l) h = Some j \<Longrightarrow> j < length (l_heap l)" for h j
      using ok by (simp add: limiter_ok_def)
    show ?thesis
      using ok b i l' by (auto simp: limiter_ok_def nth_append less_Suc_eq dest: fresh split: if_splits)
  qed
qed

lemma bucket_step_ok:
  assumes "limiter_ok l" and "i < length (l_heap l)"
  shows "limiter_ok (snd (bucket_step i now l))"
proof -
  have "bucket_ok (l_heap l ! i)" using assms by (simp add: limiter_ok_def)
  then have "bucket_ok (snd (acquire_step 1 now (l_heap l ! i)))" by (simp add: acquire_step_ok)
  then show ?thesis
    using assms
    by (auto simp: limiter_ok_def bucket_step_def split: prod.splits dest!: set_update_subset_insert [THEN subsetD])
qed

lemma set_override_ok: "limiter_ok l \<Longrightarrow> limiter_ok (set_override host cfg l)"
  by (auto simp: limiter_ok_def set_override_def)

lemma new_limiter_ok: "limiter_ok (new_HostRateLimiter d)"
  by (simp add: limiter_ok_def new_HostRateLimiter_def)

text \<open>Rounds on one host's bucket leave the bucket of every other host as it is.\<close>

lemma bucket_step_isolated:
  assumes "limiter_ok l" and "dget (l_buckets l) h = Some i" and "dget (l_buckets l) h' = Some j" and "h \<noteq> h'"
  shows "l_heap (snd (bucket_step i now l)) ! j = l_heap l ! j"
proof -
  have "i \<noteq> j" using assms by (auto simp: limiter_ok_def)
  then show ?thesis by (simp add: bucket_step_def split: prod.splits)
qed

lemma bucket_for_error:
  "bucket_for url now l = Inl e \<Longrightarrow>
     host_of url = Inl e \<or> (\<exists>host. host_of url = Inr host \<and>
       (rate_per_second (config_for l host) \<le> 0 \<or> burst (config_for l host) \<le> 0))"
  by (auto simp: bucket_for_def new_TokenBucket_def Let_def split: sum.splits option.splits if_splits)

text \<open>Refilling earlier makes no difference to a later round.\<close>

lemma refill_twice: "bucket_ok b \<Longrightarrow> t0 \<le> t \<Longrightarrow> refill t (refill t0 b) = refill t b"
proof -
  assume ok: "bucket_ok b" and t: "t0 \<le> t"
  then have "t0 * b_rate b \<le> t * b_rate b" by (intro mult_right_mono) (auto simp: bucket_ok_def)
  with t show ?thesis by (auto simp: refill_def Let_def min_def field_simps split: if_splits)
qed

lemma granted_refill: "bucket_ok b \<Longrightarrow> \<forall>(c, t) \<in> set es. t0 \<le> t \<Longrightarrow> granted (refill t0 b) es = granted b es"
proof (cases es)
  case (Cons e es')
  assume ok: "bucket_ok b" and t: "\<forall>(c, t) \<in> set es. t0 \<le> t"
  obtain c t1 where e: "e = (c, t1)" by (cases e)
  have "acquire_step c t1 (refill t0 b) = acquire_step c t1 b"
    using refill_twice [OF ok, of t0 t1] t Cons e by (simp add: acquire_step_def)
  then show ?thesis using Cons e by simp
qed simp

section \<open>Any schedule of the registry\<close>

inductive limiter_step :: "HostRateLimiter \<Rightarrow> HostRateLimiter \<Rightarrow> bool" where
  overridden: "limiter_step l (set_override host cfg l)"
| looked_up: "bucket_for url now l = Inr (i, l') \<Longrightarrow> limiter_step l l'"
| round: "i < length (l_heap l) \<Longrightarrow> limiter_step l (snd (bucket_step i now l))"

interpretation lim: invariant_system "\<lambda>l. \<exists>d. l = new_HostRateLimiter d" limiter_step limiter_ok
proof unfold_locales
  fix l l' assume "limiter_ok l" "limiter_step l l'"
  from this(2,1) show "limiter_ok l'"
    by (induction rule: limiter_step.induct) (auto simp: set_override_ok bucket_step_ok dest: bucket_for_ok)
qed (auto simp: new_limiter_ok)

section \<open>A window of time\<close>

lemma window_bound:
  assumes ok: "bucket_ok b" and last: "b_last b \<le> t0" and t: "t0 \<le> t1"
    and inside: "\<forall>(c, t) \<in> set inside. 0 \<le> c \<and> t0 \<le> t \<and> t \<le> t1"
  shows "granted b inside \<le> b_capacity b + b_rate b * (t1 - t0)"
proof -
  let ?r = "refill t0 b"
  have r: "bucket_ok ?r" "b_last ?r = t0" using ok last by (auto simp: refill_ok max_def)
  have "b_tokens (bucket_run ?r inside) + granted ?r inside
      \<le> b_tokens ?r + (b_last (bucket_run ?r inside) - b_last ?r) * b_rate ?r"
    using granted_bound [OF r(1), of inside] inside by auto
  moreover have "0 \<le> b_tokens (bucket_run ?r inside)"
    using bucket_run_ok [OF r(1), of inside] inside by (auto simp: bucket_ok_def)
  moreover have "(b_last (bucket_run ?r inside) - t0) * b_rate b \<le> (t1 - t0) * b_rate b"
  proof (rule mult_right_mono)
    have "b_last (bucket_run ?r inside) \<le> t1"
      by (rule bucket_run_last_le) (use r(2) t inside in auto)
    then show "b_last (bucket_run ?r inside) - t0 \<le> t1 - t0" by simp
    show "0 \<le> b_rate b" using ok by (simp add: bucket_ok_def)
  qed
  moreover have "b_tokens ?r \<le> b_capacity b" using r(1) by (simp add: bucket_ok_def)
  moreover have "granted ?r inside = granted b inside" using inside by (intro granted_refill [OF ok]) auto
  ultimately show ?thesis using r(2) by (simp add: mult.commute)
qed

section \<open>Properties\<close>

text \<open>C15: In any window of time, whatever coroutines took before and however they interleave in
  it, a bucket hands out at most its burst plus the refill of the window.\<close>

theorem rate_window_bound:
  assumes "new_TokenBucket rate brst start = Inr b" and "start \<le> t0" and "t0 \<le> t1"
    and "\<forall>(c, t) \<in> set before. 0 \<le> c \<and> t \<le> t0" and "\<forall>(c, t) \<in> set inside. 0 \<le> c \<and> t0 \<le> t \<and> t \<le> t1"
  shows "granted (bucket_run b before) inside \<le> of_int brst + rate * (t1 - t0)"
proof -
  let ?b = "bucket_run b before"
  have b: "bucket_ok b" "b_rate b = rate" "b_capacity b = of_int brst" "b_last b = start"
    using new_bucket_ok [OF assms(1)] assms(1) by (auto simp: new_TokenBucket_def split: if_splits)
  have "bucket_ok ?b" using b(1) assms(4) by (intro bucket_run_ok) auto
  moreover have "b_last ?b \<le> t0" using b(4) assms(2,4) by (intro bucket_run_last_le) auto
  ultimately show ?thesis using window_bound [of ?b t0 t1 inside] assms(3,5) b(2,3) by simp
qed

theorem rate_window_bound_witness:
  "granted (bucket_run \<lparr>b_rate = 10, b_capacity = 2, b_tokens = 2, b_last = 0\<rparr> [(1, 0), (1, 1)])
     [(1, 1), (1, 3 / 2), (1, 2)] \<le> 12"
  using rate_window_bound [of 10 2 0 "\<lparr>b_rate = 10, b_capacity = 2, b_tokens = 2, b_last = 0\<rparr>" 1 2
      "[(1, 0), (1, 1)]" "[(1, 1), (1, 3 / 2), (1, 2)]"]
  by (simp add: new_TokenBucket_def)

text \<open>C16: A waiter is delayed, not dropped: it computes a wait after which, with nobody else at the
  bucket, its next round succeeds and reports exactly that delay.\<close>

theorem acquire_returns:
  assumes "bucket_ok b" and "c \<le> b_capacity b" and "b_last b \<le> now"
  shows "\<exists>w \<ge> 0. \<forall>later \<ge> now + w. \<exists>b'. acquire c [now, later] b = Inr (Some (w, b'))"
proof (cases "acquire_step c now b")
  case (Pair r b1)
  show ?thesis
  proof (cases r)
    case Acquired
    then show ?thesis using Pair assms(2) by (intro exI [of _ 0]) (simp add: acquire_def)
  next
    case (MustWait w)
    have "\<exists>b'. acquire c [now, later] b = Inr (Some (w, b'))" if "now + w \<le> later" for later
      using acquire_step_after_wait [OF assms Pair [unfolded MustWait] that] Pair MustWait assms(2)
      by (cases "acquire_step c later b1") (simp add: acquire_def)
    then show ?thesis
      using acquire_step_MustWait_pos [OF assms(1) Pair [unfolded MustWait]] by (intro exI [of _ w]) auto
  qed
qed

theorem acquire_returns_witness:
  "\<exists>w \<ge> 0. \<forall>later \<ge> 5 + w. \<exists>b'.
     acquire 1 [5, later] \<lparr>b_rate = 10, b_capacity = 2, b_tokens = 1 / 2, b_last = 5\<rparr> = Inr (Some (w, b'))"
  using acquire_returns [of "\<lparr>b_rate = 10, b_capacity = 2, b_tokens = 1 / 2, b_last = 5\<rparr>" 1 5]
  by (simp add: bucket_ok_def)

text \<open>Under any schedule of lookups, overrides and rounds, a round for one host never changes
  what another host's bucket holds.\<close>

lemma host_isolation:
  assumes "reach (\<lambda>l. \<exists>d. l = new_HostRateLimiter d) limiter_step l"
    and "dget (l_buckets l) h = Some i" and "dget (l_buckets l) h' = Some j" and "h \<noteq> h'"
  shows "l_heap (snd (bucket_step i now l)) ! j = l_heap l ! j"
  using bucket_step_isolated [OF lim.reach_inv [OF assms(1)] assms(2,3,4)] .

lemma host_of_a: "host_of ''https://a.io/x'' = Inr ''a.io''" and host_of_b: "host_of ''https://B.io'' = Inr ''b.io''"
  by code_simp+

definition two_hosts :: HostRateLimiter where
  "two_hosts =
     (let b = \<lparr>b_rate = 10, b_capacity = 2, b_tokens = 2, b_last = 0\<rparr> in
      \<lparr>l_default = \<lparr>rate_per_second = 10, burst = 2\<rparr>, l_overrides = [],
       l_buckets = [(''a.io'', 0), (''b.io'', 1)], l_heap = [b, b]\<rparr>)"

lemma two_hosts_reach: "reach (\<lambda>l. \<exists>d. l = new_HostRateLimiter d) limiter_step two_hosts"
proof -
  let ?d = "\<lparr>rate_per_second = 10, burst = 2\<rparr>" and ?b = "\<lparr>b_rate = 10, b_capacity = 2, b_tokens = 2, b_last = 0\<rparr>"
  let ?l1 = "\<lparr>l_default = ?d, l_overrides = [], l_buckets = [(''a.io'', 0)], l_heap = [?b]\<rparr>"
  have "bucket_for ''https://a.io/x'' 0 (new_HostRateLimiter ?d) = Inr (0, ?l1)"
    by (simp add: bucket_for_def host_of_a new_HostRateLimiter_def config_for_def new_TokenBucket_def dget_def)
  then have 1: "limiter_step (new_HostRateLimiter ?d) ?l1" by (rule looked_up)
  have "bucket_for ''https://B.io'' 0 ?l1 = Inr (1, two_hosts)"
    by (simp add: bucket_for_def host_of_b two_hosts_def Let_def config_for_def new_TokenBucket_def dget_def)
  then have 2: "limiter_step ?l1 two_hosts" by (rule looked_up)
  have "reach (\<lambda>l. \<exists>d. l = new_HostRateLimiter d) limiter_step (new_HostRateLimiter ?d)"
    by (rule reach_start) blast
  from this 1 have "reach (\<lambda>l. \<exists>d. l = new_HostRateLimiter d) limiter_step ?l1" by (rule reach_next)
  from this 2 show ?thesis by (rule reach_next)
qed

lemma host_isolation_witness: "l_heap (snd (bucket_step 0 3 two_hosts)) ! 1 = l_heap two_hosts ! 1"
  using host_isolation [OF two_hosts_reach, of "''a.io''" 0 "''b.io''" 1 3]
  by (simp add: two_hosts_def Let_def dget_def)

end
