(* ===== verification/Retry.thy ===== *)
theory Retry
  imports Config Py_Float
begin

text \<open>
  \<open>retry.py\<close>: the retry budget, the full-jitter backoff and the parser of \<open>Retry-After\<close>.
  The random draw of \<open>rng.uniform\<close> is the argument \<open>u\<close>, the value \<open>random()\<close> returned, which
  Python documents to lie in the half-open unit interval.
\<close>

definition should_retry :: "RetryPolicy \<Rightarrow> int \<Rightarrow> bool" where
  "should_retry policy attempt \<longleftrightarrow> attempt < max_retries policy"

text \<open>\<open>rng.uniform(a, b)\<close> is \<open>a + (b - a) * random()\<close>.\<close>

definition uniform :: "real \<Rightarrow> real \<Rightarrow> real \<Rightarrow> real" where
  "uniform a b u = a + (b - a) * u"

text \<open>\<open>2 ** attempt\<close>: an integer, or a fraction for a negative exponent.\<close>

definition pow2 :: "int \<Rightarrow> real" where
  "pow2 n = (if 0 \<le> n then 2 ^ nat n else 1 / 2 ^ nat (- n))"

text \<open>The part of \<open>backoff_seconds\<close> that follows the policy.\<close>

definition policy_backoff :: "RetryPolicy \<Rightarrow> int \<Rightarrow> real \<Rightarrow> pyfloat res" where
  "policy_backoff policy attempt u =
     (let cap = max 0 (max_delay policy);
          base = max 0 (base_delay policy) in
      if 1024 \<le> attempt then Inl (OverflowError ''int too large to convert to float'')
      else let target = min cap (base * pow2 attempt) in
           if \<not> jitter policy then Inr (Fin target)
           else Inr (Fin (uniform 0 target u)))"

definition backoff_seconds ::
  "RetryPolicy \<Rightarrow> int \<Rightarrow> pyfloat option \<Rightarrow> real \<Rightarrow> pyfloat res" where
  "backoff_seconds policy attempt retry_after u =
     (case retry_after of
        Some ra \<Rightarrow>
          if fgt ra (Fin 0) then Inr (fmin ra (Fin (max_delay policy)))
          else policy_backoff policy attempt u
      | None \<Rightarrow> policy_backoff policy attempt u)"

definition parse_retry_after :: "string option \<Rightarrow> pyfloat option" where
  "parse_retry_after value =
     (case value of
        None \<Rightarrow> None
      | Some s \<Rightarrow>
          if s = [] then None
          else (case float_of_str (strip s) of
                  Inl _ \<Rightarrow> None
                | Inr seconds \<Rightarrow> Some (fmax (Fin 0) seconds)))"

section \<open>Facts\<close>

lemma pow2_nonneg [simp]: "0 \<le> pow2 n"
  by (simp add: pow2_def)

lemma pow2_pos [simp]: "0 < pow2 n"
  by (simp add: pow2_def)

lemma pow2_Suc: "0 \<le> n \<Longrightarrow> pow2 (n + 1) = 2 * pow2 n"
  by (simp add: pow2_def nat_add_distrib)

lemma uniform_bounds: "0 \<le> b \<Longrightarrow> 0 \<le> u \<Longrightarrow> u < 1 \<Longrightarrow> 0 \<le> uniform 0 b u \<and> uniform 0 b u \<le> b"
  by (simp add: uniform_def mult_left_le)

lemma policy_backoff_target:
  assumes "attempt < 1024" and "0 \<le> u" and "u < 1"
  shows "\<exists>d. policy_backoff policy attempt u = Inr (Fin d) \<and> 0 \<le> d
           \<and> d \<le> max 0 (max_delay policy) \<and> d \<le> max 0 (base_delay policy) * pow2 attempt"
proof -
  let ?t = "min (max 0 (max_delay policy)) (max 0 (base_delay policy) * pow2 attempt)"
  have "0 \<le> ?t" by simp
  then show ?thesis
    using assms uniform_bounds [of ?t u]
    by (auto simp: policy_backoff_def Let_def)
qed

lemma fgt_zero_cases: "fgt ra (Fin 0) \<longleftrightarrow> (\<exists>x > 0. ra = Fin x) \<or> ra = PInf"
  by (cases ra) auto

lemma fmin_retry_after:
  "fgt ra (Fin 0) \<Longrightarrow> fmin ra (Fin m) = Fin (case ra of Fin x \<Rightarrow> min x m | _ \<Rightarrow> m)"
  by (auto simp: fgt_zero_cases fmin_def)

lemma parse_retry_after_cases:
  "parse_retry_after v = None \<or> parse_retry_after v = Some PInf
   \<or> (\<exists>x \<ge> 0. parse_retry_after v = Some (Fin x))"
  by (auto simp: parse_retry_after_def fmax_zero_cases split: option.splits sum.splits pyfloat.splits)

lemma parse_retry_after_nat:
  "real n < float_overflow \<Longrightarrow> parse_retry_after (Some (nat_str n)) = Some (Fin (real n))"
  using nat_str_digits [of n]
  by (simp add: parse_retry_after_def strip_digits float_of_str_nat fmax_zero_cases)

text \<open>\<open>uniform\<close> never leaves the interval, so a delay is within the cap whatever its origin.\<close>

lemma backoff_finite:
  assumes "attempt < 1024" and "0 \<le> u" and "u < 1"
  shows "\<exists>d. backoff_seconds policy attempt ra u = Inr (Fin d) \<and> d \<le> max 0 (max_delay policy)"
proof (cases "\<exists>r. ra = Some r \<and> fgt r (Fin 0)")
  case True
  then obtain r where "ra = Some r" "fgt r (Fin 0)" by blast
  then show ?thesis
    by (auto simp: backoff_seconds_def fmin_retry_after split: pyfloat.splits)
next
  case False
  then have "backoff_seconds policy attempt ra u = policy_backoff policy attempt u"
    by (auto simp: backoff_seconds_def split: option.splits)
  then show ?thesis using policy_backoff_target [OF assms, of policy] by auto
qed

lemma policy_backoff_no_jitter:
  "\<not> jitter policy \<Longrightarrow> attempt < 1024 \<Longrightarrow>
   policy_backoff policy attempt u =
     Inr (Fin (min (max 0 (max_delay policy)) (max 0 (base_delay policy) * pow2 attempt)))"
  by (simp add: policy_backoff_def Let_def)

section \<open>Properties\<close>

text \<open>C23: A delay is a finite number within the cap, never negative when the cap is not, and
  without a positive \<open>Retry-After\<close> at most the exponential target of the attempt.\<close>

theorem backoff_within_cap:
  assumes "attempt < 1024" and "0 \<le> u" and "u < 1"
  shows "\<exists>d. backoff_seconds policy attempt ra u = Inr (Fin d) \<and> d \<le> max 0 (max_delay policy)
     \<and> (0 \<le> max_delay policy \<longrightarrow> 0 \<le> d)
     \<and> ((\<nexists>r. ra = Some r \<and> fgt r (Fin 0)) \<longrightarrow> d \<le> max 0 (base_delay policy) * pow2 attempt)"
proof (cases "\<exists>r. ra = Some r \<and> fgt r (Fin 0)")
  case True
  then obtain r where "ra = Some r" "fgt r (Fin 0)" by blast
  then show ?thesis
    by (auto simp: backoff_seconds_def fmin_retry_after fgt_zero_cases)
next
  case False
  then have "backoff_seconds policy attempt ra u = policy_backoff policy attempt u"
    by (auto simp: backoff_seconds_def split: option.splits)
  then show ?thesis using policy_backoff_target [OF assms, of policy] by auto
qed

theorem backoff_within_cap_witness:
  "\<exists>d. backoff_seconds default_RetryPolicy 3 None (1 / 2) = Inr (Fin d) \<and> 0 \<le> d \<and> d \<le> 4"
  using backoff_within_cap [of 3 "1 / 2" default_RetryPolicy None]
  by (auto simp: default_RetryPolicy_def pow2_def)

text \<open>A \<open>Retry-After\<close> header with a positive number of seconds decides the delay, capped at
  \<open>max_delay\<close>, whatever the attempt and the random draw.\<close>

lemma retry_after_honoured:
  assumes "0 < n" and "real n < float_overflow"
  shows "backoff_seconds policy attempt (parse_retry_after (Some (nat_str n))) u = Inr (Fin (min (real n) (max_delay policy)))"
  using assms by (simp add: parse_retry_after_nat backoff_seconds_def fmin_retry_after)

lemma retry_after_honoured_witness:
  "backoff_seconds default_RetryPolicy 7 (parse_retry_after (Some (nat_str 2))) (1 / 3) = Inr (Fin (min 2 (max_delay default_RetryPolicy)))"
  using retry_after_honoured [of 2 default_RetryPolicy 7 "1 / 3"] by (simp add: float_overflow_def)

end
