(* ===== verification/Observability.thy ===== *)
theory Observability
  imports Py_Text
begin

text \<open>
  \<open>observability.py\<close>: the counters and gauges and their snapshot. Rounding of the accumulated
  wait in the snapshot is to four decimals, ties to even. Of logging, the process-wide configuration
  and its guard are modelled; what structlog writes is not.
\<close>

record Metrics =
  requests_started :: int
  requests_succeeded :: int
  requests_failed_retryable :: int
  requests_failed_terminal :: int
  retries_performed :: int
  m_dedup_hits :: int
  dlq_pushes :: int
  rate_limit_waits :: int
  rate_limit_wait_seconds_total :: real
  breaker_short_circuits :: int
  breaker_state :: "(string, string) dict"
  queue_depth :: int
  queue_max_size :: int

definition new_Metrics :: "int \<Rightarrow> Metrics" where
  "new_Metrics qmax =
     \<lparr>requests_started = 0, requests_succeeded = 0, requests_failed_retryable = 0,
      requests_failed_terminal = 0, retries_performed = 0, m_dedup_hits = 0, dlq_pushes = 0,
      rate_limit_waits = 0, rate_limit_wait_seconds_total = 0, breaker_short_circuits = 0,
      breaker_state = [], queue_depth = 0, queue_max_size = qmax\<rparr>"

definition success_rate :: "Metrics \<Rightarrow> real" where
  "success_rate m =
     (if requests_started m \<noteq> 0 then of_int (requests_succeeded m) / of_int (requests_started m) else 0)"

text \<open>Values of the snapshot dictionary.\<close>

datatype metric = MInt int | MFloat real | MMap "(string, string) dict"

definition round4 :: "real \<Rightarrow> real" where
  "round4 x = of_int (round_half_even (x * 10000)) / 10000"

definition snapshot :: "Metrics \<Rightarrow> (string, metric) dict" where
  "snapshot m =
     [(''requests_started'', MInt (requests_started m)),
      (''requests_succeeded'', MInt (requests_succeeded m)),
      (''requests_failed_retryable'', MInt (requests_failed_retryable m)),
      (''requests_failed_terminal'', MInt (requests_failed_terminal m)),
      (''retries_performed'', MInt (retries_performed m)),
      (''dedup_hits'', MInt (m_dedup_hits m)),
      (''dlq_pushes'', MInt (dlq_pushes m)),
      (''rate_limit_waits'', MInt (rate_limit_waits m)),
      (''rate_limit_wait_seconds_total'', MFloat (round4 (rate_limit_wait_seconds_total m))),
      (''breaker_short_circuits'', MInt (breaker_short_circuits m)),
      (''breaker_state'', MMap (breaker_state m)),
      (''queue_depth'', MInt (queue_depth m)),
      (''queue_max_size'', MInt (queue_max_size m)),
      (''success_rate'', MFloat (success_rate m))]"

section \<open>The logging configuration\<close>

text \<open>The steps of the processor chain, in the order they run, and the stream lines go to.\<close>

datatype processor =
    Merge_Contextvars
  | Add_Log_Level
  | Time_Stamper string bool
  | Stack_Info_Renderer
  | Format_Exc_Info
  | JSON_Renderer

datatype stream = Sys_Stdout | Sys_Stderr

record log_config =
  lc_processors :: "processor list"
  lc_level :: int
  lc_stream :: stream
  lc_cache :: bool

text \<open>
  \<open>configure_logging\<close>: the state is the process-wide configuration, \<open>None\<close> before the first call.
\<close>

definition DEFAULT_LEVEL :: int where
  "DEFAULT_LEVEL = 20"

definition configure_logging :: "int \<Rightarrow> bool \<Rightarrow> log_config option \<Rightarrow> log_config option" where
  "configure_logging level force st =
     (if st \<noteq> None \<and> \<not> force then st
      else Some
        \<lparr>lc_processors =
           [Merge_Contextvars, Add_Log_Level, Time_Stamper ''iso'' True, Stack_Info_Renderer, Format_Exc_Info, JSON_Renderer],
         lc_level = level, lc_stream = Sys_Stderr, lc_cache = True\<rparr>)"

lemma configure_logging_once:
  "configure_logging level' False (configure_logging level force st) = configure_logging level force st"
  by (simp add: configure_logging_def)

lemma configure_logging_forced:
  "map_option lc_level (configure_logging level True st) = Some level"
  by (simp add: configure_logging_def)

text \<open>However often it is called, and if only it sets the configuration, logs are JSON on stderr.\<close>

definition json_stderr :: "log_config option \<Rightarrow> bool" where
  "json_stderr st \<longleftrightarrow> (case st of None \<Rightarrow> True | Some cfg \<Rightarrow> lc_stream cfg = Sys_Stderr \<and> last (lc_processors cfg) = JSON_Renderer)"

lemma configure_logging_stderr: "json_stderr st \<Longrightarrow> json_stderr (configure_logging level force st)"
  by (simp add: configure_logging_def json_stderr_def)

lemma configure_loggings_stderr: "json_stderr st \<Longrightarrow> json_stderr (fold (\<lambda>(level, force). configure_logging level force) calls st)"
  by (induction calls arbitrary: st) (auto intro: configure_logging_stderr)

end
