(* ===== verification/Client.thy ===== *)
theory Client
  imports Request_Queue Dedup Storage Circuit_Breaker Rate_Limiter Retry Observability
begin

text \<open>
  \<open>client.py\<close>: the orchestrator. A coroutine runs without interruption between two awaits that
  can suspend it, so each coroutine is modelled as a sequence of atomic segments: a caller inside
  \<open>request\<close>/\<open>_submit\<close> and a worker inside \<open>_handle\<close> are in one of the phases below, and a
  segment takes the phase and the client to the next. Segments end where the source awaits
  SQLite, the HTTP exchange, a token, a queue slot or a future. The clock reading, the random
  draw and what the HTTP exchange returns are arguments (\<open>env\<close>); \<open>aiohttp\<close> itself is not
  modelled.
\<close>

section \<open>The HTTP exchange\<close>

text \<open>
  What \<open>session.request\<close> and reading the body yield: status, decoded text and headers, or an
  exception of the transport.
\<close>

datatype http_outcome =
    HttpResponse int string "(string, string) dict"
  | HttpRaises exc

record http_call =
  hc_method :: string
  hc_url :: string
  hc_params :: "(string, pyval) dict option"
  hc_headers :: "(string, string) dict option"
  hc_json :: "pyval option"
  hc_data :: "pyval option"

definition outgoing :: "Request \<Rightarrow> http_call" where
  "outgoing req =
     \<lparr>hc_method = req_method req, hc_url = req_url req,
      hc_params = (if req_params req = [] then None else Some (req_params req)),
      hc_headers = (if req_headers req = [] then None else Some (req_headers req)),
      hc_json = (case req_body req of PyDict _ \<Rightarrow> Some (req_body req) | PyList _ \<Rightarrow> Some (req_body req) | _ \<Rightarrow> None),
      hc_data = (case req_body req of PyStr _ \<Rightarrow> Some (req_body req) | PyBytes _ \<Rightarrow> Some (req_body req) | _ \<Rightarrow> None)\<rparr>"

definition read_response :: "string \<Rightarrow> pyval" where
  "read_response txt =
     (if txt = [] then PyNone else case loads txt of Inr v \<Rightarrow> v | Inl _ \<Rightarrow> PyStr txt)"

definition execute_request :: "Request \<Rightarrow> int \<Rightarrow> http_outcome \<Rightarrow> exc + Response" where
  "execute_request req attempt outcome =
     (case outcome of
        HttpRaises e \<Rightarrow> Inl e
      | HttpResponse status txt headers \<Rightarrow>
          (let data = read_response txt in
           if 200 \<le> status \<and> status < 400 then
             Inr \<lparr>status_code = status, resp_data = data, resp_headers = headers, resp_error = None,
                  resp_retries = attempt, resp_request_id = req_request_id req\<rparr>
           else
             (let retry_after = parse_retry_after (dget headers ''Retry-After'');
                  message = ''HTTP '' @ int_str status in
              if is_retryable_status status
              then Inl (RetryableError message (Some status) retry_after)
              else Inl (NonRetryableError message (Some status) data))))"

section \<open>State\<close>

datatype worker =
    WIdle
  | WAcquire QueueItem string nat real
  | WExecute QueueItem string
  | WIncr QueueItem exc pyfloat
  | WPush QueueItem exc
  | WDelFail QueueItem exc
  | WDelOk QueueItem Response
  | WHook QueueItem Response
  | WDead pyerr

text \<open>
  Where the lifecycle coroutine is: none runs, \<open>start\<close> is recovering rows (or waits for a queue
  slot for one), \<open>stop\<close> waits in \<open>drain\<close> for the queue, was released by it, or waits for the
  reschedule tasks.
\<close>

datatype phase =
    PIdle
  | PRecover "InflightRow list"
  | PRecoverPut QueueItem "InflightRow list"
  | PJoin
  | PCheck
  | PGather

datatype call_error = Raised exc | PyRaised pyerr | CancelledError

datatype caller =
    CUpsert Request nat
  | CEnqueue Request nat
  | CAwait nat
  | CReturned Response
  | CFailed call_error

record Client =
  c_cfg :: ClientConfig
  c_session :: bool
  c_storage :: Storage
  c_queue :: RequestQueue
  c_dedup :: "Response InFlightRegistry"
  c_rate_limiter :: HostRateLimiter
  c_breakers :: HostCircuitBreakers
  c_workers :: "worker list"
  c_reschedules :: "(QueueItem \<times> pyfloat) list"
  c_stopping :: bool
  c_metrics :: Metrics
  c_hook :: bool
  c_callers :: "caller list"
  c_phase :: phase

record env =
  e_now :: real
  e_rand :: real
  e_http :: http_outcome

text \<open>The constructor; \<open>db\<close> is what the file at \<open>db_path\<close> holds.\<close>

definition new_Client :: "ClientConfig \<Rightarrow> database \<Rightarrow> Client res" where
  "new_Client cfg db =
     (case new_RequestQueue (max_size (queue_cfg cfg)) of
        Inl e \<Rightarrow> Inl e
      | Inr q \<Rightarrow>
          Inr \<lparr>c_cfg = cfg, c_session = False,
               c_storage = \<lparr>st_path = db_path cfg, st_db = db, st_open = False\<rparr>,
               c_queue = q, c_dedup = new_InFlightRegistry,
               c_rate_limiter = new_HostRateLimiter (rate_limit cfg),
               c_breakers = new_HostCircuitBreakers (circuit_breaker cfg),
               c_workers = [], c_reschedules = [], c_stopping = False,
               c_metrics = new_Metrics (max_size (queue_cfg cfg)), c_hook = False, c_callers = [],
               c_phase = PIdle\<rparr>)"

section \<open>request and _submit\<close>

definition mk_request ::
  "string \<Rightarrow> string \<Rightarrow> (string, pyval) dict option \<Rightarrow> (string, string) dict option \<Rightarrow> pyval \<Rightarrow> int
   \<Rightarrow> string \<Rightarrow> string \<Rightarrow> Request" where
  "mk_request m url params headers body prio rid created =
     \<lparr>req_method = upper m, req_url = url,
      req_headers = (case headers of Some h \<Rightarrow> h | None \<Rightarrow> []),
      req_params = (case params of Some p \<Rightarrow> p | None \<Rightarrow> []),
      req_body = body, req_priority = prio, req_request_id = rid, req_created_at = created\<rparr>"

text \<open>\<open>request\<close> up to the first await of \<open>_submit\<close>; the new caller is appended.\<close>

definition request_begin :: "Request \<Rightarrow> Client \<Rightarrow> Client" where
  "request_begin req c =
     (if \<not> c_session c then
        c\<lparr>c_callers := c_callers c @ [CFailed (PyRaised (RuntimeError ''client not started''))]\<rparr>
      else
        (let ((f, owner), d) = get_or_create (c_dedup c) (idempotency_key req) in
         c\<lparr>c_dedup := d, c_callers := c_callers c @ [if owner then CUpsert req f else CAwait f]\<rparr>))"

definition caller_persist :: "env \<Rightarrow> Request \<Rightarrow> nat \<Rightarrow> Client \<Rightarrow> caller \<times> Client" where
  "caller_persist ev req f c =
     (case upsert_inflight req STATUS_PENDING 0 None (e_now ev) (c_storage c) of
        Inl e \<Rightarrow> (CFailed (PyRaised e), c)
      | Inr (_, s) \<Rightarrow>
          (CEnqueue req f,
           c\<lparr>c_storage := s,
             c_metrics := (c_metrics c)\<lparr>requests_started := requests_started (c_metrics c) + 1\<rparr>\<rparr>))"

definition caller_enqueue :: "Request \<Rightarrow> nat \<Rightarrow> Client \<Rightarrow> (caller \<times> Client) option" where
  "caller_enqueue req f c =
     (case enqueue (c_queue c) \<lparr>qi_request = req, qi_attempt = 0\<rparr> of
        None \<Rightarrow> None
      | Some q \<Rightarrow> Some (CAwait f, c\<lparr>c_queue := q\<rparr>))"

definition caller_wake :: "nat \<Rightarrow> Client \<Rightarrow> (caller \<times> Client) option" where
  "caller_wake f c =
     (case fut_state (c_dedup c) f of
        Pending \<Rightarrow> None
      | Result r \<Rightarrow> Some (CReturned r, c)
      | Failed e \<Rightarrow> Some (CFailed (Raised e), c)
      | Cancelled \<Rightarrow> Some (CFailed CancelledError, c))"

text \<open>The next segment of a caller, \<open>None\<close> while it is blocked or when it has finished.\<close>

fun caller_segment :: "env \<Rightarrow> caller \<Rightarrow> Client \<Rightarrow> (caller \<times> Client) option" where
  "caller_segment ev (CUpsert req f) c = Some (caller_persist ev req f c)"
| "caller_segment ev (CEnqueue req f) c = caller_enqueue req f c"
| "caller_segment ev (CAwait f) c = caller_wake f c"
| "caller_segment ev (CReturned _) c = None"
| "caller_segment ev (CFailed _) c = None"

section \<open>_handle and _handle_retry_or_dlq\<close>

text \<open>The \<open>finally\<close> of \<open>_worker\<close>: \<open>task_done\<close>, then back to \<open>dequeue\<close>.\<close>

definition item_done :: "Client \<Rightarrow> worker \<times> Client" where
  "item_done c =
     (case task_done (c_queue c) of
        Inl e \<Rightarrow> (WDead e, c)
      | Inr q \<Rightarrow> (WIdle, c\<lparr>c_queue := q\<rparr>))"

text \<open>An exception that escapes \<open>_handle\<close>: \<open>task_done\<close> runs, then the worker task ends.\<close>

definition worker_dies :: "pyerr \<Rightarrow> Client \<Rightarrow> worker \<times> Client" where
  "worker_dies e c =
     (case task_done (c_queue c) of
        Inl e' \<Rightarrow> (WDead e', c)
      | Inr q \<Rightarrow> (WDead e, c\<lparr>c_queue := q\<rparr>))"

definition item_key :: "QueueItem \<Rightarrow> string" where
  "item_key item = idempotency_key (qi_request item)"

text \<open>\<open>_handle_retry_or_dlq\<close> up to its first await: the decision, the counters, the delay.\<close>

definition retry_or_dlq ::
  "env \<Rightarrow> QueueItem \<Rightarrow> exc \<Rightarrow> pyfloat option \<Rightarrow> Client \<Rightarrow> worker \<times> Client" where
  "retry_or_dlq ev item e retry_after c =
     (let m = c_metrics c;
          retryable = is_RetryableError e \<or> is_CircuitOpenError e in
      if retryable \<and> should_retry (retry (c_cfg c)) (qi_attempt item) then
        (let c' = c\<lparr>c_metrics := m\<lparr>requests_failed_retryable := requests_failed_retryable m + 1,
                                  retries_performed := retries_performed m + 1\<rparr>\<rparr>;
             inferred = (case retry_after of Some ra \<Rightarrow> Some ra | None \<Rightarrow> retry_after_of e) in
         case backoff_seconds (retry (c_cfg c)) (qi_attempt item) inferred (e_rand ev) of
           Inl err \<Rightarrow> worker_dies err c'
         | Inr delay \<Rightarrow> (WIncr item e delay, c'))
      else
        (WPush item e,
         c\<lparr>c_metrics := m\<lparr>requests_failed_terminal := requests_failed_terminal m + 1,
                          dlq_pushes := dlq_pushes m + 1\<rparr>\<rparr>))"

text \<open>After \<open>increment_retry\<close>: the reschedule task is created and the handler returns.\<close>

definition step_incr :: "env \<Rightarrow> QueueItem \<Rightarrow> exc \<Rightarrow> pyfloat \<Rightarrow> Client \<Rightarrow> worker \<times> Client" where
  "step_incr ev item e delay c =
     (case increment_retry (item_key item) (str_exc e) (e_now ev) (c_storage c) of
        Inl err \<Rightarrow> worker_dies err c
      | Inr (_, s) \<Rightarrow>
          item_done (c\<lparr>c_storage := s,
                       c_reschedules := c_reschedules c @ [(item\<lparr>qi_attempt := qi_attempt item + 1\<rparr>, delay)]\<rparr>))"

definition step_push :: "env \<Rightarrow> QueueItem \<Rightarrow> exc \<Rightarrow> Client \<Rightarrow> worker \<times> Client" where
  "step_push ev item e c =
     (case push_dead_letter (qi_request item) (str_exc e) (qi_attempt item) (e_now ev) (c_storage c) of
        Inl err \<Rightarrow> worker_dies err c
      | Inr (_, s) \<Rightarrow> (WDelFail item e, c\<lparr>c_storage := s\<rparr>))"

definition terminal_exc :: "exc \<Rightarrow> exc" where
  "terminal_exc e = (if is_NonRetryableError e then e else DeadLetterError (str_exc e) None PyNone)"

definition step_del_fail :: "QueueItem \<Rightarrow> exc \<Rightarrow> Client \<Rightarrow> worker \<times> Client" where
  "step_del_fail item e c =
     (case delete_inflight (item_key item) (c_storage c) of
        Inl err \<Rightarrow> worker_dies err c
      | Inr (_, s) \<Rightarrow>
          item_done (c\<lparr>c_storage := s, c_dedup := fail (c_dedup c) (item_key item) (terminal_exc e)\<rparr>))"

text \<open>
  The end of \<open>_handle\<close>, after the response hook if one is set: whatever it did, its errors are
  swallowed, and the future is resolved.
\<close>

definition step_hook :: "QueueItem \<Rightarrow> Response \<Rightarrow> Client \<Rightarrow> worker \<times> Client" where
  "step_hook item resp c = item_done (c\<lparr>c_dedup := resolve (c_dedup c) (item_key item) resp\<rparr>)"

definition step_del_ok :: "QueueItem \<Rightarrow> Response \<Rightarrow> Client \<Rightarrow> worker \<times> Client" where
  "step_del_ok item resp c =
     (case delete_inflight (item_key item) (c_storage c) of
        Inl err \<Rightarrow> worker_dies err c
      | Inr (_, s) \<Rightarrow>
          if c_hook c then (WHook item resp, c\<lparr>c_storage := s\<rparr>)
          else step_hook item resp (c\<lparr>c_storage := s\<rparr>))"

text \<open>\<open>_handle\<close> from its start to the wait for a token.\<close>

definition handle_gate :: "env \<Rightarrow> QueueItem \<Rightarrow> Client \<Rightarrow> worker \<times> Client" where
  "handle_gate ev item c0 =
     (case for_url (req_url (qi_request item)) (c_breakers c0) of
        Inl err \<Rightarrow> worker_dies err c0
      | Inr (host, brs) \<Rightarrow>
          (let (rej, cb) = before_call (e_now ev) (breaker_at brs host);
               c = c0\<lparr>c_breakers := update_breaker host (\<lambda>_. cb) brs\<rparr> in
           case rej of
             Some e \<Rightarrow>
               (let m = c_metrics c in
                retry_or_dlq ev item e (retry_after_of e)
                  (c\<lparr>c_metrics := m\<lparr>breaker_short_circuits := breaker_short_circuits m + 1\<rparr>\<rparr>))
           | None \<Rightarrow>
               (case bucket_for (req_url (qi_request item)) (e_now ev) (c_rate_limiter c) of
                  Inl err \<Rightarrow> worker_dies err c
                | Inr (i, l) \<Rightarrow> (WAcquire item host i 0, c\<lparr>c_rate_limiter := l\<rparr>))))"

text \<open>A round of the rate limiter; on success the wait is recorded and the exchange starts.\<close>

definition step_acquire :: "env \<Rightarrow> QueueItem \<Rightarrow> string \<Rightarrow> nat \<Rightarrow> real \<Rightarrow> Client \<Rightarrow> worker \<times> Client" where
  "step_acquire ev item host i wait c =
     (let (r, l) = bucket_step i (e_now ev) (c_rate_limiter c); m = c_metrics c in
      case r of
        MustWait w \<Rightarrow> (WAcquire item host i (wait + w), c\<lparr>c_rate_limiter := l\<rparr>)
      | Acquired \<Rightarrow>
          (WExecute item host,
           c\<lparr>c_rate_limiter := l,
             c_metrics := (if wait > 0
                           then m\<lparr>rate_limit_waits := rate_limit_waits m + 1,
                                  rate_limit_wait_seconds_total := rate_limit_wait_seconds_total m + wait\<rparr>
                           else m)\<rparr>))"

text \<open>The \<open>except\<close> clauses: whether the breaker is told, and the exception passed on.\<close>

definition classify :: "exc \<Rightarrow> bool \<times> exc" where
  "classify e =
     (let text = (if str_exc e \<noteq> [] then str_exc e else class_name e) in
      if is_RetryableError e \<or> is_NonRetryableError e then (\<not> is_throttle e, e)
      else if is_retryable_exception e then (True, RetryableError text None None)
      else (True, NonRetryableError text None PyNone))"

definition step_execute :: "env \<Rightarrow> QueueItem \<Rightarrow> string \<Rightarrow> Client \<Rightarrow> worker \<times> Client" where
  "step_execute ev item host c =
     (case execute_request (qi_request item) (qi_attempt item) (e_http ev) of
        Inl e0 \<Rightarrow>
          (let (tell, e) = classify e0;
               brs = (if tell then update_breaker host (on_failure (e_now ev)) (c_breakers c)
                      else c_breakers c) in
           retry_or_dlq ev item e None (c\<lparr>c_breakers := brs\<rparr>))
      | Inr resp \<Rightarrow>
          (let m = c_metrics c in
           (WDelOk item resp,
            c\<lparr>c_breakers := update_breaker host on_success (c_breakers c),
              c_metrics := m\<lparr>requests_succeeded := requests_succeeded m + 1\<rparr>\<rparr>)))"

text \<open>The next segment of a worker; an idle worker waits for an item.\<close>

fun worker_segment :: "env \<Rightarrow> worker \<Rightarrow> Client \<Rightarrow> (worker \<times> Client) option" where
  "worker_segment ev WIdle c =
     (case dequeue (c_queue c) of
        None \<Rightarrow> None
      | Some (item, q) \<Rightarrow> Some (handle_gate ev item (c\<lparr>c_queue := q\<rparr>)))"
| "worker_segment ev (WAcquire item host i wait) c = Some (step_acquire ev item host i wait c)"
| "worker_segment ev (WExecute item host) c = Some (step_execute ev item host c)"
| "worker_segment ev (WIncr item e delay) c = Some (step_incr ev item e delay c)"
| "worker_segment ev (WPush item e) c = Some (step_push ev item e c)"
| "worker_segment ev (WDelFail item e) c = Some (step_del_fail item e c)"
| "worker_segment ev (WDelOk item resp) c = Some (step_del_ok item resp c)"
| "worker_segment ev (WHook item resp) c = Some (step_hook item resp c)"
| "worker_segment ev (WDead _) c = None"

section \<open>_reschedule, start, drain, stop\<close>

definition remove_nth :: "nat \<Rightarrow> 'a list \<Rightarrow> 'a list" where
  "remove_nth k xs = take k xs @ drop (Suc k) xs"

text \<open>The end of the sleep of reschedule task \<open>k\<close>; \<open>None\<close> while the queue is full.\<close>

definition reschedule_fires :: "nat \<Rightarrow> Client \<Rightarrow> Client option" where
  "reschedule_fires k c =
     (let item = fst (c_reschedules c ! k);
          c' = c\<lparr>c_reschedules := remove_nth k (c_reschedules c)\<rparr> in
      if c_stopping c then Some c'
      else case enqueue (c_queue c) item of
             None \<Rightarrow> None
           | Some q \<Rightarrow> Some (c'\<lparr>c_queue := q\<rparr>))"

text \<open>\<open>start\<close> up to the rows of \<open>_recover_inflight\<close>, with the exception it raises there, if any.\<close>

definition start_begin :: "string \<Rightarrow> string \<Rightarrow> Client \<Rightarrow> pyerr option \<times> Client" where
  "start_begin fid t c =
     (if c_session c then (None, c)
      else
        (let c1 = c\<lparr>c_storage := st_open_conn (c_storage c), c_session := True\<rparr> in
         case list_inflight fid t (c_storage c1) of
           Inl e \<Rightarrow> (Some e, c1)
         | Inr rows \<Rightarrow> (None, c1\<lparr>c_phase := PRecover rows\<rparr>)))"

text \<open>One row of \<open>_recover_inflight\<close>.\<close>

definition recover_row :: "InflightRow \<Rightarrow> InflightRow list \<Rightarrow> Client \<Rightarrow> Client" where
  "recover_row row rows c =
     (let ((f, owner), d) = get_or_create (c_dedup c) (ir_idempotency_key row);
          c1 = c\<lparr>c_dedup := d\<rparr>; m = c_metrics c in
      if owner then
        (let c2 = c1\<lparr>c_metrics := m\<lparr>requests_started := requests_started m + 1\<rparr>\<rparr>;
             item = \<lparr>qi_request = ir_request row, qi_attempt = ir_retry_count row\<rparr> in
         case enqueue (c_queue c2) item of
           None \<Rightarrow> c2\<lparr>c_phase := PRecoverPut item rows\<rparr>
         | Some q \<Rightarrow> c2\<lparr>c_queue := q, c_phase := PRecover rows\<rparr>)
      else c1\<lparr>c_phase := PRecover rows\<rparr>)"

text \<open>The end of \<open>start\<close>: the workers come up.\<close>

definition start_finish :: "Client \<Rightarrow> Client" where
  "start_finish c =
     c\<lparr>c_stopping := False, c_workers := replicate (worker_count (queue_cfg (c_cfg c))) WIdle, c_phase := PIdle\<rparr>"

text \<open>The next segment of \<open>start\<close>, \<open>None\<close> while it waits for a queue slot.\<close>

definition start_segment :: "Client \<Rightarrow> Client option" where
  "start_segment c =
     (case c_phase c of
        PRecover [] \<Rightarrow> Some (start_finish c)
      | PRecover (row # rows) \<Rightarrow> Some (recover_row row rows c)
      | PRecoverPut item rows \<Rightarrow>
          (case enqueue (c_queue c) item of
             None \<Rightarrow> None
           | Some q \<Rightarrow> Some (c\<lparr>c_queue := q, c_phase := PRecover rows\<rparr>))
      | _ \<Rightarrow> None)"

definition stop_begin :: "Client \<Rightarrow> Client" where
  "stop_begin c = (if \<not> c_session c then c else c\<lparr>c_stopping := True, c_phase := PJoin\<rparr>)"

text \<open>
  Cancelling a worker: one that holds an item leaves \<open>_handle\<close> at its await and runs the
  \<open>finally\<close>; what it was waiting for has no effect.
\<close>

fun busy :: "worker \<Rightarrow> bool" where
  "busy WIdle = False"
| "busy (WDead _) = False"
| "busy _ = True"

fun cancel_workers :: "worker list \<Rightarrow> RequestQueue \<Rightarrow> RequestQueue" where
  "cancel_workers [] q = q"
| "cancel_workers (w # ws) q =
     cancel_workers ws (if busy w then (case task_done q of Inr q' \<Rightarrow> q' | Inl _ \<Rightarrow> q) else q)"

text \<open>The rest of \<open>stop\<close>, after \<open>drain\<close>: cancel the workers, close session and storage.\<close>

definition stop_finish :: "Client \<Rightarrow> Client" where
  "stop_finish c =
     c\<lparr>c_queue := cancel_workers (c_workers c) (c_queue c), c_workers := [], c_session := False,
       c_storage := st_close (c_storage c), c_phase := PIdle\<rparr>"

text \<open>
  The next segment of \<open>stop\<close>, the loop of \<open>drain\<close> included. A \<open>join\<close> that was released resumes
  later, when new items may have been put (\<open>PCheck\<close>). \<open>gather\<close> returns at a time left open.
\<close>

definition stop_segment :: "Client \<Rightarrow> Client option" where
  "stop_segment c =
     (case c_phase c of
        PJoin \<Rightarrow> if join_returns (c_queue c) then Some (c\<lparr>c_phase := PCheck\<rparr>) else None
      | PCheck \<Rightarrow> Some (if c_reschedules c = [] then stop_finish c else c\<lparr>c_phase := PGather\<rparr>)
      | PGather \<Rightarrow> Some (c\<lparr>c_phase := PJoin\<rparr>)
      | _ \<Rightarrow> None)"

text \<open>
  The context managers: entering is \<open>start\<close>, leaving is \<open>stop\<close> whatever the block ended with.
  \<open>hardened_client\<close> makes its client first; when that or \<open>start\<close> raises the block is not run.
\<close>

definition aenter :: "string \<Rightarrow> string \<Rightarrow> Client \<Rightarrow> pyerr option \<times> Client" where
  "aenter fid t c = start_begin fid t c"

definition aexit :: "Client \<Rightarrow> Client" where
  "aexit c = stop_begin c"

definition hardened_client :: "string \<Rightarrow> string \<Rightarrow> ClientConfig option \<Rightarrow> database \<Rightarrow> Client res" where
  "hardened_client fid t config db =
     (case new_Client (case config of Some cfg \<Rightarrow> cfg | None \<Rightarrow> default_ClientConfig) db of
        Inl e \<Rightarrow> Inl e
      | Inr c \<Rightarrow> (case start_begin fid t c of (Some e, _) \<Rightarrow> Inl e | (None, c') \<Rightarrow> Inr c'))"

text \<open>Whether a response hook is set; the hook itself is the user's.\<close>

definition set_response_hook :: "bool \<Rightarrow> Client \<Rightarrow> Client" where
  "set_response_hook hook c = c\<lparr>c_hook := hook\<rparr>"

definition client_metrics :: "Client \<Rightarrow> (string, metric) dict \<times> Client" where
  "client_metrics c =
     (let m = (c_metrics c)\<lparr>queue_depth := depth (c_queue c), m_dedup_hits := dedup_hits (c_dedup c),
                breaker_state := map (\<lambda>(h, s). (h, state_value s)) (breakers_snapshot (c_breakers c))\<rparr> in
      (snapshot m, c\<lparr>c_metrics := m\<rparr>))"

section \<open>Interleavings\<close>

text \<open>
  One segment of one coroutine; which one moves is up to the event loop. Requests are built from
  Python dictionaries and floats, which is what \<open>req_ok\<close> says. \<open>start\<close> and \<open>stop\<close> do not
  overlap (as under \<open>async with\<close>); the task of a caller is cancelled in \<open>Client_Cancel\<close> only. The last
  rule is the replay of \<open>dead_letter.py\<close>, which removes rows through the storage of the client.
\<close>

inductive client_step :: "Client \<Rightarrow> Client \<Rightarrow> bool" where
  request: "req_ok req \<Longrightarrow> client_step c (request_begin req c)"
| caller_moves: "i < length (c_callers c) \<Longrightarrow> caller_segment ev (c_callers c ! i) c = Some (p, c') \<Longrightarrow>
     client_step c (c'\<lparr>c_callers := (c_callers c')[i := p]\<rparr>)"
| worker_moves: "i < length (c_workers c) \<Longrightarrow> worker_segment ev (c_workers c ! i) c = Some (w, c') \<Longrightarrow>
     client_step c (c'\<lparr>c_workers := (c_workers c')[i := w]\<rparr>)"
| reschedule: "k < length (c_reschedules c) \<Longrightarrow> reschedule_fires k c = Some c' \<Longrightarrow> client_step c c'"
| starting: "client_step c (snd (start_begin fid t c))"
| start_moves: "start_segment c = Some c' \<Longrightarrow> client_step c c'"
| stopping: "c_phase c = PIdle \<Longrightarrow> client_step c (stop_begin c)"
| stop_moves: "stop_segment c = Some c' \<Longrightarrow> client_step c c'"
| reading_metrics: "client_step c (snd (client_metrics c))"
| hooking: "client_step c (set_response_hook hook c)"
| removing: "remove_dead_letter n (c_storage c) = Inr (u, s) \<Longrightarrow> client_step c (c\<lparr>c_storage := s\<rparr>)"

inductive_cases client_stepE: "client_step c c'"

end
