(* ===== verification/Ledger.thy ===== *)
theory Ledger
  imports Prelude "HOL-Library.Multiset"
begin

text \<open>
  The abstract specification of the orchestrator: a ledger of units of work. A job is a key and,
  once its inflight row exists, the attempt the row records. \<open>pend\<close> maps a key to the pending
  future its callers share, \<open>rows\<close> to the persisted retry count. The steps are the only ways in
  which the client may create, advance, finish or lose a job. The invariant is the contract of
  the deduplication and persistence layers: at most one job per key, each job with a pending
  future, each logged job with a row that records its attempt.
\<close>

type_synonym job = "string \<times> int option"

record ledger =
  jobs :: "job multiset"
  pend :: "string \<Rightarrow> nat option"
  rows :: "string \<Rightarrow> int option"

inductive ledger_step :: "ledger \<Rightarrow> ledger \<Rightarrow> bool" where
  l_stutter: "ledger_step L L"
| l_submit: "pend L k = None \<Longrightarrow>
     ledger_step L \<lparr>jobs = add_mset (k, None) (jobs L), pend = (pend L)(k \<mapsto> f), rows = rows L\<rparr>"
| l_recover: "pend L k = None \<Longrightarrow> rows L k = Some a \<Longrightarrow>
     ledger_step L \<lparr>jobs = add_mset (k, Some a) (jobs L), pend = (pend L)(k \<mapsto> f), rows = rows L\<rparr>"
| l_persist: "jobs L = add_mset (k, None) J \<Longrightarrow>
     ledger_step L \<lparr>jobs = add_mset (k, Some 0) J, pend = pend L, rows = (rows L)(k \<mapsto> 0)\<rparr>"
| l_bump: "jobs L = add_mset (k, Some a) J \<Longrightarrow>
     ledger_step L \<lparr>jobs = add_mset (k, Some (a + 1)) J, pend = pend L, rows = (rows L)(k \<mapsto> a + 1)\<rparr>"
| l_unlog: "jobs L = add_mset (k, Some a) J \<Longrightarrow>
     ledger_step L \<lparr>jobs = add_mset (k, None) J, pend = pend L, rows = (rows L)(k := None)\<rparr>"
| l_settle: "jobs L = add_mset (k, None) J \<Longrightarrow>
     ledger_step L \<lparr>jobs = J, pend = (pend L)(k := None), rows = rows L\<rparr>"
| l_close: "jobs L = add_mset (k, Some a) J \<Longrightarrow>
     ledger_step L \<lparr>jobs = J, pend = (pend L)(k := None), rows = (rows L)(k := None)\<rparr>"
| l_lose: "jobs L = add_mset j J \<Longrightarrow> ledger_step L \<lparr>jobs = J, pend = pend L, rows = rows L\<rparr>"

definition keys_of :: "ledger \<Rightarrow> string multiset" where
  "keys_of L = image_mset fst (jobs L)"

definition ledger_inv :: "ledger \<Rightarrow> bool" where
  "ledger_inv L \<longleftrightarrow>
     (\<forall>k. count (keys_of L) k \<le> 1) \<and>
     (\<forall>k x. (k, x) \<in># jobs L \<longrightarrow> pend L k \<noteq> None) \<and>
     (\<forall>k a. (k, Some a) \<in># jobs L \<longrightarrow> rows L k = Some a)"

text \<open>The same ledger with further jobs beside it.\<close>

definition frame :: "job multiset \<Rightarrow> ledger \<Rightarrow> ledger" where
  "frame F L = \<lparr>jobs = F + jobs L, pend = pend L, rows = rows L\<rparr>"

text \<open>A key whose future is pending although nobody works on it.\<close>

definition orphan :: "ledger \<Rightarrow> string \<Rightarrow> bool" where
  "orphan L k \<longleftrightarrow> pend L k \<noteq> None \<and> k \<notin># keys_of L"

section \<open>Facts\<close>

lemma frame_step: "ledger_step L L' \<Longrightarrow> ledger_step (frame F L) (frame F L')"
proof (induction rule: ledger_step.induct)
  case (l_submit L k f)
  then show ?case using ledger_step.l_submit [of "frame F L" k f] by (simp add: frame_def)
next
  case (l_recover L k a f)
  then show ?case using ledger_step.l_recover [of "frame F L" k a f] by (simp add: frame_def)
next
  case (l_persist L k J)
  then show ?case using ledger_step.l_persist [of "frame F L" k "F + J"] by (simp add: frame_def)
next
  case (l_bump L k a J)
  then show ?case using ledger_step.l_bump [of "frame F L" k a "F + J"] by (simp add: frame_def)
next
  case (l_unlog L k a J)
  then show ?case using ledger_step.l_unlog [of "frame F L" k a "F + J"] by (simp add: frame_def)
next
  case (l_settle L k J)
  then show ?case using ledger_step.l_settle [of "frame F L" k "F + J"] by (simp add: frame_def)
next
  case (l_close L k a J)
  then show ?case using ledger_step.l_close [of "frame F L" k a "F + J"] by (simp add: frame_def)
next
  case (l_lose L j J)
  then show ?case using ledger_step.l_lose [of "frame F L" j "F + J"] by (simp add: frame_def)
qed (rule ledger_step.l_stutter)

lemma job_key_mem: "(k, x) \<in># J \<Longrightarrow> k \<in># image_mset fst J"
  by force

lemma ledger_invD:
  assumes "ledger_inv L"
  shows "count (keys_of L) k \<le> 1" and "(k, x) \<in># jobs L \<Longrightarrow> pend L k \<noteq> None"
    and "(k, Some a) \<in># jobs L \<Longrightarrow> rows L k = Some a"
  using assms by (auto simp: ledger_inv_def)

lemma no_other_job:
  assumes "ledger_inv L" and "jobs L = add_mset (k, x) J"
  shows "(k, y) \<notin># J"
proof
  assume "(k, y) \<in># J"
  then have "k \<in># image_mset fst J" by (rule job_key_mem)
  then have "0 < count (image_mset fst J) k" by (simp only: count_greater_zero_iff)
  moreover have "count (keys_of L) k = Suc (count (image_mset fst J) k)"
    using assms(2) by (simp add: keys_of_def)
  ultimately show False using ledger_invD(1) [OF assms(1), of k] by linarith
qed

lemma rest_jobs:
  assumes "ledger_inv L" and "jobs L = add_mset (k, x) J" and "(k', y) \<in># J"
  shows "k' \<noteq> k" and "pend L k' \<noteq> None" and "y = Some a \<Longrightarrow> rows L k' = Some a"
proof -
  have mem: "(k', y) \<in># jobs L" using assms(2,3) by simp
  show "k' \<noteq> k" using no_other_job [OF assms(1,2)] assms(3) by auto
  show "pend L k' \<noteq> None" by (rule ledger_invD(2) [OF assms(1) mem])
  show "rows L k' = Some a" if "y = Some a" using ledger_invD(3) [OF assms(1)] mem that by blast
qed

lemma rest_count:
  assumes "ledger_inv L" and "jobs L = add_mset (k, x) J"
  shows "count (image_mset fst J) k' \<le> 1" and "count (image_mset fst (add_mset (k, y) J)) k' \<le> 1"
  using ledger_invD(1) [OF assms(1), of k'] assms(2) by (simp_all add: keys_of_def split: if_splits)

lemma no_job_unpended: "ledger_inv L \<Longrightarrow> pend L k = None \<Longrightarrow> count (keys_of L) k = 0"
  using ledger_invD(2) [of L k] by (auto simp: keys_of_def count_eq_zero_iff)

lemma ledger_inv_replace:
  assumes L: "ledger_inv L" "jobs L = add_mset (k, x) J"
    and r: "\<And>a. y = Some a \<Longrightarrow> r k = Some a" "\<And>k'. k' \<noteq> k \<Longrightarrow> r k' = rows L k'"
  shows "ledger_inv \<lparr>jobs = add_mset (k, y) J, pend = pend L, rows = r\<rparr>"
proof -
  have "pend L k' \<noteq> None" if "(k', z) \<in># add_mset (k, y) J" for k' z
    using that rest_jobs(2) [OF L] ledger_invD(2) [OF L(1), of k x] L(2) by auto
  moreover have "r k' = Some a" if "(k', Some a) \<in># add_mset (k, y) J" for k' a
    using that rest_jobs(1,3) [OF L] r by fastforce
  moreover have "count (image_mset fst (add_mset (k, y) J)) k' \<le> 1" for k'
    using rest_count(2) [OF L] .
  ultimately show ?thesis by (simp add: ledger_inv_def keys_of_def)
qed

lemma ledger_inv_remove:
  assumes L: "ledger_inv L" "jobs L = add_mset (k, x) J"
    and p: "\<And>k'. k' \<noteq> k \<Longrightarrow> p k' = pend L k'" and r: "\<And>k'. k' \<noteq> k \<Longrightarrow> r k' = rows L k'"
  shows "ledger_inv \<lparr>jobs = J, pend = p, rows = r\<rparr>"
proof -
  have "p k' \<noteq> None" if "(k', z) \<in># J" for k' z
    using rest_jobs(1,2) [OF L that] p by simp
  moreover have "r k' = Some a" if "(k', Some a) \<in># J" for k' a
    using rest_jobs(1) [OF L that] rest_jobs(3) [OF L that refl] r by simp
  moreover have "count (image_mset fst J) k' \<le> 1" for k'
    using rest_count(1) [OF L] .
  ultimately show ?thesis by (simp add: ledger_inv_def keys_of_def)
qed

lemma ledger_inv_add:
  assumes L: "ledger_inv L" "pend L k = None" and r: "\<And>a. x = Some a \<Longrightarrow> rows L k = Some a"
  shows "ledger_inv \<lparr>jobs = add_mset (k, x) (jobs L), pend = (pend L)(k \<mapsto> f), rows = rows L\<rparr>"
proof -
  have "count (image_mset fst (add_mset (k, x) (jobs L))) k' \<le> 1" for k'
    using no_job_unpended [OF L] ledger_invD(1) [OF L(1), of k'] by (auto simp: keys_of_def)
  moreover have "rows L k' = Some a" if "(k', Some a) \<in># add_mset (k, x) (jobs L)" for k' a
    using that r ledger_invD(3) [OF L(1)] by auto
  moreover have "((pend L)(k \<mapsto> f)) k' \<noteq> None" if "(k', z) \<in># add_mset (k, x) (jobs L)" for k' z
    using that ledger_invD(2) [OF L(1), of k' z] by auto
  ultimately show ?thesis by (simp add: ledger_inv_def keys_of_def)
qed

lemma ledger_step_inv: "ledger_inv L \<Longrightarrow> ledger_step L L' \<Longrightarrow> ledger_inv L'"
proof (rotate_tac, induction rule: ledger_step.induct)
  case (l_submit L k f)
  then show ?case by (auto intro: ledger_inv_add)
next
  case (l_recover L k a f)
  then show ?case by (auto intro: ledger_inv_add)
next
  case (l_persist L k J)
  then show ?case by (auto intro: ledger_inv_replace)
next
  case (l_bump L k a J)
  then show ?case by (auto intro: ledger_inv_replace)
next
  case (l_unlog L k a J)
  then show ?case by (auto intro: ledger_inv_replace)
next
  case (l_settle L k J)
  then show ?case using ledger_inv_remove [of L k None J "(pend L)(k := None)" "rows L"] by simp
next
  case (l_close L k a J)
  then show ?case
    using ledger_inv_remove [of L k "Some a" J "(pend L)(k := None)" "(rows L)(k := None)"] by simp
next
  case (l_lose L j J)
  then show ?case
    using ledger_inv_remove [of L "fst j" "snd j" J "pend L" "rows L"] by simp
qed

text \<open>
  Nobody can ever settle an orphan: the ledger gives it no job again, and its future and row
  stay as they are.
\<close>

lemma ledger_step_orphan:
  "orphan L k \<Longrightarrow> ledger_step L L' \<Longrightarrow> orphan L' k \<and> pend L' k = pend L k \<and> rows L' k = rows L k"
  by (rotate_tac, induction rule: ledger_step.induct) (auto simp: orphan_def keys_of_def)

interpretation led: invariant_system "\<lambda>L. jobs L = {#}" ledger_step ledger_inv
  by unfold_locales (simp_all add: ledger_step_inv, simp add: ledger_inv_def keys_of_def)

end
