(* ===== verification/Client_Flow.thy ===== *)
theory Client_Flow
  imports Client Ledger
begin

text \<open>
  The orchestrator refines the ledger. \<open>abs_client\<close> collects the jobs that callers, queue,
  workers and reschedule tasks hold, the pending futures and the persisted counts. Each segment
  of a coroutine is a step of the ledger on what that coroutine holds; the rest of the client is
  a frame around it.
\<close>

section \<open>Abstraction\<close>

definition item_job :: "QueueItem \<Rightarrow> job" where
  "item_job item = (item_key item, Some (qi_attempt item))"

fun caller_jobs :: "caller \<Rightarrow> job multiset" where
  "caller_jobs (CUpsert req _) = {#(idempotency_key req, None)#}"
| "caller_jobs (CEnqueue req _) = {#(idempotency_key req, Some 0)#}"
| "caller_jobs _ = {#}"

fun worker_jobs :: "worker \<Rightarrow> job multiset" where
  "worker_jobs WIdle = {#}"
| "worker_jobs (WDead _) = {#}"
| "worker_jobs (WHook item _) = {#(item_key item, None)#}"
| "worker_jobs (WAcquire item _ _ _) = {#item_job item#}"
| "worker_jobs (WExecute item _) = {#item_job item#}"
| "worker_jobs (WIncr item _ _) = {#item_job item#}"
| "worker_jobs (WPush item _) = {#item_job item#}"
| "worker_jobs (WDelFail item _) = {#item_job item#}"
| "worker_jobs (WDelOk item _) = {#item_job item#}"

definition flow :: "job multiset \<Rightarrow> Client \<Rightarrow> ledger" where
  "flow J c =
     \<lparr>jobs = J + mset (map item_job (q_items (c_queue c))) + mset (map (item_job \<circ> fst) (c_reschedules c)),
      pend = pending_for (c_dedup c),
      rows = row_count (st_db (c_storage c))\<rparr>"

fun phase_jobs :: "phase \<Rightarrow> job multiset" where
  "phase_jobs (PRecoverPut item _) = {#item_job item#}"
| "phase_jobs _ = {#}"

text \<open>What the tasks of the client hold.\<close>

definition task_jobs :: "Client \<Rightarrow> job multiset" where
  "task_jobs c = sum_list (map caller_jobs (c_callers c)) + sum_list (map worker_jobs (c_workers c))
     + phase_jobs (c_phase c)"

definition abs_client :: "Client \<Rightarrow> ledger" where
  "abs_client c = flow (task_jobs c) c"

definition same_tasks :: "Client \<Rightarrow> Client \<Rightarrow> bool" where
  "same_tasks c c' \<longleftrightarrow> c_callers c' = c_callers c \<and> c_workers c' = c_workers c \<and> c_phase c' = c_phase c"

section \<open>Bookkeeping\<close>

lemma sum_list_update_mset:
  fixes f :: "'a \<Rightarrow> 'b multiset"
  assumes "i < length xs"
  shows "\<exists>F. sum_list (map f xs) = F + f (xs ! i) \<and> (\<forall>y. sum_list (map f (xs[i := y])) = F + f y)"
proof -
  from assms have "xs = take i xs @ xs ! i # drop (Suc i) xs" by (rule id_take_nth_drop)
  then have "sum_list (map f xs) = sum_list (map f (take i xs)) + f (xs ! i) + sum_list (map f (drop (Suc i) xs))"
    by (metis (no_types, lifting) add.assoc list.simps(9) map_append sum_list.Cons sum_list_append)
  moreover have "sum_list (map f (xs[i := y])) = sum_list (map f (take i xs)) + f y + sum_list (map f (drop (Suc i) xs))" for y
    using assms by (simp add: upd_conv_take_nth_drop add.assoc)
  ultimately show ?thesis
    by (intro exI [of _ "sum_list (map f (take i xs)) + sum_list (map f (drop (Suc i) xs))"]) (auto simp: ac_simps)
qed

lemma sum_list_empty: "\<forall>x \<in> set xs. f x = {#} \<Longrightarrow> sum_list (map f xs) = {#}"
  by (induction xs) auto

lemma flow_frame: "flow (F + J) c = frame F (flow J c)"
  by (simp add: flow_def frame_def ac_simps)

lemma flow_cong:
  "q_items (c_queue c') = q_items (c_queue c) \<Longrightarrow> c_reschedules c' = c_reschedules c \<Longrightarrow>
   pending_for (c_dedup c') = pending_for (c_dedup c) \<Longrightarrow>
   row_count (st_db (c_storage c')) = row_count (st_db (c_storage c)) \<Longrightarrow> flow J c' = flow J c"
  by (simp add: flow_def)

lemma same_tasks_refl [simp]: "same_tasks c c"
  by (simp add: same_tasks_def)

text \<open>A segment that keeps the flow and either keeps or gives up the job it holds.\<close>

lemma keep_or_lose:
  assumes "J' = {#j#} \<or> J' = {#}" and "\<And>J. flow J c' = flow J c"
  shows "ledger_step (flow {#j#} c) (flow J' c')"
proof (cases "J' = {#j#}")
  case True
  then show ?thesis using assms(2) l_stutter by simp
next
  case False
  with assms have "flow J' c' = flow {#} c" by simp
  moreover have "ledger_step (flow {#j#} c) (flow {#} c)"
    using l_lose [of "flow {#j#} c" j "jobs (flow {#} c)"] by (simp add: flow_def)
  ultimately show ?thesis by simp
qed

section \<open>Worker segments\<close>

lemma task_done_items: "task_done q = Inr q' \<Longrightarrow> q_items q' = q_items q"
  by (auto simp: task_done_def split: if_splits)

lemma item_done_flow:
  assumes "item_done c = (w, c')"
  shows "worker_jobs w = {#} \<and> same_tasks c c' \<and> (\<forall>J. flow J c' = flow J c)"
  using assms by (auto simp: item_done_def same_tasks_def flow_def dest: task_done_items split: sum.splits)

lemma worker_dies_flow:
  assumes "worker_dies e c = (w, c')"
  shows "worker_jobs w = {#} \<and> same_tasks c c' \<and> (\<forall>J. flow J c' = flow J c)"
  using assms by (auto simp: worker_dies_def same_tasks_def flow_def dest: task_done_items split: sum.splits)

lemma retry_or_dlq_flow:
  assumes "retry_or_dlq ev item e ra c = (w, c')"
  shows "(worker_jobs w = {#item_job item#} \<or> worker_jobs w = {#}) \<and> same_tasks c c' \<and> (\<forall>J. flow J c' = flow J c)"
  using assms
  by (auto simp: retry_or_dlq_def Let_def flow_def same_tasks_def split: if_splits sum.splits
      dest!: worker_dies_flow)

definition simulates :: "worker \<Rightarrow> Client \<Rightarrow> worker \<Rightarrow> Client \<Rightarrow> bool" where
  "simulates w c w' c' \<longleftrightarrow> same_tasks c c' \<and> ledger_step (flow (worker_jobs w) c) (flow (worker_jobs w') c')"

lemma simulatesI:
  assumes "worker_jobs w = {#j#}" and "worker_jobs w' = {#j#} \<or> worker_jobs w' = {#}"
    and "same_tasks c c'" and "\<And>J. flow J c' = flow J c"
  shows "simulates w c w' c'"
  using assms keep_or_lose [of "worker_jobs w'" j c' c] by (auto simp: simulates_def)

lemma worker_dies_simulates:
  "worker_jobs w = {#j#} \<Longrightarrow> worker_dies e c = (w', c') \<Longrightarrow> simulates w c w' c'"
  by (rule simulatesI) (auto dest: worker_dies_flow)

lemma step_incr_simulates:
  assumes "step_incr ev item e d c = (w', c')"
    and row: "row_count (st_db (c_storage c)) (item_key item) = Some (qi_attempt item)"
  shows "simulates (WIncr item e d) c w' c'"
proof (cases "increment_retry (item_key item) (str_exc e) (e_now ev) (c_storage c)")
  case (Inl err)
  with assms(1) show ?thesis by (auto simp: step_incr_def intro: worker_dies_simulates)
next
  case (Inr ns)
  then obtain n s where ns: "increment_retry (item_key item) (str_exc e) (e_now ev) (c_storage c) = Inr (n, s)"
    by (cases ns) auto
  let ?item = "item\<lparr>qi_attempt := qi_attempt item + 1\<rparr>"
  let ?c = "c\<lparr>c_storage := s, c_reschedules := c_reschedules c @ [(?item, d)]\<rparr>"
  from assms(1) ns have w': "worker_jobs w' = {#}" "same_tasks ?c c'" "\<And>J. flow J c' = flow J ?c"
    by (auto simp: step_incr_def dest: item_done_flow)
  have "row_count (st_db s) = (row_count (st_db (c_storage c)))(item_key item \<mapsto> qi_attempt item + 1)"
    using bumped_count [OF ns] row by simp
  then have "flow {#} ?c = \<lparr>jobs = add_mset (item_key item, Some (qi_attempt item + 1)) (jobs (flow {#} c)),
     pend = pend (flow {#} c), rows = (rows (flow {#} c))(item_key item \<mapsto> qi_attempt item + 1)\<rparr>"
    by (simp add: flow_def item_job_def item_key_def)
  then have "ledger_step (flow {#item_job item#} c) (flow {#} ?c)"
    using l_bump [of "flow {#item_job item#} c" "item_key item" "qi_attempt item" "jobs (flow {#} c)"]
    by (simp add: flow_def item_job_def)
  with w' show ?thesis by (simp add: simulates_def same_tasks_def)
qed

lemma push_dead_letter_rows:
  assumes "push_dead_letter req err n now s = Inr (i, s')"
  shows "row_count (st_db s') = row_count (st_db s)"
  using assms
  by (auto simp: push_dead_letter_def run_sql_Inr sql_insert_dlq_def Let_def row_count_def find_inflight_def
      fun_eq_iff split: sum.splits)

lemma step_push_simulates: "step_push ev item e c = (w', c') \<Longrightarrow> simulates (WPush item e) c w' c'"
  by (rule simulatesI [of _ "item_job item"])
     (auto simp: step_push_def same_tasks_def flow_def push_dead_letter_rows
       dest: worker_dies_flow split: sum.splits)

text \<open>Deleting the row and settling the future in one segment closes the job.\<close>

lemma closing_simulates:
  assumes "worker_jobs w = {#item_job item#}" and us: "delete_inflight (item_key item) (c_storage c) = Inr (u, s)"
    and d: "item_done (c\<lparr>c_storage := s, c_dedup := settle (c_dedup c) (item_key item) out\<rparr>) = (w', c')"
    and reg: "reg_ok (c_dedup c)" and out: "out \<noteq> Pending"
  shows "simulates w c w' c'"
proof -
  let ?c = "c\<lparr>c_storage := s, c_dedup := settle (c_dedup c) (item_key item) out\<rparr>"
  from item_done_flow [OF d] have w': "worker_jobs w' = {#}" "same_tasks ?c c'" "\<And>J. flow J c' = flow J ?c"
    by auto
  have "flow {#} ?c = \<lparr>jobs = jobs (flow {#} c), pend = (pend (flow {#} c))(item_key item := None),
      rows = (rows (flow {#} c))(item_key item := None)\<rparr>"
    using dropped_count [OF us] reg out by (simp add: flow_def pending_for_settle)
  then have "ledger_step (flow {#item_job item#} c) (flow {#} ?c)"
    using l_close [of "flow {#item_job item#} c" "item_key item" "qi_attempt item" "jobs (flow {#} c)"]
    by (simp add: flow_def item_job_def)
  with w' assms(1) show ?thesis by (simp add: simulates_def same_tasks_def)
qed

lemma step_del_fail_simulates:
  assumes "step_del_fail item e c = (w', c')" and reg: "reg_ok (c_dedup c)"
  shows "simulates (WDelFail item e) c w' c'"
proof (cases "delete_inflight (item_key item) (c_storage c)")
  case (Inl err)
  with assms(1) show ?thesis by (auto simp: step_del_fail_def intro: worker_dies_simulates)
next
  case (Inr us)
  with assms show ?thesis
    by (cases us) (auto simp: step_del_fail_def fail_def intro: closing_simulates)
qed

lemma step_del_ok_simulates:
  assumes "step_del_ok item resp c = (w', c')" and reg: "reg_ok (c_dedup c)"
  shows "simulates (WDelOk item resp) c w' c'"
proof (cases "delete_inflight (item_key item) (c_storage c)")
  case (Inl err)
  with assms(1) show ?thesis by (auto simp: step_del_ok_def intro: worker_dies_simulates)
next
  case (Inr us)
  then obtain u s where us: "delete_inflight (item_key item) (c_storage c) = Inr (u, s)"
    by (cases us) auto
  show ?thesis
  proof (cases "c_hook c")
    case True
    then have "w' = WHook item resp" and c': "c' = c\<lparr>c_storage := s\<rparr>"
      using assms us by (auto simp: step_del_ok_def)
    moreover have "ledger_step (flow {#item_job item#} c) (flow {#(item_key item, None)#} c')"
      using l_unlog [of "flow {#item_job item#} c" "item_key item" "qi_attempt item" "jobs (flow {#} c)"]
        dropped_count [OF us] by (simp add: flow_def item_job_def c')
    ultimately show ?thesis by (simp add: simulates_def same_tasks_def)
  next
    case False
    with assms us show ?thesis by (auto simp: step_del_ok_def step_hook_def resolve_def intro: closing_simulates)
  qed
qed

lemma step_hook_simulates:
  assumes "step_hook item resp c = (w', c')" and reg: "reg_ok (c_dedup c)"
  shows "simulates (WHook item resp) c w' c'"
proof -
  let ?c = "c\<lparr>c_dedup := resolve (c_dedup c) (item_key item) resp\<rparr>"
  from assms(1) have w': "worker_jobs w' = {#}" "same_tasks ?c c'" "\<And>J. flow J c' = flow J ?c"
    by (auto simp: step_hook_def dest: item_done_flow)
  have "ledger_step (flow {#(item_key item, None)#} c) (flow {#} ?c)"
    using l_settle [of "flow {#(item_key item, None)#} c" "item_key item" "jobs (flow {#} c)"] reg
    by (simp add: flow_def resolve_def pending_for_settle)
  with w' show ?thesis by (simp add: simulates_def same_tasks_def)
qed

lemma step_execute_simulates:
  assumes "step_execute ev item host c = (w', c')"
  shows "simulates (WExecute item host) c w' c'"
proof (cases "execute_request (qi_request item) (qi_attempt item) (e_http ev)")
  case (Inl e0)
  then obtain brs e where "retry_or_dlq ev item e None (c\<lparr>c_breakers := brs\<rparr>) = (w', c')"
    using assms by (auto simp: step_execute_def split: prod.splits)
  from retry_or_dlq_flow [OF this] show ?thesis
    by (intro simulatesI [of _ "item_job item"]) (auto simp: same_tasks_def flow_def)
next
  case (Inr resp)
  with assms show ?thesis
    by (intro simulatesI [of _ "item_job item"]) (auto simp: step_execute_def same_tasks_def flow_def Let_def)
qed

lemma step_acquire_simulates:
  assumes "step_acquire ev item host i wait c = (w', c')"
  shows "simulates (WAcquire item host i wait) c w' c'"
  using assms
  by (intro simulatesI [of _ "item_job item"])
     (auto simp: step_acquire_def same_tasks_def flow_def Let_def split: prod.splits acquire_result.splits)

lemma handle_gate_flow:
  assumes "handle_gate ev item c = (w, c')"
  shows "(worker_jobs w = {#item_job item#} \<or> worker_jobs w = {#}) \<and> same_tasks c c' \<and> (\<forall>J. flow J c' = flow J c)"
  using assms
  by (auto simp: handle_gate_def Let_def same_tasks_def flow_def split: sum.splits prod.splits option.splits
      dest!: worker_dies_flow retry_or_dlq_flow)

lemma dequeue_flow:
  "dequeue (c_queue c) = Some (item, q) \<Longrightarrow> flow {#} c = flow {#item_job item#} (c\<lparr>c_queue := q\<rparr>)"
  by (auto simp: dequeue_Some flow_def)

lemma worker_segment_simulates:
  assumes "worker_segment ev w c = Some (w', c')" and "reg_ok (c_dedup c)"
    and "\<And>k a. (k, Some a) \<in># worker_jobs w \<Longrightarrow> row_count (st_db (c_storage c)) k = Some a"
  shows "simulates w c w' c'"
proof (cases w)
  case WIdle
  with assms(1) obtain item q where q: "dequeue (c_queue c) = Some (item, q)"
    and h: "handle_gate ev item (c\<lparr>c_queue := q\<rparr>) = (w', c')"
    by (auto split: option.splits)
  from handle_gate_flow [OF h] have "ledger_step (flow {#item_job item#} (c\<lparr>c_queue := q\<rparr>)) (flow (worker_jobs w') c')"
    by (intro keep_or_lose) auto
  with WIdle handle_gate_flow [OF h] show ?thesis
    by (simp add: simulates_def dequeue_flow [OF q]) (simp add: same_tasks_def)
next
  case (WIncr item e d)
  with assms show ?thesis
    by (auto intro!: step_incr_simulates simp: item_job_def)
qed (use assms in \<open>auto intro: step_acquire_simulates step_execute_simulates step_push_simulates
       step_del_fail_simulates step_del_ok_simulates step_hook_simulates\<close>)

section \<open>Caller segments\<close>

lemma caller_segment_simulates:
  assumes "caller_segment ev p c = Some (p', c')"
  shows "same_tasks c c' \<and> ledger_step (flow (caller_jobs p) c) (flow (caller_jobs p') c')"
proof (cases p)
  case (CUpsert req f)
  show ?thesis
  proof (cases "upsert_inflight req STATUS_PENDING 0 None (e_now ev) (c_storage c)")
    case (Inl e)
    with assms CUpsert have "p' = CFailed (PyRaised e)" "c' = c" by (auto simp: caller_persist_def)
    with CUpsert show ?thesis
      using keep_or_lose [of "{#}" "(idempotency_key req, None)" c c] by simp
  next
    case (Inr us)
    then obtain u s where us: "upsert_inflight req STATUS_PENDING 0 None (e_now ev) (c_storage c) = Inr (u, s)"
      by (cases us) auto
    with assms CUpsert have p': "p' = CEnqueue req f" and c': "same_tasks c c'"
      "c_storage c' = s" "c_queue c' = c_queue c" "c_reschedules c' = c_reschedules c" "c_dedup c' = c_dedup c"
      by (auto simp: caller_persist_def same_tasks_def)
    have "ledger_step (flow {#(idempotency_key req, None)#} c) (flow {#(idempotency_key req, Some 0)#} c')"
      using l_persist [of "flow {#(idempotency_key req, None)#} c" "idempotency_key req" "jobs (flow {#} c)"]
        persisted_count [OF us] by (simp add: flow_def c')
    with CUpsert p' c'(1) show ?thesis by simp
  qed
next
  case (CEnqueue req f)
  with assms show ?thesis
    by (auto simp: caller_enqueue_def enqueue_Some put_def same_tasks_def flow_def item_job_def item_key_def
        l_stutter split: option.splits)
next
  case (CAwait f)
  with assms show ?thesis
    by (auto simp: caller_wake_def l_stutter split: future.splits)
qed (use assms in auto)

section \<open>The other steps\<close>

lemma request_begin_simulates:
  assumes "reg_ok (c_dedup c)"
  shows "ledger_step (abs_client c) (abs_client (request_begin req c))"
proof (cases "c_session c")
  case False
  then show ?thesis by (simp add: request_begin_def abs_client_def task_jobs_def flow_def l_stutter)
next
  case True
  let ?k = "idempotency_key req"
  show ?thesis
  proof (cases "pending_for (c_dedup c) ?k")
    case (Some f)
    with True show ?thesis
      by (simp add: request_begin_def get_or_create_hit abs_client_def task_jobs_def flow_def l_stutter)
  next
    case None
    then have d: "get_or_create (c_dedup c) ?k = ((length (r_futures (c_dedup c)), True), snd (get_or_create (c_dedup c) ?k))"
      by (simp add: get_or_create_miss)
    have "abs_client (request_begin req c) =
        \<lparr>jobs = add_mset (?k, None) (jobs (abs_client c)),
         pend = (pend (abs_client c))(?k \<mapsto> length (r_futures (c_dedup c))), rows = rows (abs_client c)\<rparr>"
      using True pending_for_attach_miss [OF assms None]
      by (subst request_begin_def, subst d) (simp add: abs_client_def task_jobs_def flow_def)
    then show ?thesis using l_submit [of "abs_client c" ?k] None by (simp add: abs_client_def task_jobs_def flow_def)
  qed
qed

lemma mset_remove_nth: "k < length xs \<Longrightarrow> mset xs = add_mset (xs ! k) (mset (remove_nth k xs))"
  by (metis add_mset_add_single id_take_nth_drop mset.simps(2) mset_append remove_nth_def union_mset_add_mset_right)

lemma reschedule_fires_simulates:
  assumes "k < length (c_reschedules c)" and "reschedule_fires k c = Some c'"
  shows "ledger_step (abs_client c) (abs_client c')"
proof -
  let ?j = "item_job (fst (c_reschedules c ! k))" and ?c = "c\<lparr>c_reschedules := remove_nth k (c_reschedules c)\<rparr>"
  have split: "jobs (abs_client c) = add_mset ?j (jobs (abs_client ?c))"
    using mset_remove_nth [OF assms(1)] by (simp add: abs_client_def task_jobs_def flow_def)
  show ?thesis
  proof (cases "c_stopping c")
    case True
    with assms(2) have "c' = ?c" by (simp add: reschedule_fires_def)
    then show ?thesis using l_lose [OF split] by (simp add: abs_client_def task_jobs_def flow_def)
  next
    case False
    then obtain q where "enqueue (c_queue c) (fst (c_reschedules c ! k)) = Some q" "c' = ?c\<lparr>c_queue := q\<rparr>"
      using assms(2) by (auto simp: reschedule_fires_def Let_def split: option.splits)
    then have "abs_client c' = abs_client c"
      using split by (auto simp: enqueue_Some put_def abs_client_def task_jobs_def flow_def)
    then show ?thesis by (simp add: l_stutter)
  qed
qed

lemma worker_moves_simulates:
  assumes "i < length (c_workers c)" and "worker_segment ev (c_workers c ! i) c = Some (w, c')"
    and "reg_ok (c_dedup c)" and inv: "ledger_inv (abs_client c)"
  shows "ledger_step (abs_client c) (abs_client (c'\<lparr>c_workers := (c_workers c')[i := w]\<rparr>))"
proof -
  obtain F where F: "sum_list (map worker_jobs (c_workers c)) = F + worker_jobs (c_workers c ! i)"
    "\<And>y. sum_list (map worker_jobs ((c_workers c)[i := y])) = F + worker_jobs y"
    using sum_list_update_mset [OF assms(1), of worker_jobs] by blast
  let ?F = "sum_list (map caller_jobs (c_callers c)) + phase_jobs (c_phase c) + F"
  have abs: "abs_client c = frame ?F (flow (worker_jobs (c_workers c ! i)) c)"
    by (simp add: abs_client_def task_jobs_def F(1) flow_frame [symmetric] ac_simps)
  have "simulates (c_workers c ! i) c w c'"
  proof (rule worker_segment_simulates [OF assms(2,3)])
    fix k a assume "(k, Some a) \<in># worker_jobs (c_workers c ! i)"
    then have "(k, Some a) \<in># jobs (abs_client c)" by (simp add: abs frame_def flow_def)
    from ledger_invD(3) [OF inv this] show "row_count (st_db (c_storage c)) k = Some a"
      by (simp add: abs_client_def task_jobs_def flow_def)
  qed
  then have tasks: "same_tasks c c'" and st: "ledger_step (flow (worker_jobs (c_workers c ! i)) c) (flow (worker_jobs w) c')"
    by (auto simp: simulates_def)
  have "flow J (c'\<lparr>c_workers := ws\<rparr>) = flow J c'" for J ws by (simp add: flow_def)
  then have "abs_client (c'\<lparr>c_workers := (c_workers c')[i := w]\<rparr>) = frame ?F (flow (worker_jobs w) c')"
    using tasks by (simp add: abs_client_def task_jobs_def same_tasks_def F(2) flow_frame [symmetric] ac_simps)
  then show ?thesis using abs frame_step [OF st] by simp
qed

lemma caller_moves_simulates:
  assumes "i < length (c_callers c)" and "caller_segment ev (c_callers c ! i) c = Some (p, c')"
  shows "ledger_step (abs_client c) (abs_client (c'\<lparr>c_callers := (c_callers c')[i := p]\<rparr>))"
proof -
  obtain F where F: "sum_list (map caller_jobs (c_callers c)) = F + caller_jobs (c_callers c ! i)"
    "\<And>y. sum_list (map caller_jobs ((c_callers c)[i := y])) = F + caller_jobs y"
    using sum_list_update_mset [OF assms(1), of caller_jobs] by blast
  let ?F = "F + sum_list (map worker_jobs (c_workers c)) + phase_jobs (c_phase c)"
  have abs: "abs_client c = frame ?F (flow (caller_jobs (c_callers c ! i)) c)"
    by (simp add: abs_client_def task_jobs_def F(1) flow_frame [symmetric] ac_simps)
  from caller_segment_simulates [OF assms(2)]
  have tasks: "same_tasks c c'" and st: "ledger_step (flow (caller_jobs (c_callers c ! i)) c) (flow (caller_jobs p) c')"
    by auto
  have "flow J (c'\<lparr>c_callers := ps\<rparr>) = flow J c'" for J ps by (simp add: flow_def)
  then have "abs_client (c'\<lparr>c_callers := (c_callers c')[i := p]\<rparr>) = frame ?F (flow (caller_jobs p) c')"
    using tasks by (simp add: abs_client_def task_jobs_def same_tasks_def F(2) flow_frame [symmetric] ac_simps)
  then show ?thesis using abs frame_step [OF st] by simp
qed

end
