(* ===== verification/Storage_Inv.thy ===== *)
theory Storage_Inv
  imports Storage
begin

text \<open>
  The invariant of the database through every operation of \<open>storage.py\<close>: unique keys and
  identifiers, and rows whose payload decodes to the request that owns the key; and what the two
  listings return under it.
\<close>

section \<open>Well-formed logs\<close>

definition row_ok :: "inflight_rec \<Rightarrow> bool" where
  "row_ok r \<longleftrightarrow> (\<exists>req. req_ok req \<and> request_payload req = Inr (i_payload r)
     \<and> idempotency_key req = i_key r \<and> req_request_id req = i_request_id r)"

definition dlq_ok :: "dlq_rec \<Rightarrow> bool" where
  "dlq_ok r \<longleftrightarrow> (\<exists>req. req_ok req \<and> request_payload req = Inr (d_payload r)
     \<and> idempotency_key req = d_key r \<and> req_request_id req = d_request_id r)"

definition log_ok :: "database \<Rightarrow> bool" where
  "log_ok db \<longleftrightarrow> db_ok db \<and> (\<forall>r \<in> set (inflight_requests db). row_ok r)
     \<and> (\<forall>r \<in> set (dead_letter_queue db). dlq_ok r)"

lemma log_ok_empty: "log_ok empty_db"
  by (simp add: log_ok_def db_ok_def empty_db_def)

section \<open>Preservation\<close>

lemma map_if_same: "(\<And>r. g (f r) = g r) \<Longrightarrow> map g (map (\<lambda>r. if P r then f r else r) rs) = map g rs"
  by simp

lemma log_ok_update:
  assumes "log_ok db" and "\<And>r. i_key (f r) = i_key r" "\<And>r. i_payload (f r) = i_payload r"
    "\<And>r. i_request_id (f r) = i_request_id r"
  shows "log_ok (sql_update_inflight key f db)"
  using assms
  by (auto simp: log_ok_def db_ok_def sql_update_inflight_def row_ok_def comp_def if_distrib cong: if_cong)

lemma log_ok_upsert:
  assumes "log_ok db" and "row_ok row"
  shows "log_ok (sql_upsert row db)"
proof (cases "\<exists>r \<in> set (inflight_requests db). i_key r = i_key row")
  case True
  then have "sql_upsert row db = sql_update_inflight (i_key row)
      (\<lambda>r. r\<lparr>i_status := i_status row, i_retry_count := i_retry_count row,
             i_last_error := i_last_error row, i_updated_at := i_updated_at row\<rparr>) db"
    by (simp add: sql_upsert_def sql_update_inflight_def)
  with assms(1) show ?thesis by (simp add: log_ok_update)
next
  case False
  with assms show ?thesis by (auto simp: log_ok_def db_ok_def sql_upsert_def)
qed

lemma log_ok_delete: "log_ok db \<Longrightarrow> log_ok (sql_delete_inflight key db)"
  by (auto simp: log_ok_def db_ok_def sql_delete_inflight_def distinct_map_filter)

lemma log_ok_insert_dlq:
  assumes "log_ok db" and "\<And>i. d_id (mk i) = i" "\<And>i. dlq_ok (mk i)"
  shows "log_ok (snd (sql_insert_dlq mk db))"
  using assms by (fastforce simp: log_ok_def db_ok_def sql_insert_dlq_def Let_def)

text \<open>One write of the storage layer, or the opening or closing of the connection.\<close>

inductive storage_step :: "Storage \<Rightarrow> Storage \<Rightarrow> bool" where
  s_open: "storage_step s (st_open_conn s)"
| s_close: "storage_step s (st_close s)"
| s_upsert: "req_ok req \<Longrightarrow> upsert_inflight req st n err now s = Inr (u, s') \<Longrightarrow> storage_step s s'"
| s_mark: "mark_inflight_status key st opt_err now s = Inr (u, s') \<Longrightarrow> storage_step s s'"
| s_increment: "increment_retry key err_text now s = Inr (i, s') \<Longrightarrow> storage_step s s'"
| s_delete: "delete_inflight key s = Inr (u, s') \<Longrightarrow> storage_step s s'"
| s_push: "req_ok req \<Longrightarrow> push_dead_letter req err_text n now s = Inr (i, s') \<Longrightarrow> storage_step s s'"
| s_remove: "remove_dead_letter i s = Inr (u, s') \<Longrightarrow> storage_step s s'"
| s_purge: "purge_dead_letter s = Inr (i, s') \<Longrightarrow> storage_step s s'"

lemma upsert_log_ok:
  assumes "log_ok (st_db s)" and "req_ok req" and "upsert_inflight req st n err now s = Inr (u, s')"
  shows "log_ok (st_db s')"
  using assms
  by (auto simp: upsert_inflight_def run_sql_Inr row_ok_def intro!: log_ok_upsert split: sum.splits)

lemma push_log_ok:
  assumes "log_ok (st_db s)" and "req_ok req" and "push_dead_letter req err n now s = Inr (i, s')"
  shows "log_ok (st_db s')"
  using assms
  by (auto simp: push_dead_letter_def run_sql_Inr dlq_ok_def intro!: log_ok_insert_dlq split: sum.splits)

lemma increment_log_ok:
  assumes "log_ok (st_db s)" and "increment_retry key err now s = Inr (i, s')"
  shows "log_ok (st_db s')"
  using assms by (auto simp: increment_retry_def run_sql_Inr Let_def intro!: log_ok_update)

lemma mark_log_ok:
  assumes "log_ok (st_db s)" and "mark_inflight_status key st err now s = Inr (u, s')"
  shows "log_ok (st_db s')"
  using assms by (auto simp: mark_inflight_status_def run_sql_Inr intro!: log_ok_update)

lemma delete_log_ok:
  assumes "log_ok (st_db s)" and "delete_inflight key s = Inr (u, s')"
  shows "log_ok (st_db s')"
  using assms by (auto simp: delete_inflight_def run_sql_Inr intro!: log_ok_delete)

lemma remove_log_ok:
  assumes "log_ok (st_db s)" and "remove_dead_letter i s = Inr (u, s')"
  shows "log_ok (st_db s')"
  using assms by (auto simp: remove_dead_letter_def run_sql_Inr log_ok_def db_ok_def distinct_map_filter)

lemma purge_log_ok:
  assumes "log_ok (st_db s)" and "purge_dead_letter s = Inr (i, s')"
  shows "log_ok (st_db s')"
  using assms by (auto simp: purge_dead_letter_def run_sql_Inr log_ok_def db_ok_def)

lemma open_close_log_ok: "log_ok (st_db s) \<Longrightarrow> log_ok (st_db (st_open_conn s)) \<and> log_ok (st_db (st_close s))"
  by (auto simp: st_open_conn_def st_close_def log_ok_empty)

lemmas op_log_ok = upsert_log_ok push_log_ok increment_log_ok mark_log_ok delete_log_ok
  remove_log_ok purge_log_ok

interpretation sto: invariant_system "\<lambda>s. st_db s = empty_db" storage_step "\<lambda>s. log_ok (st_db s)"
proof unfold_locales
  fix s s' assume "log_ok (st_db s)" and "storage_step s s'"
  from this(2,1) show "log_ok (st_db s')"
    by (induction rule: storage_step.induct) (auto simp: open_close_log_ok intro: op_log_ok)
qed (simp add: log_ok_empty)

section \<open>Identifiers are never reused\<close>

lemma step_seq_mono:
  assumes "storage_step s s'" and "st_path s \<noteq> '':memory:''"
  shows "dlq_seq (st_db s) \<le> dlq_seq (st_db s') \<and> st_path s' = st_path s"
  using assms
proof (induction rule: storage_step.induct)
  case s_push
  then show ?case
    by (auto simp: push_dead_letter_def run_sql_Inr sql_insert_dlq_def Let_def split: sum.splits)
qed (auto simp: st_open_conn_def st_close_def upsert_inflight_def mark_inflight_status_def increment_retry_def
      delete_inflight_def remove_dead_letter_def purge_dead_letter_def run_sql_Inr sql_upsert_def Let_def
      sql_update_inflight_def sql_delete_inflight_def split: sum.splits)

lemma steps_seq_mono:
  "storage_step\<^sup>*\<^sup>* s s' \<Longrightarrow> st_path s \<noteq> '':memory:'' \<Longrightarrow>
   dlq_seq (st_db s) \<le> dlq_seq (st_db s') \<and> st_path s' = st_path s"
  by (induction rule: rtranclp_induct) (use step_seq_mono in fastforce)+

lemma push_id: "push_dead_letter req err n now s = Inr (i, s') \<Longrightarrow> i = dlq_seq (st_db s) + 1"
  by (auto simp: push_dead_letter_def run_sql_Inr sql_insert_dlq_def Let_def split: sum.splits)

section \<open>Listings\<close>

lemma decode_row_ok:
  "row_ok r \<Longrightarrow> \<exists>row. decode_inflight fid t r = Inr row \<and> idempotency_key (ir_request row) = i_key r
     \<and> ir_idempotency_key row = i_key r \<and> ir_retry_count row = i_retry_count r \<and> ir_created_at row = i_created_at r
     \<and> req_ok (ir_request row)"
  by (auto simp: row_ok_def decode_inflight_def parse_request_payload)

lemma collect_map_ok:
  assumes "\<And>x. x \<in> set xs \<Longrightarrow> \<exists>y. f x = Inr y \<and> P x y"
  shows "\<exists>ys. collect (map f xs) = Inr ys \<and> list_all2 P xs ys"
  using assms
proof (induction xs)
  case Nil
  then show ?case using collect_Inr [of "[]" "[]"] by auto
next
  case (Cons x xs)
  from Cons.prems [of x] obtain y where "f x = Inr y" "P x y" by auto
  moreover from Cons obtain ys where "collect (map f xs) = Inr ys" "list_all2 P xs ys" by auto
  ultimately show ?case
    using collect_Inr [of "map f (x # xs)" "y # ys"] collect_Inr [of "map f xs" ys]
    by (intro exI [of _ "y # ys"]) simp
qed

lemma find_unique: "distinct (map g rs) \<Longrightarrow> r \<in> set rs \<Longrightarrow> find (\<lambda>x. g x = g r) rs = Some r"
  by (induction rs) (auto simp: image_iff)

lemma row_count_member:
  "db_ok db \<Longrightarrow> r \<in> set (inflight_requests db) \<Longrightarrow> row_count db (i_key r) = Some (i_retry_count r)"
  by (simp add: row_count_def find_inflight_def db_ok_def find_unique)

definition listed :: "InflightRow list \<Rightarrow> database \<Rightarrow> bool" where
  "listed rs db \<longleftrightarrow> distinct (map ir_idempotency_key rs)
     \<and> (\<forall>row \<in> set rs. idempotency_key (ir_request row) = ir_idempotency_key row \<and> req_ok (ir_request row)
          \<and> row_count db (ir_idempotency_key row) = Some (ir_retry_count row))"

lemma list_inflight_ok:
  assumes ok: "log_ok (st_db s)" and "st_open s"
  shows "\<exists>rs. list_inflight fid t s = Inr rs \<and> listed rs (st_db s)
     \<and> map ir_idempotency_key rs = map i_key (sort_key i_created_at (inflight_requests (st_db s)))"
proof -
  let ?rows = "sort_key i_created_at (inflight_requests (st_db s))"
  let ?P = "\<lambda>r row. r \<in> set ?rows \<and> idempotency_key (ir_request row) = i_key r \<and> ir_idempotency_key row = i_key r
     \<and> ir_retry_count row = i_retry_count r \<and> req_ok (ir_request row)"
  have "\<exists>row. decode_inflight fid t r = Inr row \<and> ?P r row" if "r \<in> set ?rows" for r
    using that decode_row_ok [of r fid t] ok by (auto simp: log_ok_def)
  then obtain rs where rs: "collect (map (decode_inflight fid t) ?rows) = Inr rs" "list_all2 ?P ?rows rs"
    using collect_map_ok [of ?rows "decode_inflight fid t" ?P] by blast
  have keys: "map ir_idempotency_key rs = map i_key ?rows"
    using rs(2) by (intro nth_equalityI) (simp_all add: list_all2_conv_all_nth)
  have "distinct (map i_key (inflight_requests (st_db s)))" using ok by (simp add: log_ok_def db_ok_def)
  then have "distinct (map i_key ?rows)" by (simp add: distinct_map)
  moreover have "idempotency_key (ir_request row) = ir_idempotency_key row \<and> req_ok (ir_request row)
      \<and> row_count (st_db s) (ir_idempotency_key row) = Some (ir_retry_count row)" if "row \<in> set rs" for row
  proof -
    from that obtain i where i: "i < length rs" "row = rs ! i" by (auto simp: in_set_conv_nth)
    define r where "r = ?rows ! i"
    from rs(2) i have r: "?P r row" unfolding r_def by (simp only: list_all2_conv_all_nth)
    then show ?thesis using row_count_member [of "st_db s" r] ok by (auto simp: log_ok_def)
  qed
  ultimately have "listed rs (st_db s)" unfolding listed_def keys by blast
  with rs(1) keys assms(2) show ?thesis by (simp add: list_inflight_def)
qed

lemma decode_dlq_ok:
  "dlq_ok r \<Longrightarrow> \<exists>row. decode_dlq fid t r = Inr row \<and> idempotency_key (dl_request row) = d_key r
     \<and> dl_id row = d_id r \<and> dl_last_attempt row = d_last_attempt r \<and> dl_error row = d_error r
     \<and> dl_retry_count row = d_retry_count r"
  by (auto simp: dlq_ok_def decode_dlq_def parse_request_payload)

lemma set_sql_limit: "set (sql_limit n xs) \<subseteq> set xs"
  by (auto simp: sql_limit_def dest: in_set_takeD)

lemma sorted_sql_limit: "sorted (map f xs) \<Longrightarrow> sorted (map f (sql_limit n xs))"
  by (auto simp: sql_limit_def sorted_wrt_take simp flip: take_map)

lemma list_dead_letter_ok:
  assumes ok: "log_ok (st_db s)" and "st_open s"
  shows "\<exists>rs. list_dead_letter fid t limit s = Inr rs
     \<and> map dl_id rs = map d_id (sql_limit limit (sort_key (\<lambda>r. - d_last_attempt r) (dead_letter_queue (st_db s))))
     \<and> sorted (map (\<lambda>row. - dl_last_attempt row) rs)"
proof -
  let ?all = "sort_key (\<lambda>r. - d_last_attempt r) (dead_letter_queue (st_db s))"
  let ?rows = "sql_limit limit ?all"
  let ?P = "\<lambda>r row. dl_id row = d_id r \<and> dl_last_attempt row = d_last_attempt r"
  have "\<exists>row. decode_dlq fid t r = Inr row \<and> ?P r row" if "r \<in> set ?rows" for r
    using that set_sql_limit [of limit ?all] decode_dlq_ok [of r fid t] ok by (auto simp: log_ok_def)
  then obtain rs where rs: "collect (map (decode_dlq fid t) ?rows) = Inr rs" "list_all2 ?P ?rows rs"
    using collect_map_ok [of ?rows "decode_dlq fid t" ?P] by blast
  have ids: "map dl_id rs = map d_id ?rows"
    using rs(2) by (intro nth_equalityI) (simp_all add: list_all2_conv_all_nth)
  have "map (\<lambda>row. - dl_last_attempt row) rs = map (\<lambda>r. - d_last_attempt r) ?rows"
    using rs(2) by (intro nth_equalityI) (simp_all add: list_all2_conv_all_nth)
  moreover have "sorted (map (\<lambda>r. - d_last_attempt r) ?rows)" by (intro sorted_sql_limit) simp
  ultimately show ?thesis using rs(1) ids assms(2) by (simp add: list_dead_letter_def)
qed

lemma one_row: "distinct (map g rs) \<Longrightarrow> find (\<lambda>r. g r = k) rs = Some r \<Longrightarrow> filter (\<lambda>r. g r = k) rs = [r]"
proof (induction rs)
  case (Cons x rs)
  from Cons.prems(1) have "g x = k \<Longrightarrow> filter (\<lambda>r. g r = k) rs = []" by (auto simp: filter_empty_conv image_iff)
  with Cons show ?case by (auto split: if_splits)
qed simp

definition open_storage :: Storage where
  "open_storage = \<lparr>st_path = ''x.db'', st_db = empty_db, st_open = True\<rparr>"

lemma open_storage_reach: "reach (\<lambda>s. st_db s = empty_db) storage_step open_storage"
  by (rule reach_start) (simp add: open_storage_def)

lemma sample_payload: "\<exists>p. request_payload sample_request = Inr p"
  unfolding request_payload_defined by (simp add: sample_request_def)

lemma logged_storage:
  "\<exists>s. reach (\<lambda>s. st_db s = empty_db) storage_step s \<and> st_open s \<and> inflight_requests (st_db s) \<noteq> []"
proof -
  obtain p where p: "request_payload sample_request = Inr p" using sample_payload by blast
  then obtain s where s: "upsert_inflight sample_request STATUS_PENDING 0 None 5 open_storage = Inr ((), s)"
    "st_open s" "inflight_requests (st_db s) \<noteq> []"
    by (simp add: upsert_inflight_def run_sql_def open_storage_def sql_upsert_def empty_db_def)
  from open_storage_reach s_upsert [OF sample_request_ok s(1)] have "reach (\<lambda>s. st_db s = empty_db) storage_step s"
    by (rule reach_next)
  with s show ?thesis by blast
qed

section \<open>Properties\<close>

text \<open>C22: Whatever operations ran before, reading the log never fails: every row decodes to a
  well-formed request whose key and retry count are the row's, one row per key, oldest first.\<close>

theorem log_always_readable:
  assumes "reach (\<lambda>s. st_db s = empty_db) storage_step s" and "st_open s"
  shows "\<exists>rs. list_inflight fid t s = Inr rs \<and> listed rs (st_db s)
     \<and> map ir_idempotency_key rs = map i_key (sort_key i_created_at (inflight_requests (st_db s)))"
  using list_inflight_ok [OF sto.reach_inv [OF assms(1)] assms(2)] .

theorem log_always_readable_witness:
  "\<exists>s rs. inflight_requests (st_db s) \<noteq> [] \<and> list_inflight ''f'' ''1.5'' s = Inr rs \<and> listed rs (st_db s)"
  using logged_storage log_always_readable [of _ "''f''" "''1.5''"] by blast

text \<open>Persisting a request leaves exactly one row for its key, with the given count and status;
  a row that existed keeps its payload and creation time, and rows of other keys are untouched.\<close>

lemma upsert_one_row:
  assumes "log_ok (st_db s)" and "req_ok req" and "upsert_inflight req st n err now s = Inr (u, s')"
  shows "\<exists>r. filter (\<lambda>r. i_key r = idempotency_key req) (inflight_requests (st_db s')) = [r]
     \<and> i_retry_count r = n \<and> i_status r = st \<and> i_updated_at r = now
     \<and> (\<forall>old. find_inflight (st_db s) (idempotency_key req) = Some old \<longrightarrow>
          i_payload r = i_payload old \<and> i_created_at r = i_created_at old)
     \<and> (\<forall>k. k \<noteq> idempotency_key req \<longrightarrow> find_inflight (st_db s') k = find_inflight (st_db s) k)"
proof -
  obtain p where db: "st_db s' = sql_upsert \<lparr>i_key = idempotency_key req, i_request_id = req_request_id req, i_payload = p,
      i_status = st, i_retry_count = n, i_last_error = err, i_created_at = now, i_updated_at = now\<rparr> (st_db s)"
    using assms(3) by (auto simp: upsert_inflight_def run_sql_Inr split: sum.splits)
  obtain r where r: "find_inflight (st_db s') (idempotency_key req) = Some r"
    by (simp add: db find_inflight_upsert)
  have "distinct (map i_key (inflight_requests (st_db s')))"
    using upsert_log_ok [OF assms] by (simp add: log_ok_def db_ok_def)
  from one_row [OF this] r
  have "filter (\<lambda>r. i_key r = idempotency_key req) (inflight_requests (st_db s')) = [r]" by (simp add: find_inflight_def)
  then show ?thesis using r by (auto simp: db find_inflight_upsert split: option.splits)
qed

lemma upsert_one_row_witness:
  "\<exists>s' r. upsert_inflight sample_request STATUS_PENDING 0 None 5 open_storage = Inr ((), s')
     \<and> filter (\<lambda>r. i_key r = idempotency_key sample_request) (inflight_requests (st_db s')) = [r] \<and> i_updated_at r = 5"
proof -
  obtain p where p: "request_payload sample_request = Inr p" using sample_payload by blast
  then obtain s' where s': "upsert_inflight sample_request STATUS_PENDING 0 None 5 open_storage = Inr ((), s')"
    by (simp add: upsert_inflight_def run_sql_def open_storage_def)
  have "log_ok (st_db open_storage)" by (simp add: open_storage_def log_ok_empty)
  from upsert_one_row [OF this sample_request_ok s'] s' show ?thesis by blast
qed

text \<open>Dead-letter identifiers are never reused: a new entry's identifier is larger than that of
  every entry there ever was, removed or purged ones included.\<close>

lemma dlq_ids_fresh:
  assumes "reach (\<lambda>s. st_db s = empty_db) storage_step s" and "st_path s \<noteq> '':memory:''"
    and "r \<in> set (dead_letter_queue (st_db s))" and "storage_step\<^sup>*\<^sup>* s s'"
    and "push_dead_letter req err n now s' = Inr (i, s'')"
  shows "d_id r < i"
proof -
  have "d_id r \<le> dlq_seq (st_db s)" using sto.reach_inv [OF assms(1)] assms(3) by (auto simp: log_ok_def db_ok_def)
  also have "\<dots> \<le> dlq_seq (st_db s')" using steps_seq_mono [OF assms(4,2)] by simp
  also have "\<dots> < i" using push_id [OF assms(5)] by simp
  finally show ?thesis .
qed

lemma dlq_ids_fresh_witness:
  "\<exists>s1 s2 s3 i j r. push_dead_letter sample_request ''e'' 1 5 open_storage = Inr (i, s1)
     \<and> r \<in> set (dead_letter_queue (st_db s1)) \<and> purge_dead_letter s1 = Inr (1, s2)
     \<and> push_dead_letter sample_request ''e'' 2 6 s2 = Inr (j, s3) \<and> d_id r < j"
proof -
  obtain p where p: "request_payload sample_request = Inr p" using sample_payload by blast
  obtain s1 r where 1: "push_dead_letter sample_request ''e'' 1 5 open_storage = Inr (1, s1)"
    "st_open s1" "st_path s1 \<noteq> '':memory:''" "dead_letter_queue (st_db s1) = [r]"
    using p by (simp add: push_dead_letter_def run_sql_def sql_insert_dlq_def open_storage_def empty_db_def)
  then obtain s2 where 2: "purge_dead_letter s1 = Inr (1, s2)" "st_open s2"
    by (simp add: purge_dead_letter_def run_sql_def)
  then obtain j s3 where 3: "push_dead_letter sample_request ''e'' 2 6 s2 = Inr (j, s3)"
    using p by (simp add: push_dead_letter_def run_sql_def sql_insert_dlq_def Let_def)
  have "reach (\<lambda>s. st_db s = empty_db) storage_step s1"
    using open_storage_reach s_push [OF sample_request_ok 1(1)] by (rule reach_next)
  moreover have "storage_step\<^sup>*\<^sup>* s1 s2" using s_purge [OF 2(1)] by blast
  ultimately have "d_id r < j" using dlq_ids_fresh 1(3,4) 3 by fastforce
  with 1 2 3 show ?thesis by force
qed

end
