(* ===== verification/Client_Inv.thy ===== *)
theory Client_Inv
  imports Client_Flow Storage_Inv
begin

text \<open>
  The invariant of the client: the registry and the database are well formed, every request in
  flight is, the queue's counter of unfinished items is the queued plus the handled ones, and a
  client that recovers has no workers and lists rows whose counts are still the persisted ones.
  With it every step of the client is a step of the ledger, and the ledger's invariant holds of
  every reachable client.
\<close>

section \<open>Requests in flight\<close>

fun worker_reqs :: "worker \<Rightarrow> Request set" where
  "worker_reqs WIdle = {}"
| "worker_reqs (WDead _) = {}"
| "worker_reqs (WHook item _) = {qi_request item}"
| "worker_reqs (WAcquire item _ _ _) = {qi_request item}"
| "worker_reqs (WExecute item _) = {qi_request item}"
| "worker_reqs (WIncr item _ _) = {qi_request item}"
| "worker_reqs (WPush item _) = {qi_request item}"
| "worker_reqs (WDelFail item _) = {qi_request item}"
| "worker_reqs (WDelOk item _) = {qi_request item}"

fun caller_reqs :: "caller \<Rightarrow> Request set" where
  "caller_reqs (CUpsert req _) = {req}"
| "caller_reqs (CEnqueue req _) = {req}"
| "caller_reqs _ = {}"

fun phase_reqs :: "phase \<Rightarrow> Request set" where
  "phase_reqs (PRecover rs) = ir_request ` set rs"
| "phase_reqs (PRecoverPut item rs) = insert (qi_request item) (ir_request ` set rs)"
| "phase_reqs _ = {}"

definition pool :: "Client \<Rightarrow> Request set" where
  "pool c = qi_request ` set (q_items (c_queue c)) \<union> (qi_request \<circ> fst) ` set (c_reschedules c)"

definition held :: "Client \<Rightarrow> Request set" where
  "held c = pool c \<union> \<Union> (caller_reqs ` set (c_callers c)) \<union> \<Union> (worker_reqs ` set (c_workers c))
     \<union> phase_reqs (c_phase c)"

section \<open>The invariant\<close>

definition core_ok :: "Client \<Rightarrow> bool" where
  "core_ok c \<longleftrightarrow> reg_ok (c_dedup c) \<and> log_ok (st_db (c_storage c)) \<and> st_path (c_storage c) \<noteq> '':memory:''
     \<and> st_open (c_storage c) = c_session c"

definition fresh_rows :: "InflightRow list \<Rightarrow> Client \<Rightarrow> bool" where
  "fresh_rows rs c \<longleftrightarrow> distinct (map ir_idempotency_key rs)
     \<and> (\<forall>row \<in> set rs. idempotency_key (ir_request row) = ir_idempotency_key row
          \<and> (pending_for (c_dedup c) (ir_idempotency_key row) = None \<longrightarrow>
             row_count (st_db (c_storage c)) (ir_idempotency_key row) = Some (ir_retry_count row)))"

definition phase_ok :: "Client \<Rightarrow> bool" where
  "phase_ok c \<longleftrightarrow> (\<not> c_session c \<longrightarrow> c_workers c = [] \<and> c_phase c = PIdle)
     \<and> (case c_phase c of
          PRecover rs \<Rightarrow> c_workers c = [] \<and> fresh_rows rs c
        | PRecoverPut item rs \<Rightarrow> c_workers c = [] \<and> fresh_rows rs c
        | _ \<Rightarrow> True)"

definition busy_count :: "worker list \<Rightarrow> int" where
  "busy_count ws = int (length (filter busy ws))"

definition unfinished_ok :: "Client \<Rightarrow> bool" where
  "unfinished_ok c \<longleftrightarrow> q_unfinished (c_queue c) = depth (c_queue c) + busy_count (c_workers c)"

definition client_ok :: "Client \<Rightarrow> bool" where
  "client_ok c \<longleftrightarrow> core_ok c \<and> (\<forall>r \<in> held c. req_ok r) \<and> phase_ok c \<and> unfinished_ok c
     \<and> ledger_inv (abs_client c)"

section \<open>Segments of a worker\<close>

definition keeps :: "Client \<Rightarrow> Client \<Rightarrow> bool" where
  "keeps c c' \<longleftrightarrow> same_tasks c c' \<and> c_cfg c' = c_cfg c \<and> c_session c' = c_session c \<and> c_stopping c' = c_stopping c
     \<and> st_path (c_storage c') = st_path (c_storage c) \<and> st_open (c_storage c') = st_open (c_storage c)"

definition slack :: "worker \<Rightarrow> Client \<Rightarrow> int" where
  "slack w c = q_unfinished (c_queue c) - depth (c_queue c) - busy_count [w]"

definition seg_ok :: "worker \<Rightarrow> Client \<Rightarrow> worker \<Rightarrow> Client \<Rightarrow> bool" where
  "seg_ok w c w' c' \<longleftrightarrow> keeps c c' \<and> reg_ok (c_dedup c') \<and> log_ok (st_db (c_storage c'))
     \<and> worker_reqs w' \<union> pool c' \<subseteq> worker_reqs w \<union> pool c \<and> slack w' c' = slack w c"

definition seg_pre :: "worker \<Rightarrow> Client \<Rightarrow> bool" where
  "seg_pre w c \<longleftrightarrow> reg_ok (c_dedup c) \<and> log_ok (st_db (c_storage c)) \<and> (\<forall>r \<in> worker_reqs w. req_ok r)
     \<and> 0 \<le> slack w c"

lemma keeps_refl [simp]: "keeps c c"
  by (simp add: keeps_def)

lemma busy_count_simps [simp]:
  "busy_count [] = 0" "busy_count (w # ws) = (if busy w then 1 else 0) + busy_count ws"
  by (simp_all add: busy_count_def)

lemma busy_count_nonneg [simp]: "0 \<le> busy_count ws"
  by (simp add: busy_count_def)

lemma item_done_eq:
  "0 < q_unfinished (c_queue c) \<Longrightarrow>
   item_done c = (WIdle, c\<lparr>c_queue := (c_queue c)\<lparr>q_unfinished := q_unfinished (c_queue c) - 1\<rparr>\<rparr>)"
  by (simp add: item_done_def task_done_def)

lemma worker_dies_eq:
  "0 < q_unfinished (c_queue c) \<Longrightarrow>
   worker_dies e c = (WDead e, c\<lparr>c_queue := (c_queue c)\<lparr>q_unfinished := q_unfinished (c_queue c) - 1\<rparr>\<rparr>)"
  by (simp add: worker_dies_def task_done_def)

lemma slack_pos: "0 \<le> slack w c \<Longrightarrow> busy w \<Longrightarrow> 0 < q_unfinished (c_queue c)"
  by (simp add: slack_def depth_def)

lemmas seg_defs = seg_ok_def keeps_def same_tasks_def pool_def slack_def depth_def

lemma retry_or_dlq_seg:
  assumes "retry_or_dlq ev item e ra c = (w', c')" and "0 < q_unfinished (c_queue c)"
    and "reg_ok (c_dedup c)" "log_ok (st_db (c_storage c))"
  shows "seg_ok (WPush item e) c w' c'"
  using assms
  by (auto simp: retry_or_dlq_def Let_def worker_dies_eq seg_defs split: if_splits sum.splits)

text \<open>A busy phase may be replaced by another phase on the same item.\<close>

lemma seg_ok_phase:
  "seg_ok w c w' c' \<Longrightarrow> worker_reqs v = worker_reqs w \<Longrightarrow> busy v = busy w \<Longrightarrow> seg_ok v c w' c'"
  by (simp add: seg_ok_def slack_def)

lemma seg_ok_client:
  "seg_ok w c1 w' c' \<Longrightarrow> keeps c c1 \<Longrightarrow> pool c1 = pool c \<Longrightarrow> slack w c1 = slack w c \<Longrightarrow> seg_ok w c w' c'"
  by (simp add: seg_ok_def keeps_def same_tasks_def)

lemma handle_gate_seg:
  assumes "handle_gate ev item c = (w', c')" and "0 < q_unfinished (c_queue c)"
    and "reg_ok (c_dedup c)" "log_ok (st_db (c_storage c))"
  shows "seg_ok (WPush item e) c w' c'"
proof (cases "for_url (req_url (qi_request item)) (c_breakers c)")
  case (Inl err)
  with assms show ?thesis by (auto simp: handle_gate_def worker_dies_eq seg_defs)
next
  case (Inr hb)
  then obtain host brs where hb: "for_url (req_url (qi_request item)) (c_breakers c) = Inr (host, brs)"
    by (cases hb) auto
  obtain rej cb where bc: "before_call (e_now ev) (breaker_at brs host) = (rej, cb)" by fastforce
  let ?c = "c\<lparr>c_breakers := update_breaker host (\<lambda>_. cb) brs\<rparr>"
  show ?thesis
  proof (cases rej)
    case None
    with assms hb bc show ?thesis
      by (auto simp: handle_gate_def Let_def worker_dies_eq seg_defs split: sum.splits)
  next
    case (Some x)
    let ?m = "c_metrics c"
    let ?c1 = "?c\<lparr>c_metrics := ?m\<lparr>breaker_short_circuits := breaker_short_circuits ?m + 1\<rparr>\<rparr>"
    from assms(1) hb bc Some have "retry_or_dlq ev item x (retry_after_of x) ?c1 = (w', c')"
      by (simp add: handle_gate_def Let_def)
    then have "seg_ok (WPush item x) ?c1 w' c'" by (rule retry_or_dlq_seg) (use assms in auto)
    then have "seg_ok (WPush item e) ?c1 w' c'" by (rule seg_ok_phase) auto
    then show ?thesis by (rule seg_ok_client) (auto simp: seg_defs)
  qed
qed

lemma step_acquire_seg:
  assumes "step_acquire ev item host i wait c = (w', c')" and "seg_pre (WAcquire item host i wait) c"
  shows "seg_ok (WAcquire item host i wait) c w' c'"
  using assms
  by (auto simp: step_acquire_def Let_def seg_defs seg_pre_def split: prod.splits acquire_result.splits)

lemma step_execute_seg:
  assumes "step_execute ev item host c = (w', c')" and pre: "seg_pre (WExecute item host) c"
  shows "seg_ok (WExecute item host) c w' c'"
proof (cases "execute_request (qi_request item) (qi_attempt item) (e_http ev)")
  case (Inl e0)
  then obtain brs e where "retry_or_dlq ev item e None (c\<lparr>c_breakers := brs\<rparr>) = (w', c')"
    using assms by (auto simp: step_execute_def split: prod.splits)
  then have "seg_ok (WPush item e) (c\<lparr>c_breakers := brs\<rparr>) w' c'"
    by (rule retry_or_dlq_seg) (use pre slack_pos in \<open>auto simp: seg_pre_def\<close>)
  then have "seg_ok (WPush item e) c w' c'" by (rule seg_ok_client) (auto simp: seg_defs)
  then show ?thesis by (rule seg_ok_phase) auto
next
  case (Inr resp)
  with assms show ?thesis by (auto simp: step_execute_def Let_def seg_defs seg_pre_def)
qed

lemma step_incr_seg:
  assumes "step_incr ev item e d c = (w', c')" and pre: "seg_pre (WIncr item e d) c"
  shows "seg_ok (WIncr item e d) c w' c'"
proof -
  have pos: "0 < q_unfinished (c_queue c)" using pre slack_pos by (auto simp: seg_pre_def)
  show ?thesis
  proof (cases "increment_retry (item_key item) (str_exc e) (e_now ev) (c_storage c)")
    case (Inl err)
    with assms pos show ?thesis by (auto simp: step_incr_def worker_dies_eq seg_defs seg_pre_def)
  next
    case (Inr ns)
    then obtain n s where ns: "increment_retry (item_key item) (str_exc e) (e_now ev) (c_storage c) = Inr (n, s)"
      by (cases ns) auto
    have "log_ok (st_db s)" using increment_log_ok [OF _ ns] pre by (simp add: seg_pre_def)
    moreover obtain db where "s = (c_storage c)\<lparr>st_db := db\<rparr>" using increment_retry_Inr [OF ns] by metis
    ultimately show ?thesis using assms ns pos by (auto simp: step_incr_def item_done_eq seg_defs seg_pre_def) force
  qed
qed

lemma push_dead_letter_Inr:
  "push_dead_letter req err n now s = Inr (i, s') \<Longrightarrow> \<exists>db. s' = s\<lparr>st_db := db\<rparr>"
  by (auto simp: push_dead_letter_def run_sql_Inr split: sum.splits)

lemma step_push_seg:
  assumes "step_push ev item e c = (w', c')" and pre: "seg_pre (WPush item e) c"
  shows "seg_ok (WPush item e) c w' c'"
proof -
  have pos: "0 < q_unfinished (c_queue c)" using pre slack_pos by (auto simp: seg_pre_def)
  show ?thesis
  proof (cases "push_dead_letter (qi_request item) (str_exc e) (qi_attempt item) (e_now ev) (c_storage c)")
    case (Inl err)
    with assms pos show ?thesis by (auto simp: step_push_def worker_dies_eq seg_defs seg_pre_def)
  next
    case (Inr ns)
    then obtain n s where
      ns: "push_dead_letter (qi_request item) (str_exc e) (qi_attempt item) (e_now ev) (c_storage c) = Inr (n, s)"
      by (cases ns) auto
    have "log_ok (st_db s)" using push_log_ok [OF _ _ ns] pre by (simp add: seg_pre_def)
    moreover obtain db where "s = (c_storage c)\<lparr>st_db := db\<rparr>" using push_dead_letter_Inr [OF ns] by blast
    ultimately show ?thesis using assms ns pos by (auto simp: step_push_def seg_defs seg_pre_def)
  qed
qed

lemma step_del_fail_seg:
  assumes "step_del_fail item e c = (w', c')" and pre: "seg_pre (WDelFail item e) c"
  shows "seg_ok (WDelFail item e) c w' c'"
proof -
  have pos: "0 < q_unfinished (c_queue c)" using pre slack_pos by (auto simp: seg_pre_def)
  show ?thesis
  proof (cases "delete_inflight (item_key item) (c_storage c)")
    case (Inl err)
    with assms pos show ?thesis by (auto simp: step_del_fail_def worker_dies_eq seg_defs seg_pre_def)
  next
    case (Inr us)
    then obtain u s where us: "delete_inflight (item_key item) (c_storage c) = Inr (u, s)"
      by (cases us) auto
    have "log_ok (st_db s)" using delete_log_ok [OF _ us] pre by (simp add: seg_pre_def)
    moreover obtain db where "s = (c_storage c)\<lparr>st_db := db\<rparr>" using delete_inflight_Inr [OF us] by metis
    ultimately show ?thesis
      using assms us pos by (auto simp: step_del_fail_def item_done_eq seg_defs seg_pre_def fail_def reg_ok_settle)
  qed
qed

lemma step_del_ok_seg:
  assumes "step_del_ok item resp c = (w', c')" and pre: "seg_pre (WDelOk item resp) c"
  shows "seg_ok (WDelOk item resp) c w' c'"
proof -
  have pos: "0 < q_unfinished (c_queue c)" using pre slack_pos by (auto simp: seg_pre_def)
  show ?thesis
  proof (cases "delete_inflight (item_key item) (c_storage c)")
    case (Inl err)
    with assms pos show ?thesis by (auto simp: step_del_ok_def worker_dies_eq seg_defs seg_pre_def)
  next
    case (Inr us)
    then obtain u s where us: "delete_inflight (item_key item) (c_storage c) = Inr (u, s)"
      by (cases us) auto
    have "log_ok (st_db s)" using delete_log_ok [OF _ us] pre by (simp add: seg_pre_def)
    moreover obtain db where "s = (c_storage c)\<lparr>st_db := db\<rparr>" using delete_inflight_Inr [OF us] by metis
    ultimately show ?thesis
      using assms us pos
      by (auto simp: step_del_ok_def step_hook_def item_done_eq seg_defs seg_pre_def resolve_def reg_ok_settle split: if_splits)
  qed
qed

lemma step_hook_seg:
  assumes "step_hook item resp c = (w', c')" and pre: "seg_pre (WHook item resp) c"
  shows "seg_ok (WHook item resp) c w' c'"
proof -
  have "0 < q_unfinished (c_queue c)" using pre slack_pos by (auto simp: seg_pre_def)
  with assms show ?thesis
    by (auto simp: step_hook_def item_done_eq seg_defs seg_pre_def resolve_def reg_ok_settle)
qed

lemma worker_segment_seg:
  assumes "worker_segment ev w c = Some (w', c')" and "seg_pre w c"
  shows "seg_ok w c w' c'"
proof (cases w)
  case WIdle
  with assms(1) obtain item q where q: "dequeue (c_queue c) = Some (item, q)"
    and h: "handle_gate ev item (c\<lparr>c_queue := q\<rparr>) = (w', c')"
    by (auto split: option.splits)
  have pos: "0 < q_unfinished (c_queue (c\<lparr>c_queue := q\<rparr>))"
    using q assms(2) WIdle by (auto simp: dequeue_Some seg_pre_def slack_def depth_def)
  obtain e :: exc where True by simp
  from handle_gate_seg [OF h pos] assms(2) have "seg_ok (WPush item e) (c\<lparr>c_queue := q\<rparr>) w' c'"
    by (simp add: seg_pre_def)
  with WIdle q show ?thesis by (auto simp: seg_defs dequeue_Some)
qed (use assms in \<open>auto intro: step_acquire_seg step_execute_seg step_incr_seg step_push_seg
       step_del_fail_seg step_del_ok_seg step_hook_seg\<close>)

end
