(* ===== verification/Client_Reach.thy ===== *)
theory Client_Reach
  imports Client_Inv
begin

text \<open>
  Every step of the client keeps the invariant and is a sequence of ledger steps. The
  interpretation \<open>cl\<close> of \<open>invariant_system\<close> gives both for all reachable clients.
\<close>

section \<open>Bookkeeping\<close>

lemma busy_count_update:
  "i < length ws \<Longrightarrow> busy_count (ws[i := w]) = busy_count ws - busy_count [ws ! i] + busy_count [w]"
proof (induction ws arbitrary: i)
  case (Cons v ws)
  then show ?case by (cases i) auto
qed simp

lemma busy_count_member: "i < length ws \<Longrightarrow> busy_count [ws ! i] \<le> busy_count ws"
proof (induction ws arbitrary: i)
  case (Cons v ws)
  show ?case
  proof (cases i)
    case (Suc j)
    with Cons.prems Cons.IH [of j] show ?thesis by (auto split: if_splits)
  qed simp
qed simp

lemma client_okD:
  assumes "client_ok c"
  shows "reg_ok (c_dedup c)" and "log_ok (st_db (c_storage c))" and "st_path (c_storage c) \<noteq> '':memory:''"
    and "st_open (c_storage c) = c_session c" and "\<And>r. r \<in> held c \<Longrightarrow> req_ok r"
    and "ledger_inv (abs_client c)" and "phase_ok c" and "unfinished_ok c" and "core_ok c"
  using assms by (auto simp: client_ok_def core_ok_def)

lemma held_cases:
  "pool c \<subseteq> held c" "i < length (c_workers c) \<Longrightarrow> worker_reqs (c_workers c ! i) \<subseteq> held c"
  "i < length (c_callers c) \<Longrightarrow> caller_reqs (c_callers c ! i) \<subseteq> held c"
  "phase_reqs (c_phase c) \<subseteq> held c"
  by (auto simp: held_def dest!: nth_mem)

lemma set_update_Union: "\<Union> (f ` set (xs[i := y])) \<subseteq> \<Union> (f ` set xs) \<union> f y"
  using set_update_subset_insert [of xs i y] by auto

lemma worker_job_row:
  assumes "client_ok c" and "(k, Some a) \<in># jobs (abs_client c)"
  shows "row_count (st_db (c_storage c)) k = Some a"
  using ledger_invD(3) [OF client_okD(6) [OF assms(1)] assms(2)] by (simp add: abs_client_def flow_def)

section \<open>Workers\<close>

lemma seg_pre_worker:
  assumes "client_ok c" and "i < length (c_workers c)"
  shows "seg_pre (c_workers c ! i) c"
proof -
  have "\<forall>r \<in> worker_reqs (c_workers c ! i). req_ok r"
    using held_cases(2) [OF assms(2)] client_okD(5) [OF assms(1)] by blast
  moreover have "0 \<le> slack (c_workers c ! i) c"
    using busy_count_member [OF assms(2)] client_okD(8) [OF assms(1)] by (simp add: slack_def unfinished_ok_def)
  ultimately show ?thesis using client_okD(1,2) [OF assms(1)] by (simp add: seg_pre_def)
qed

lemma worker_moves_ok:
  assumes ok: "client_ok c" and i: "i < length (c_workers c)"
    and seg: "worker_segment ev (c_workers c ! i) c = Some (w, c')"
  shows "client_ok (c'\<lparr>c_workers := (c_workers c')[i := w]\<rparr>)" (is "client_ok ?c")
proof -
  have s: "seg_ok (c_workers c ! i) c w c'" by (rule worker_segment_seg [OF seg seg_pre_worker [OF ok i]])
  then have k: "keeps c c'" and reg: "reg_ok (c_dedup c')" "log_ok (st_db (c_storage c'))"
    and h: "worker_reqs w \<union> pool c' \<subseteq> worker_reqs (c_workers c ! i) \<union> pool c"
    and sl: "slack w c' = slack (c_workers c ! i) c" by (auto simp: seg_ok_def)
  have "core_ok ?c" using client_okD(9) [OF ok] k reg by (simp add: core_ok_def keeps_def)
  moreover have "unfinished_ok ?c"
    using client_okD(8) [OF ok] sl busy_count_update [OF i, of w] k
    by (simp add: unfinished_ok_def slack_def keeps_def same_tasks_def)
  moreover have "phase_ok ?c"
    using client_okD(7) [OF ok] k i by (auto simp: phase_ok_def keeps_def same_tasks_def split: phase.splits)
  moreover have "held ?c \<subseteq> held c"
  proof -
    have "pool ?c = pool c'" by (simp add: pool_def)
    then have "held ?c \<subseteq> pool c' \<union> \<Union> (caller_reqs ` set (c_callers c)) \<union> \<Union> (worker_reqs ` set (c_workers c))
        \<union> worker_reqs w \<union> phase_reqs (c_phase c)"
      using k set_update_Union [of worker_reqs "c_workers c" i w] by (auto simp: held_def keeps_def same_tasks_def)
    also have "\<dots> \<subseteq> held c" using h held_cases(2) [OF i] by (auto simp: held_def)
    finally show ?thesis .
  qed
  moreover have "ledger_inv (abs_client ?c)"
    by (rule ledger_step_inv [OF client_okD(6) [OF ok] worker_moves_simulates [OF i seg client_okD(1,6) [OF ok]]])
  ultimately show ?thesis using client_okD(5) [OF ok] by (auto simp: client_ok_def)
qed

section \<open>Callers\<close>

lemma fresh_rows_mono:
  assumes "fresh_rows rs c"
    and "\<And>k. pending_for (c_dedup c') k = None \<Longrightarrow>
      pending_for (c_dedup c) k = None \<and> row_count (st_db (c_storage c')) k = row_count (st_db (c_storage c)) k"
  shows "fresh_rows rs c'"
  using assms by (auto simp: fresh_rows_def)

lemma phase_ok_mono:
  assumes "phase_ok c" and "c_session c' = c_session c" "c_workers c' = c_workers c" "c_phase c' = c_phase c"
    and "\<And>k. pending_for (c_dedup c') k = None \<Longrightarrow>
      pending_for (c_dedup c) k = None \<and> row_count (st_db (c_storage c')) k = row_count (st_db (c_storage c)) k"
  shows "phase_ok c'"
  using assms(1-4) fresh_rows_mono [OF _ assms(5)] by (auto simp: phase_ok_def split: phase.splits)

lemma caller_segment_keeps:
  assumes "caller_segment ev p c = Some (p', c')" and "log_ok (st_db (c_storage c))" "\<forall>r \<in> caller_reqs p. req_ok r"
  shows "keeps c c' \<and> c_dedup c' = c_dedup c \<and> log_ok (st_db (c_storage c'))
     \<and> caller_reqs p' \<union> pool c' \<subseteq> caller_reqs p \<union> pool c
     \<and> q_unfinished (c_queue c') - depth (c_queue c') = q_unfinished (c_queue c) - depth (c_queue c)
     \<and> (\<forall>k. (\<nexists>x. (k, x) \<in># caller_jobs p) \<longrightarrow>
          row_count (st_db (c_storage c')) k = row_count (st_db (c_storage c)) k)"
proof (cases p)
  case (CUpsert req f)
  show ?thesis
  proof (cases "upsert_inflight req STATUS_PENDING 0 None (e_now ev) (c_storage c)")
    case (Inl e)
    with assms CUpsert show ?thesis by (auto simp: caller_persist_def)
  next
    case (Inr us)
    then obtain u s where us: "upsert_inflight req STATUS_PENDING 0 None (e_now ev) (c_storage c) = Inr (u, s)"
      by (cases us) auto
    have "log_ok (st_db s)" using upsert_log_ok [OF assms(2) _ us] assms(3) CUpsert by simp
    moreover obtain db where "s = (c_storage c)\<lparr>st_db := db\<rparr>"
      "row_count (st_db s) = (row_count (st_db (c_storage c)))(idempotency_key req \<mapsto> 0)"
      using upsert_inflight_Inr [OF us] by metis
    ultimately show ?thesis
      using assms CUpsert us by (auto simp: caller_persist_def keeps_def same_tasks_def pool_def)
  qed
next
  case (CEnqueue req f)
  with assms show ?thesis
    by (auto simp: caller_enqueue_def enqueue_Some put_def keeps_def same_tasks_def pool_def depth_def
        split: option.splits)
next
  case (CAwait f)
  with assms show ?thesis by (auto simp: caller_wake_def split: future.splits)
qed (use assms in auto)

lemma caller_moves_ok:
  assumes ok: "client_ok c" and i: "i < length (c_callers c)"
    and seg: "caller_segment ev (c_callers c ! i) c = Some (p, c')"
  shows "client_ok (c'\<lparr>c_callers := (c_callers c')[i := p]\<rparr>)" (is "client_ok ?c")
proof -
  have "\<forall>r \<in> caller_reqs (c_callers c ! i). req_ok r" using held_cases(3) [OF i] client_okD(5) [OF ok] by blast
  from caller_segment_keeps [OF seg client_okD(2) [OF ok] this]
  have k: "keeps c c'" and d: "c_dedup c' = c_dedup c" and lg: "log_ok (st_db (c_storage c'))"
    and h: "caller_reqs p \<union> pool c' \<subseteq> caller_reqs (c_callers c ! i) \<union> pool c"
    and u: "q_unfinished (c_queue c') - depth (c_queue c') = q_unfinished (c_queue c) - depth (c_queue c)"
    and rc: "\<And>k. (\<nexists>x. (k, x) \<in># caller_jobs (c_callers c ! i)) \<Longrightarrow>
          row_count (st_db (c_storage c')) k = row_count (st_db (c_storage c)) k" by auto
  have sub: "caller_jobs (c_callers c ! i) \<subseteq># jobs (abs_client c)"
  proof -
    obtain F where "sum_list (map caller_jobs (c_callers c)) = F + caller_jobs (c_callers c ! i)"
      using sum_list_update_mset [OF i, of caller_jobs] by blast
    then show ?thesis by (simp add: abs_client_def task_jobs_def flow_def)
  qed
  have "row_count (st_db (c_storage c')) k = row_count (st_db (c_storage c)) k"
    if "pending_for (c_dedup c) k = None" for k
  proof (rule rc)
    show "\<nexists>x. (k, x) \<in># caller_jobs (c_callers c ! i)"
    proof
      assume "\<exists>x. (k, x) \<in># caller_jobs (c_callers c ! i)"
      then obtain x where "(k, x) \<in># jobs (abs_client c)" using mset_subset_eqD [OF sub] by blast
      from ledger_invD(2) [OF client_okD(6) [OF ok] this] that show False by (simp add: abs_client_def flow_def)
    qed
  qed
  then have "phase_ok ?c"
    using k d by (intro phase_ok_mono [OF client_okD(7) [OF ok]]) (auto simp: keeps_def same_tasks_def)
  moreover have "core_ok ?c" using client_okD(9) [OF ok] k d lg by (simp add: core_ok_def keeps_def)
  moreover have "unfinished_ok ?c"
    using client_okD(8) [OF ok] u k by (simp add: unfinished_ok_def keeps_def same_tasks_def)
  moreover have "held ?c \<subseteq> held c"
  proof -
    have "pool ?c = pool c'" by (simp add: pool_def)
    then have "held ?c \<subseteq> pool c' \<union> \<Union> (caller_reqs ` set (c_callers c)) \<union> caller_reqs p
        \<union> \<Union> (worker_reqs ` set (c_workers c)) \<union> phase_reqs (c_phase c)"
      using k set_update_Union [of caller_reqs "c_callers c" i p] by (auto simp: held_def keeps_def same_tasks_def)
    also have "\<dots> \<subseteq> held c" using h held_cases(3) [OF i] by (auto simp: held_def)
    finally show ?thesis .
  qed
  moreover have "ledger_inv (abs_client ?c)"
    by (rule ledger_step_inv [OF client_okD(6) [OF ok] caller_moves_simulates [OF i seg]])
  ultimately show ?thesis using client_okD(5) [OF ok] by (auto simp: client_ok_def)
qed

section \<open>Requests, retries, metrics\<close>

lemma pending_attach_mono:
  "reg_ok reg \<Longrightarrow> pending_for (snd (get_or_create reg key)) k = None \<Longrightarrow> pending_for reg k = None"
proof (cases "pending_for reg key")
  case None
  assume "reg_ok reg" "pending_for (snd (get_or_create reg key)) k = None"
  then show ?thesis using pending_for_attach_miss [OF _ None] by (auto split: if_splits)
qed (simp add: get_or_create_hit)

lemma request_begin_ok:
  assumes ok: "client_ok c" and req: "req_ok req"
  shows "client_ok (request_begin req c)"
proof -
  let ?c = "request_begin req c"
  have f: "c_storage ?c = c_storage c" "c_queue ?c = c_queue c" "c_workers ?c = c_workers c"
    "c_phase ?c = c_phase c" "c_session ?c = c_session c" "c_reschedules ?c = c_reschedules c"
    by (auto simp: request_begin_def split: prod.splits)
  have d: "c_dedup ?c = c_dedup c \<or> c_dedup ?c = snd (get_or_create (c_dedup c) (idempotency_key req))"
    by (auto simp: request_begin_def split: prod.splits)
  have "reg_ok (c_dedup ?c)" using d client_okD(1) [OF ok] reg_ok_get_or_create by metis
  then have "core_ok ?c" using client_okD(9) [OF ok] f by (simp add: core_ok_def)
  moreover have "phase_ok ?c"
    using d pending_attach_mono [OF client_okD(1) [OF ok]] f
    by (intro phase_ok_mono [OF client_okD(7) [OF ok]]) auto
  moreover have "held ?c \<subseteq> held c \<union> {req}"
    using f by (auto simp: held_def pool_def request_begin_def split: prod.splits if_splits)
  moreover have "unfinished_ok ?c" using client_okD(8) [OF ok] f by (simp add: unfinished_ok_def)
  moreover have "ledger_inv (abs_client ?c)"
    by (rule ledger_step_inv [OF client_okD(6) [OF ok] request_begin_simulates [OF client_okD(1) [OF ok]]])
  ultimately show ?thesis using client_okD(5) [OF ok] req by (auto simp: client_ok_def)
qed

lemma set_remove_nth: "set (remove_nth k xs) \<subseteq> set xs"
  by (auto simp: remove_nth_def dest: in_set_takeD in_set_dropD)

lemma reschedule_fires_ok:
  assumes ok: "client_ok c" and k: "k < length (c_reschedules c)" and fires: "reschedule_fires k c = Some c'"
  shows "client_ok c'"
proof -
  have f: "c_storage c' = c_storage c" "c_dedup c' = c_dedup c" "c_workers c' = c_workers c" "c_callers c' = c_callers c"
    "c_phase c' = c_phase c" "c_session c' = c_session c"
    "q_unfinished (c_queue c') - depth (c_queue c') = q_unfinished (c_queue c) - depth (c_queue c)"
    using fires by (auto simp: reschedule_fires_def Let_def enqueue_Some put_def depth_def split: if_splits option.splits)
  have "(qi_request \<circ> fst) (c_reschedules c ! k) \<in> (qi_request \<circ> fst) ` set (c_reschedules c)" using k by simp
  then have "pool c' \<subseteq> pool c"
    using fires set_remove_nth [of k "c_reschedules c"]
    by (auto simp: reschedule_fires_def Let_def enqueue_Some put_def pool_def split: if_splits option.splits) force
  then have "held c' \<subseteq> held c" using f by (auto simp: held_def)
  moreover have "phase_ok c'" using f by (intro phase_ok_mono [OF client_okD(7) [OF ok]]) auto
  moreover have "ledger_inv (abs_client c')"
    by (rule ledger_step_inv [OF client_okD(6) [OF ok] reschedule_fires_simulates [OF k fires]])
  ultimately show ?thesis
    using ok f by (auto simp: client_ok_def core_ok_def unfinished_ok_def)
qed

text \<open>Changing only counters, gauges or the control flags of an idle lifecycle.\<close>

lemma client_ok_cong:
  assumes "client_ok c" and "c_storage c' = c_storage c" "c_dedup c' = c_dedup c" "c_queue c' = c_queue c"
    "c_workers c' = c_workers c" "c_callers c' = c_callers c" "c_session c' = c_session c"
    "c_reschedules c' = c_reschedules c" "phase_reqs (c_phase c') = phase_reqs (c_phase c)"
    "phase_jobs (c_phase c') = phase_jobs (c_phase c)" "phase_ok c'"
  shows "abs_client c' = abs_client c \<and> client_ok c'"
  using assms
  by (auto simp: client_ok_def core_ok_def unfinished_ok_def held_def pool_def abs_client_def task_jobs_def flow_def)

lemma client_metrics_ok:
  assumes "client_ok c"
  shows "abs_client (snd (client_metrics c)) = abs_client c \<and> client_ok (snd (client_metrics c))"
  using assms by (rule client_ok_cong) (use client_okD(7) [OF assms] in
    \<open>auto simp: client_metrics_def Let_def phase_ok_def fresh_rows_def split: phase.splits\<close>)

lemma set_response_hook_ok:
  assumes "client_ok c"
  shows "abs_client (set_response_hook h c) = abs_client c \<and> client_ok (set_response_hook h c)"
  using assms by (rule client_ok_cong) (use client_okD(7) [OF assms] in
    \<open>auto simp: set_response_hook_def phase_ok_def fresh_rows_def split: phase.splits\<close>)

lemma remove_dead_letter_ok:
  assumes "client_ok c" and r: "remove_dead_letter n (c_storage c) = Inr (u, s)"
  shows "abs_client (c\<lparr>c_storage := s\<rparr>) = abs_client c \<and> client_ok (c\<lparr>c_storage := s\<rparr>)"
proof -
  obtain db where s: "s = (c_storage c)\<lparr>st_db := db\<rparr>" "inflight_requests db = inflight_requests (st_db (c_storage c))"
    using r by (auto simp: remove_dead_letter_def run_sql_Inr)
  then have rows: "row_count db = row_count (st_db (c_storage c))" by (simp add: row_count_def find_inflight_def fun_eq_iff)
  have "log_ok db" using remove_log_ok [OF _ r] assms(1) s(1) by (simp add: client_ok_def core_ok_def)
  then show ?thesis
    using assms(1) s(1) rows
    by (auto simp: client_ok_def core_ok_def unfinished_ok_def held_def pool_def abs_client_def task_jobs_def flow_def
        phase_ok_def fresh_rows_def split: phase.splits)
qed

section \<open>start\<close>

lemma st_open_conn_db: "st_path s \<noteq> '':memory:'' \<Longrightarrow> st_open_conn s = s\<lparr>st_open := True\<rparr>"
  by (simp add: st_open_conn_def)

lemma start_begin_ok:
  assumes ok: "client_ok c"
  shows "abs_client (snd (start_begin fid t c)) = abs_client c \<and> client_ok (snd (start_begin fid t c))"
proof (cases "c_session c")
  case True
  with ok show ?thesis by (simp add: start_begin_def)
next
  case False
  then have w: "c_workers c = []" "c_phase c = PIdle" using client_okD(7) [OF ok] by (auto simp: phase_ok_def)
  let ?s = "(c_storage c)\<lparr>st_open := True\<rparr>"
  obtain rs where rs: "list_inflight fid t ?s = Inr rs" "listed rs (st_db (c_storage c))"
    using list_inflight_ok [of ?s fid t] client_okD(2) [OF ok] by auto
  let ?c = "c\<lparr>c_storage := ?s, c_session := True, c_phase := PRecover rs\<rparr>"
  have eq: "snd (start_begin fid t c) = ?c"
    using False rs(1) client_okD(3) [OF ok] by (simp add: start_begin_def st_open_conn_db Let_def)
  have "phase_ok ?c" using w rs(2) by (auto simp: phase_ok_def fresh_rows_def listed_def)
  moreover have "held ?c = held c \<union> ir_request ` set rs" using w by (auto simp: held_def pool_def)
  then have "\<forall>r \<in> held ?c. req_ok r" using client_okD(5) [OF ok] rs(2) by (auto simp: listed_def)
  moreover have "abs_client ?c = abs_client c" using w by (simp add: abs_client_def task_jobs_def flow_def)
  ultimately show ?thesis unfolding eq using ok by (auto simp: client_ok_def core_ok_def unfinished_ok_def)
qed

lemma recover_row_ok:
  assumes ok: "client_ok c" and ph: "c_phase c = PRecover (row # rs)"
  shows "ledger_step (abs_client c) (abs_client (recover_row row rs c)) \<and> client_ok (recover_row row rs c)"
proof -
  let ?k = "ir_idempotency_key row" and ?c = "recover_row row rs c"
  let ?item = "\<lparr>qi_request = ir_request row, qi_attempt = ir_retry_count row\<rparr>"
  have w: "c_workers c = []" and fr: "fresh_rows (row # rs) c" and ses: "c_session c"
    using client_okD(7) [OF ok] ph by (auto simp: phase_ok_def)
  have key: "idempotency_key (ir_request row) = ?k" using fr by (simp add: fresh_rows_def)
  show ?thesis
  proof (cases "pending_for (c_dedup c) ?k")
    case (Some f)
    then have eq: "?c = c\<lparr>c_dedup := (c_dedup c)\<lparr>dedup_hits := dedup_hits (c_dedup c) + 1\<rparr>, c_phase := PRecover rs\<rparr>"
      by (simp add: recover_row_def get_or_create_hit)
    have "phase_ok ?c" unfolding eq using w fr ses by (auto simp: phase_ok_def fresh_rows_def)
    moreover have "abs_client ?c = abs_client c" unfolding eq using ph by (simp add: abs_client_def task_jobs_def flow_def)
    moreover have "held ?c \<subseteq> held c" unfolding eq using ph by (auto simp: held_def pool_def)
    moreover have "core_ok ?c \<and> unfinished_ok ?c"
      unfolding eq using ok by (auto simp: client_ok_def core_ok_def unfinished_ok_def reg_ok_def)
    ultimately show ?thesis using ok l_stutter by (auto simp: client_ok_def)
  next
    case None
    let ?f = "length (r_futures (c_dedup c))"
    define d where "d = snd (get_or_create (c_dedup c) ?k)"
    have g: "get_or_create (c_dedup c) ?k = ((?f, True), d)" using get_or_create_miss [OF None] by (simp add: d_def)
    have pd: "pending_for d = (pending_for (c_dedup c))(?k \<mapsto> ?f)"
      unfolding d_def by (rule pending_for_attach_miss [OF client_okD(1) [OF ok] None])
    have row: "row_count (st_db (c_storage c)) ?k = Some (ir_retry_count row)"
      using fr None by (simp add: fresh_rows_def)
    have c: "c_dedup ?c = d" "c_storage ?c = c_storage c" "c_workers ?c = []" "c_callers ?c = c_callers c"
      "c_session ?c" "c_reschedules ?c = c_reschedules c"
      "q_unfinished (c_queue ?c) - depth (c_queue ?c) = q_unfinished (c_queue c) - depth (c_queue c)"
      using ses w by (auto simp: recover_row_def g Let_def enqueue_Some put_def depth_def split: option.splits)
    have ph': "c_phase ?c = PRecover rs \<and> c_queue ?c = put (c_queue c) ?item
        \<or> c_phase ?c = PRecoverPut ?item rs \<and> c_queue ?c = c_queue c"
      by (auto simp: recover_row_def g Let_def enqueue_Some split: option.splits)
    have "fresh_rows rs ?c" using fr unfolding fresh_rows_def c(1,2) pd by auto
    then have "phase_ok ?c" using c ph' by (auto simp: phase_ok_def)
    moreover have "core_ok ?c"
      using client_okD(9) [OF ok] c ses reg_ok_get_or_create [of "c_dedup c" ?k] by (simp add: core_ok_def d_def)
    moreover have "held ?c \<subseteq> held c" using ph' by (elim disjE) (auto simp: held_def pool_def put_def c(3,4,6) ph w)
    moreover have "unfinished_ok ?c" using client_okD(8) [OF ok] c w by (simp add: unfinished_ok_def)
    moreover have "abs_client ?c = \<lparr>jobs = add_mset (?k, Some (ir_retry_count row)) (jobs (abs_client c)),
        pend = (pend (abs_client c))(?k \<mapsto> ?f), rows = rows (abs_client c)\<rparr>"
      using ph' ph c w pd key
      by (auto simp: abs_client_def task_jobs_def flow_def put_def item_job_def item_key_def)
    then have st: "ledger_step (abs_client c) (abs_client ?c)"
      using l_recover [of "abs_client c" ?k] None row by (simp add: abs_client_def flow_def)
    ultimately show ?thesis using ledger_step_inv [OF client_okD(6) [OF ok] st] client_okD(5) [OF ok]
      by (auto simp: client_ok_def)
  qed
qed

lemma start_finish_ok:
  assumes ok: "client_ok c" and ph: "c_phase c = PRecover []"
  shows "abs_client (start_finish c) = abs_client c \<and> client_ok (start_finish c)"
proof -
  have w: "c_workers c = []" and ses: "c_session c" using client_okD(7) [OF ok] ph by (auto simp: phase_ok_def)
  have idle: "sum_list (map worker_jobs (replicate n WIdle)) = {#}" "busy_count (replicate n WIdle) = 0" for n
    by (induction n) auto
  have "held (start_finish c) \<subseteq> held c" by (auto simp: held_def pool_def start_finish_def)
  moreover have "abs_client (start_finish c) = abs_client c"
    using w ph idle by (simp add: abs_client_def task_jobs_def flow_def start_finish_def)
  ultimately show ?thesis
    using ok w ses idle by (auto simp: client_ok_def core_ok_def unfinished_ok_def phase_ok_def start_finish_def)
qed

lemma recover_put_ok:
  assumes ok: "client_ok c" and ph: "c_phase c = PRecoverPut item rs" and q: "enqueue (c_queue c) item = Some q"
  shows "abs_client (c\<lparr>c_queue := q, c_phase := PRecover rs\<rparr>) = abs_client c
     \<and> client_ok (c\<lparr>c_queue := q, c_phase := PRecover rs\<rparr>)"
proof -
  let ?c = "c\<lparr>c_queue := q, c_phase := PRecover rs\<rparr>"
  have "held ?c \<subseteq> held c" using ph q by (auto simp: held_def pool_def enqueue_Some put_def)
  moreover have "abs_client ?c = abs_client c"
    using ph q by (auto simp: abs_client_def task_jobs_def flow_def enqueue_Some put_def)
  ultimately show ?thesis
    using ok ph q
    by (auto simp: client_ok_def core_ok_def unfinished_ok_def phase_ok_def fresh_rows_def enqueue_Some put_def depth_def)
qed

lemma start_segment_ok:
  assumes "client_ok c" and "start_segment c = Some c'"
  shows "ledger_step (abs_client c) (abs_client c') \<and> client_ok c'"
proof (cases "c_phase c")
  case (PRecover rs)
  then show ?thesis
    using assms start_finish_ok [of c] recover_row_ok [of c] l_stutter
    by (cases rs) (auto simp: start_segment_def)
next
  case (PRecoverPut item rs)
  then show ?thesis
    using assms recover_put_ok [of c item rs] l_stutter by (auto simp: start_segment_def split: option.splits)
qed (use assms in \<open>auto simp: start_segment_def\<close>)

section \<open>stop\<close>

lemma lose_all: "ledger_step\<^sup>*\<^sup>* (frame J L) L"
proof (induction J)
  case empty
  have "frame {#} L = L" by (simp add: frame_def)
  then show ?case by simp
next
  case (add j J)
  have "ledger_step (frame (add_mset j J) L) (frame J L)"
    using l_lose [of "frame (add_mset j J) L" j "J + jobs L"] by (simp add: frame_def)
  with add show ?case by (rule converse_rtranclp_into_rtranclp [rotated])
qed

lemma cancel_workers_eq:
  "busy_count ws \<le> q_unfinished q \<Longrightarrow>
   cancel_workers ws q = q\<lparr>q_unfinished := q_unfinished q - busy_count ws\<rparr>"
proof (induction ws arbitrary: q)
  case (Cons w ws)
  have "busy w \<Longrightarrow> \<not> q_unfinished q \<le> 0" using Cons.prems by (simp add: busy_count_def)
  with Cons.prems Cons.IH [of "q\<lparr>q_unfinished := q_unfinished q - 1\<rparr>"] Cons.IH [of q] show ?case
    by (cases "busy w") (auto simp: task_done_def)
qed simp

lemma stop_finish_ok:
  assumes ok: "client_ok c" and ph: "c_phase c = PCheck"
  shows "ledger_step\<^sup>*\<^sup>* (abs_client c) (abs_client (stop_finish c)) \<and> client_ok (stop_finish c)"
proof -
  let ?c = "stop_finish c"
  have "busy_count (c_workers c) \<le> q_unfinished (c_queue c)"
    using client_okD(8) [OF ok] by (simp add: unfinished_ok_def depth_def)
  from cancel_workers_eq [OF this] have c: "q_items (c_queue ?c) = q_items (c_queue c)"
    "q_unfinished (c_queue ?c) = q_unfinished (c_queue c) - busy_count (c_workers c)" "c_workers ?c = []"
    "c_callers ?c = c_callers c" "c_dedup ?c = c_dedup c" "st_db (c_storage ?c) = st_db (c_storage c)"
    "c_reschedules ?c = c_reschedules c" "c_phase ?c = PIdle" "\<not> c_session ?c" "\<not> st_open (c_storage ?c)"
    "st_path (c_storage ?c) = st_path (c_storage c)"
    by (simp_all add: stop_finish_def st_close_def)
  have "abs_client c = frame (sum_list (map worker_jobs (c_workers c))) (abs_client ?c)"
    using c ph by (simp add: abs_client_def task_jobs_def flow_def frame_def ac_simps)
  then have st: "ledger_step\<^sup>*\<^sup>* (abs_client c) (abs_client ?c)" using lose_all by metis
  moreover have "held ?c \<subseteq> held c" using c by (auto simp: held_def pool_def)
  moreover have "ledger_inv (abs_client ?c)" by (rule led.steps_inv [OF st client_okD(6) [OF ok]])
  ultimately show ?thesis
    using ok c by (auto simp: client_ok_def core_ok_def unfinished_ok_def phase_ok_def depth_def)
qed

lemma stop_segment_ok:
  assumes ok: "client_ok c" and "stop_segment c = Some c'"
  shows "ledger_step\<^sup>*\<^sup>* (abs_client c) (abs_client c') \<and> client_ok c'"
proof (cases "c_phase c = PCheck \<and> c_reschedules c = []")
  case True
  with assms show ?thesis using stop_finish_ok [OF ok] by (auto simp: stop_segment_def)
next
  case False
  with assms obtain p where "c' = c\<lparr>c_phase := p\<rparr>" "phase_reqs (c_phase c) = {}" "phase_jobs (c_phase c) = {#}"
    "p \<in> {PJoin, PCheck, PGather}" "c_phase c \<noteq> PIdle"
    by (auto simp: stop_segment_def split: phase.splits if_splits)
  then have "abs_client c' = abs_client c \<and> client_ok c'"
    using client_okD(7) [OF ok] by (intro client_ok_cong [OF ok]) (auto simp: phase_ok_def)
  then show ?thesis by simp
qed

lemma stop_begin_ok:
  assumes ok: "client_ok c" and "c_phase c = PIdle"
  shows "abs_client (stop_begin c) = abs_client c \<and> client_ok (stop_begin c)"
  using assms client_okD(7) [OF ok]
  by (intro client_ok_cong [OF ok]) (auto simp: stop_begin_def phase_ok_def)

section \<open>All steps\<close>

lemma client_step_both:
  assumes ok: "client_ok c" and "client_step c c'"
  shows "ledger_step\<^sup>*\<^sup>* (abs_client c) (abs_client c') \<and> client_ok c'"
  using assms(2)
proof (cases rule: client_step.cases)
  case (request req)
  then show ?thesis
    using request_begin_ok [OF ok] request_begin_simulates [OF client_okD(1) [OF ok]] by blast
next
  case (caller_moves i ev p d)
  then show ?thesis using caller_moves_ok [OF ok] caller_moves_simulates by blast
next
  case (worker_moves i ev w d)
  then show ?thesis
    using worker_moves_ok [OF ok] worker_moves_simulates [OF _ _ client_okD(1,6) [OF ok]] by blast
next
  case (reschedule k)
  then show ?thesis using reschedule_fires_ok [OF ok] reschedule_fires_simulates by blast
next
  case (starting fid t)
  then show ?thesis using start_begin_ok [OF ok] by simp
next
  case start_moves
  then show ?thesis using start_segment_ok [OF ok] by blast
next
  case stopping
  then show ?thesis using stop_begin_ok [OF ok] by simp
next
  case stop_moves
  then show ?thesis using stop_segment_ok [OF ok] by blast
next
  case reading_metrics
  then show ?thesis using client_metrics_ok [OF ok] by simp
next
  case (hooking hook)
  then show ?thesis using set_response_hook_ok [OF ok] by simp
next
  case removing
  then show ?thesis using remove_dead_letter_ok [OF ok] by simp
qed

lemma client_steps_both:
  "client_step\<^sup>*\<^sup>* c c' \<Longrightarrow> client_ok c \<Longrightarrow> ledger_step\<^sup>*\<^sup>* (abs_client c) (abs_client c') \<and> client_ok c'"
proof (induction rule: rtranclp_induct)
  case (step d e)
  then show ?case using client_step_both [of d e] by (meson rtranclp_trans)
qed simp

text \<open>A new client on a file whose log is well formed.\<close>

definition client_init :: "Client \<Rightarrow> bool" where
  "client_init c \<longleftrightarrow> (\<exists>cfg db. new_Client cfg db = Inr c \<and> log_ok db \<and> db_path cfg \<noteq> '':memory:'')"

lemma client_init_ok: "client_init c \<Longrightarrow> client_ok c"
  by (auto simp: client_init_def new_Client_def client_ok_def core_ok_def held_def pool_def phase_ok_def
      unfinished_ok_def depth_def reg_ok_new abs_client_def task_jobs_def flow_def ledger_inv_def keys_of_def
      new_RequestQueue_def split: sum.splits if_splits)

interpretation cl: invariant_system client_init client_step client_ok
  by unfold_locales (auto intro: client_init_ok dest: client_step_both)

lemma orphan_steps:
  "ledger_step\<^sup>*\<^sup>* L L' \<Longrightarrow> orphan L k \<Longrightarrow> orphan L' k \<and> pend L' k = pend L k \<and> rows L' k = rows L k"
  by (induction rule: rtranclp_induct) (auto dest: ledger_step_orphan)

end
