(* ===== verification/Client_Account.thy ===== *)
theory Client_Account
  imports Client_Reach
begin

text \<open>
  Two further invariants of the client: the counters of \<open>Metrics\<close> account for every unit of
  work (\<open>metrics_ok\<close>), and no attempt number exceeds the retry policy (\<open>attempts_ok\<close>).
\<close>

section \<open>Counters\<close>

text \<open>Units of work that were counted as started and not yet counted as finished.\<close>

fun live_worker :: "worker \<Rightarrow> int" where
  "live_worker (WAcquire _ _ _ _) = 1"
| "live_worker (WExecute _ _) = 1"
| "live_worker (WIncr _ _ _) = 1"
| "live_worker _ = 0"

fun live_caller :: "caller \<Rightarrow> int" where
  "live_caller (CEnqueue _ _) = 1"
| "live_caller _ = 0"

fun live_phase :: "phase \<Rightarrow> int" where
  "live_phase (PRecoverPut _ _) = 1"
| "live_phase _ = 0"

definition stock :: "Client \<Rightarrow> int" where
  "stock c = depth (c_queue c) + int (length (c_reschedules c))"

definition live :: "Client \<Rightarrow> int" where
  "live c = stock c + sum_list (map live_worker (c_workers c)) + sum_list (map live_caller (c_callers c))
     + live_phase (c_phase c)"

definition settled :: "Metrics \<Rightarrow> int" where
  "settled m = requests_succeeded m + requests_failed_terminal m"

definition counts_ok :: "Metrics \<Rightarrow> bool" where
  "counts_ok m \<longleftrightarrow> 0 \<le> requests_succeeded m \<and> 0 \<le> requests_failed_terminal m \<and> 0 \<le> retries_performed m
     \<and> retries_performed m = requests_failed_retryable m \<and> dlq_pushes m = requests_failed_terminal m"

definition metrics_ok :: "Client \<Rightarrow> bool" where
  "metrics_ok c \<longleftrightarrow> counts_ok (c_metrics c) \<and> settled (c_metrics c) + live c \<le> requests_started (c_metrics c)"

definition acct :: "worker \<Rightarrow> Client \<Rightarrow> worker \<Rightarrow> Client \<Rightarrow> bool" where
  "acct w c w' c' \<longleftrightarrow> requests_started (c_metrics c') = requests_started (c_metrics c)
     \<and> (counts_ok (c_metrics c) \<longrightarrow> counts_ok (c_metrics c'))
     \<and> settled (c_metrics c') + stock c' + live_worker w' \<le> settled (c_metrics c) + stock c + live_worker w"

lemmas acct_defs = acct_def counts_ok_def settled_def stock_def

lemma item_done_acct:
  assumes "item_done c = (w', c')"
  shows "c_metrics c' = c_metrics c \<and> stock c' = stock c \<and> live_worker w' = 0"
  using assms by (auto simp: item_done_def stock_def depth_def dest: task_done_items split: sum.splits)

lemma worker_dies_acct:
  assumes "worker_dies e c = (w', c')"
  shows "c_metrics c' = c_metrics c \<and> stock c' = stock c \<and> live_worker w' = 0"
  using assms by (auto simp: worker_dies_def stock_def depth_def dest: task_done_items split: sum.splits)

lemma retry_or_dlq_acct:
  assumes "retry_or_dlq ev item e ra c = (w', c')"
  shows "acct (WIncr item x d) c w' c'"
  using assms
  by (auto simp: retry_or_dlq_def Let_def acct_defs split: if_splits sum.splits dest!: worker_dies_acct)

lemma handle_gate_acct:
  assumes "handle_gate ev item c = (w', c')"
  shows "acct (WIncr item x d) c w' c'"
proof (cases "for_url (req_url (qi_request item)) (c_breakers c)")
  case (Inl err)
  with assms show ?thesis by (auto simp: handle_gate_def acct_defs dest!: worker_dies_acct)
next
  case (Inr hb)
  then obtain host brs where hb: "for_url (req_url (qi_request item)) (c_breakers c) = Inr (host, brs)"
    by (cases hb) auto
  obtain rej cb where bc: "before_call (e_now ev) (breaker_at brs host) = (rej, cb)" by fastforce
  show ?thesis
  proof (cases rej)
    case None
    with assms hb bc show ?thesis
      by (auto simp: handle_gate_def Let_def acct_defs split: sum.splits dest!: worker_dies_acct)
  next
    case (Some y)
    let ?m = "c_metrics c"
    let ?c = "c\<lparr>c_breakers := update_breaker host (\<lambda>_. cb) brs,
      c_metrics := ?m\<lparr>breaker_short_circuits := breaker_short_circuits ?m + 1\<rparr>\<rparr>"
    from assms hb bc Some have "retry_or_dlq ev item y (retry_after_of y) ?c = (w', c')"
      by (simp add: handle_gate_def Let_def)
    from retry_or_dlq_acct [OF this, of x d] show ?thesis by (auto simp: acct_defs)
  qed
qed

lemma step_execute_acct:
  assumes "step_execute ev item host c = (w', c')"
  shows "acct (WExecute item host) c w' c'"
proof (cases "execute_request (qi_request item) (qi_attempt item) (e_http ev)")
  case (Inl e0)
  then obtain brs e where r: "retry_or_dlq ev item e None (c\<lparr>c_breakers := brs\<rparr>) = (w', c')"
    using assms by (auto simp: step_execute_def split: prod.splits)
  from retry_or_dlq_acct [OF r, of e NaN] show ?thesis by (auto simp: acct_defs)
next
  case (Inr resp)
  with assms show ?thesis by (auto simp: step_execute_def Let_def acct_defs)
qed

lemma worker_segment_acct:
  assumes "worker_segment ev w c = Some (w', c')"
  shows "acct w c w' c'"
proof (cases w)
  case WIdle
  with assms obtain item q where q: "dequeue (c_queue c) = Some (item, q)"
    and h: "handle_gate ev item (c\<lparr>c_queue := q\<rparr>) = (w', c')"
    by (auto split: option.splits)
  from handle_gate_acct [OF h, of undefined NaN] q WIdle show ?thesis by (auto simp: acct_defs dequeue_Some depth_def)
next
  case (WAcquire item host i wait)
  with assms show ?thesis
    by (auto simp: step_acquire_def Let_def acct_defs split: prod.splits acquire_result.splits)
next
  case (WExecute item host)
  with assms show ?thesis by (simp add: step_execute_acct)
next
  case (WIncr item e d)
  with assms show ?thesis
    by (auto simp: step_incr_def acct_defs split: sum.splits prod.splits dest!: worker_dies_acct item_done_acct)
next
  case (WPush item e)
  with assms show ?thesis by (auto simp: step_push_def acct_defs split: sum.splits prod.splits dest!: worker_dies_acct)
next
  case (WDelFail item e)
  with assms show ?thesis
    by (auto simp: step_del_fail_def acct_defs split: sum.splits prod.splits dest!: worker_dies_acct item_done_acct)
next
  case (WDelOk item r)
  with assms show ?thesis by (auto simp: step_del_ok_def step_hook_def acct_defs split: sum.splits prod.splits if_splits dest!: worker_dies_acct item_done_acct)
next
  case (WHook item r)
  with assms show ?thesis by (auto simp: step_hook_def acct_defs dest!: item_done_acct)
qed (use assms in auto)

lemma caller_segment_acct:
  assumes "caller_segment ev p c = Some (p', c')"
  shows "(counts_ok (c_metrics c) \<longrightarrow> counts_ok (c_metrics c'))
     \<and> settled (c_metrics c') + stock c' + live_caller p' - requests_started (c_metrics c')
       \<le> settled (c_metrics c) + stock c + live_caller p - requests_started (c_metrics c)"
  using assms
proof (cases p)
  case (CUpsert req f)
  with assms show ?thesis by (auto simp: caller_persist_def acct_defs split: sum.splits prod.splits)
next
  case (CEnqueue req f)
  with assms show ?thesis
    by (auto simp: caller_enqueue_def enqueue_Some put_def acct_defs depth_def split: option.splits)
next
  case (CAwait f)
  with assms show ?thesis by (auto simp: caller_wake_def split: future.splits)
qed auto

lemma length_remove_nth: "k < length xs \<Longrightarrow> length (remove_nth k xs) = length xs - 1"
  by (simp add: remove_nth_def)

lemma start_segment_acct:
  assumes "client_ok c" and "start_segment c = Some c'"
  shows "(counts_ok (c_metrics c) \<longrightarrow> counts_ok (c_metrics c'))
     \<and> settled (c_metrics c') + live c' - requests_started (c_metrics c')
       \<le> settled (c_metrics c) + live c - requests_started (c_metrics c)"
proof (cases "c_phase c")
  case (PRecover rs)
  have w: "c_workers c = []" using client_okD(7) [OF assms(1)] PRecover by (simp add: phase_ok_def)
  have idle: "sum_list (map live_worker (replicate n WIdle)) = 0" for n by (induction n) auto
  show ?thesis
  proof (cases rs)
    case Nil
    with assms PRecover w idle show ?thesis
      by (auto simp: start_segment_def start_finish_def live_def stock_def)
  next
    case (Cons row rs')
    with assms PRecover show ?thesis
      by (auto simp: start_segment_def recover_row_def Let_def live_def acct_defs enqueue_Some put_def depth_def
          split: prod.splits option.splits)
  qed
next
  case (PRecoverPut item rs)
  with assms show ?thesis
    by (auto simp: start_segment_def live_def stock_def enqueue_Some put_def depth_def split: option.splits)
qed (use assms in \<open>auto simp: start_segment_def\<close>)

lemma live_worker_nonneg: "0 \<le> live_worker w"
  by (cases w) auto

lemma stop_segment_acct:
  assumes "client_ok c" and "stop_segment c = Some c'"
  shows "c_metrics c' = c_metrics c \<and> live c' \<le> live c"
proof -
  have "0 \<le> sum_list (map live_worker (c_workers c))"
    by (rule sum_list_nonneg) (auto simp: live_worker_nonneg)
  moreover have "depth (c_queue (stop_finish c)) = depth (c_queue c)"
    using client_okD(8) [OF assms(1)] cancel_workers_eq [of "c_workers c" "c_queue c"]
    by (simp add: stop_finish_def unfinished_ok_def depth_def)
  ultimately show ?thesis
    using assms(2) by (auto simp: stop_segment_def live_def stock_def stop_finish_def split: phase.splits if_splits)
qed

lemma client_step_acct:
  assumes ok: "client_ok c" and "client_step c c'"
  shows "(counts_ok (c_metrics c) \<longrightarrow> counts_ok (c_metrics c'))
     \<and> settled (c_metrics c') + live c' - requests_started (c_metrics c')
       \<le> settled (c_metrics c) + live c - requests_started (c_metrics c)"
  using assms(2)
proof (cases rule: client_step.cases)
  case (request req)
  then show ?thesis
    by (auto simp: request_begin_def live_def stock_def split: prod.splits if_splits)
next
  case (caller_moves i ev p d)
  note k = caller_segment_simulates [OF caller_moves(3)] and a = caller_segment_acct [OF caller_moves(3)]
  show ?thesis
    using k a caller_moves(1,2) sum_list_update_int [OF caller_moves(2), of live_caller p]
    by (auto simp: live_def stock_def same_tasks_def)
next
  case (worker_moves i ev w d)
  have k: "keeps c d"
    using worker_segment_seg [OF worker_moves(3) seg_pre_worker [OF ok worker_moves(2)]] by (simp add: seg_ok_def)
  show ?thesis
    using k worker_segment_acct [OF worker_moves(3)] worker_moves(1)
      sum_list_update_int [OF worker_moves(2), of live_worker w]
    by (auto simp: live_def stock_def acct_def keeps_def same_tasks_def)
next
  case (reschedule k)
  then show ?thesis
    by (auto simp: reschedule_fires_def Let_def enqueue_Some put_def live_def stock_def depth_def length_remove_nth
         split: if_splits option.splits)
next
  case (starting fid t)
  have "c_session c \<or> c_phase c = PIdle" using client_okD(7) [OF ok] by (auto simp: phase_ok_def)
  with starting show ?thesis
    by (auto simp: start_begin_def Let_def live_def stock_def split: sum.splits)
next
  case start_moves
  then show ?thesis using start_segment_acct [OF ok] by auto
next
  case stopping
  then show ?thesis by (auto simp: stop_begin_def live_def stock_def)
next
  case stop_moves
  then show ?thesis using stop_segment_acct [OF ok] by auto
next
  case reading_metrics
  then show ?thesis
    by (auto simp: client_metrics_def Let_def live_def acct_defs)
next
  case (hooking hook)
  then show ?thesis by (auto simp: set_response_hook_def live_def stock_def)
next
  case removing
  then show ?thesis by (auto simp: live_def stock_def)
qed

lemma client_step_metrics: "client_ok c \<Longrightarrow> metrics_ok c \<Longrightarrow> client_step c c' \<Longrightarrow> metrics_ok c'"
  using client_step_acct [of c c'] by (auto simp: metrics_ok_def)

lemma client_init_metrics: "client_init c \<Longrightarrow> metrics_ok c"
  by (auto simp: client_init_def new_Client_def new_RequestQueue_def metrics_ok_def counts_ok_def settled_def
      live_def stock_def depth_def new_Metrics_def split: if_splits)

lemma live_nonneg: "0 \<le> live_caller p" "0 \<le> live_phase q"
  by (cases p; simp) (cases q; simp)

lemma live_total: "0 \<le> live c"
  by (auto simp: live_def stock_def depth_def intro!: add_nonneg_nonneg sum_list_nonneg live_worker_nonneg live_nonneg)

lemma init_live: "client_init c \<Longrightarrow> settled (c_metrics c) = 0 \<and> live c = 0 \<and> requests_started (c_metrics c) = 0 \<and> retries_performed (c_metrics c) = 0"
  by (auto simp: client_init_def new_Client_def new_RequestQueue_def settled_def live_def stock_def depth_def new_Metrics_def split: if_splits)

text \<open>Every request started pays for one unit of work, open or settled.\<close>

interpretation clm: budget_system client_init client_step "\<lambda>c. client_ok c \<and> metrics_ok c"
  "\<lambda>c. settled (c_metrics c)" live "\<lambda>c. requests_started (c_metrics c)"
  by unfold_locales
    (auto simp: init_live live_total intro: client_init_ok client_init_metrics client_step_metrics dest: client_step_both client_step_acct)

section \<open>Attempts\<close>

definition budget :: "Client \<Rightarrow> int" where
  "budget c = max_retries (retry (c_cfg c))"

fun in_budget :: "int \<Rightarrow> worker \<Rightarrow> bool" where
  "in_budget n (WIncr item _ _) \<longleftrightarrow> qi_attempt item < n"
| "in_budget n _ \<longleftrightarrow> True"

definition rows_within :: "int \<Rightarrow> database \<Rightarrow> bool" where
  "rows_within n db \<longleftrightarrow> (\<forall>k a. row_count db k = Some a \<longrightarrow> 0 \<le> a \<and> a \<le> n)"

definition attempts_ok :: "Client \<Rightarrow> bool" where
  "attempts_ok c \<longleftrightarrow> 0 \<le> budget c \<and> rows_within (budget c) (st_db (c_storage c))
     \<and> (\<forall>w \<in> set (c_workers c). in_budget (budget c) w)"

text \<open>How a segment changes the persisted counts: only \<open>increment_retry\<close> raises one.\<close>

definition rows_change :: "worker \<Rightarrow> Client \<Rightarrow> Client \<Rightarrow> bool" where
  "rows_change w c c' \<longleftrightarrow> (\<forall>k a. row_count (st_db (c_storage c')) k = Some a \<longrightarrow>
     row_count (st_db (c_storage c)) k = Some a
     \<or> (\<exists>item e d. w = WIncr item e d \<and> k = item_key item \<and> row_count (st_db (c_storage c)) k = Some (a - 1)))"

lemma rows_change_same: "row_count (st_db (c_storage c')) = row_count (st_db (c_storage c)) \<Longrightarrow> rows_change w c c'"
  by (simp add: rows_change_def)

lemma rows_of_flow: "flow J c' = flow J c \<Longrightarrow> row_count (st_db (c_storage c')) = row_count (st_db (c_storage c))"
  by (simp add: flow_def)

lemma done_within: "item_done c = (w', c') \<or> worker_dies e c = (w', c') \<Longrightarrow> in_budget n w' \<and> c_storage c' = c_storage c"
  by (auto simp: item_done_def worker_dies_def split: sum.splits)

lemma retry_or_dlq_within:
  "retry_or_dlq ev item e ra c = (w', c') \<Longrightarrow> in_budget (budget c) w' \<and> c_storage c' = c_storage c"
  by (auto simp: retry_or_dlq_def Let_def should_retry_def budget_def split: if_splits sum.splits
      dest: done_within [OF disjI2])

lemma handle_gate_within:
  assumes "handle_gate ev item c = (w', c')"
  shows "in_budget (budget c) w' \<and> c_storage c' = c_storage c"
proof (cases "for_url (req_url (qi_request item)) (c_breakers c)")
  case (Inl err)
  with assms show ?thesis by (auto simp: handle_gate_def dest: done_within [OF disjI2])
next
  case (Inr hb)
  then show ?thesis
    using assms
    by (auto simp: handle_gate_def Let_def budget_def split: prod.splits option.splits sum.splits
        dest: done_within [OF disjI2] dest!: retry_or_dlq_within)
qed

lemma step_execute_within:
  assumes "step_execute ev item host c = (w', c')"
  shows "in_budget (budget c) w' \<and> c_storage c' = c_storage c"
proof (cases "execute_request (qi_request item) (qi_attempt item) (e_http ev)")
  case (Inl e0)
  then obtain brs e where r: "retry_or_dlq ev item e None (c\<lparr>c_breakers := brs\<rparr>) = (w', c')"
    using assms by (auto simp: step_execute_def split: prod.splits)
  from retry_or_dlq_within [OF r] show ?thesis by (simp add: budget_def)
next
  case (Inr resp)
  with assms show ?thesis by (auto simp: step_execute_def Let_def)
qed

lemma step_incr_rows:
  assumes "step_incr ev item e d c = (w', c')"
  shows "in_budget n w' \<and> rows_change (WIncr item e d) c c'"
proof (cases "increment_retry (item_key item) (str_exc e) (e_now ev) (c_storage c)")
  case (Inl err)
  with assms show ?thesis by (auto simp: step_incr_def rows_change_def dest: done_within [OF disjI2])
next
  case (Inr ns)
  then obtain i s where ns: "increment_retry (item_key item) (str_exc e) (e_now ev) (c_storage c) = Inr (i, s)"
    by (cases ns) auto
  with assms have "in_budget n w'" "c_storage c' = s" by (auto simp: step_incr_def dest: done_within [OF disjI1])
  with bumped_count [OF ns] show ?thesis by (auto simp: rows_change_def split: if_splits)
qed

lemma delete_rows:
  "delete_inflight k s = Inr (u, s') \<Longrightarrow> row_count (st_db s') k' = Some a \<Longrightarrow> row_count (st_db s) k' = Some a"
  by (auto dest: dropped_count split: if_splits)

lemma step_del_fail_rows:
  assumes "step_del_fail item e c = (w', c')"
  shows "in_budget n w' \<and> rows_change (WDelFail item e) c c'"
proof (cases "delete_inflight (item_key item) (c_storage c)")
  case (Inl err)
  with assms show ?thesis by (auto simp: step_del_fail_def rows_change_def dest: done_within [OF disjI2])
next
  case (Inr us)
  then obtain u s where us: "delete_inflight (item_key item) (c_storage c) = Inr (u, s)" by (cases us) auto
  with assms have "in_budget n w'" "c_storage c' = s" by (auto simp: step_del_fail_def dest: done_within [OF disjI1])
  with delete_rows [OF us] show ?thesis by (auto simp: rows_change_def)
qed

lemma step_del_ok_rows:
  assumes "step_del_ok item r c = (w', c')"
  shows "in_budget n w' \<and> rows_change (WDelOk item r) c c'"
proof (cases "delete_inflight (item_key item) (c_storage c)")
  case (Inl err)
  with assms show ?thesis by (auto simp: step_del_ok_def rows_change_def dest: done_within [OF disjI2])
next
  case (Inr us)
  then obtain u s where us: "delete_inflight (item_key item) (c_storage c) = Inr (u, s)" by (cases us) auto
  with assms have "in_budget n w'" "c_storage c' = s"
    by (auto simp: step_del_ok_def step_hook_def split: if_splits dest: done_within [OF disjI1])
  with delete_rows [OF us] show ?thesis by (auto simp: rows_change_def)
qed

lemma worker_segment_rows:
  assumes "worker_segment ev w c = Some (w', c')"
  shows "in_budget (budget c) w' \<and> rows_change w c c'"
proof (cases w)
  case WIdle
  with assms obtain item q where "handle_gate ev item (c\<lparr>c_queue := q\<rparr>) = (w', c')"
    by (auto split: option.splits)
  from handle_gate_within [OF this] show ?thesis by (simp add: budget_def rows_change_def)
next
  case (WAcquire item host i wait)
  with assms show ?thesis
    by (auto simp: step_acquire_def Let_def rows_change_def split: prod.splits acquire_result.splits)
next
  case (WExecute item host)
  with assms step_execute_within [of ev item host c w' c'] show ?thesis by (simp add: rows_change_def)
next
  case (WIncr item e d)
  with assms show ?thesis using step_incr_rows [of ev item e d c w' c'] by simp
next
  case (WPush item e)
  with assms show ?thesis
    by (auto simp: step_push_def push_dead_letter_rows split: sum.splits
        dest: done_within [OF disjI2] intro!: rows_change_same)
next
  case (WDelFail item e)
  with assms show ?thesis using step_del_fail_rows [of item e c w' c'] by simp
next
  case (WDelOk item r)
  with assms show ?thesis using step_del_ok_rows [of item r c w' c'] by simp
next
  case (WHook item r)
  with assms show ?thesis by (auto simp: step_hook_def rows_change_def dest: done_within [OF disjI1])
qed (use assms in auto)

lemma worker_moves_attempts:
  assumes ok: "client_ok c" and at: "attempts_ok c" and i: "i < length (c_workers c)"
    and seg: "worker_segment ev (c_workers c ! i) c = Some (w, c')"
  shows "attempts_ok (c'\<lparr>c_workers := (c_workers c')[i := w]\<rparr>)"
proof -
  have k: "keeps c c'"
    using worker_segment_seg [OF seg seg_pre_worker [OF ok i]] by (simp add: seg_ok_def)
  from worker_segment_rows [OF seg] have w: "in_budget (budget c) w" and rc: "rows_change (c_workers c ! i) c c'" by auto
  have "0 \<le> a \<and> a \<le> budget c" if r: "row_count (st_db (c_storage c')) key = Some a" for key a
  proof (cases "row_count (st_db (c_storage c)) key = Some a")
    case True
    with at show ?thesis by (auto simp: attempts_ok_def rows_within_def)
  next
    case False
    with rc r obtain item e d where w: "c_workers c ! i = WIncr item e d" "key = item_key item"
      and a: "row_count (st_db (c_storage c)) key = Some (a - 1)" unfolding rows_change_def by blast
    have "c_workers c ! i \<in> set (c_workers c)" using i by simp
    then have lt: "qi_attempt item < budget c" using at w(1) by (auto simp: attempts_ok_def)
    obtain F where "sum_list (map worker_jobs (c_workers c)) = F + worker_jobs (c_workers c ! i)"
      using sum_list_update_mset [OF i, of worker_jobs] by blast
    then have "(key, Some (qi_attempt item)) \<in># jobs (abs_client c)"
      using w by (simp add: abs_client_def task_jobs_def flow_def item_job_def)
    from worker_job_row [OF ok this] a have "a - 1 = qi_attempt item" by simp
    moreover have "0 \<le> a - 1" using at a unfolding attempts_ok_def rows_within_def by blast
    ultimately show ?thesis using lt by simp
  qed
  moreover have "set ((c_workers c)[i := w]) \<subseteq> insert w (set (c_workers c))" by (rule set_update_subset_insert)
  ultimately show ?thesis
    using at w k by (auto simp: attempts_ok_def rows_within_def budget_def keeps_def same_tasks_def)
qed

lemma caller_moves_attempts:
  assumes at: "attempts_ok c" and seg: "caller_segment ev p c = Some (p', c')"
  shows "attempts_ok (c'\<lparr>c_callers := ps\<rparr>)"
  using assms
proof (cases p)
  case (CUpsert req f)
  show ?thesis
  proof (cases "upsert_inflight req STATUS_PENDING 0 None (e_now ev) (c_storage c)")
    case (Inl e)
    with assms CUpsert show ?thesis by (auto simp: caller_persist_def attempts_ok_def budget_def)
  next
    case (Inr us)
    then obtain u s where us: "upsert_inflight req STATUS_PENDING 0 None (e_now ev) (c_storage c) = Inr (u, s)"
      by (cases us) auto
    with seg CUpsert have "c_storage c' = s" "c_workers c' = c_workers c" "c_cfg c' = c_cfg c"
      by (auto simp: caller_persist_def)
    with at persisted_count [OF us] show ?thesis by (auto simp: attempts_ok_def rows_within_def budget_def)
  qed
next
  case (CEnqueue req f)
  with assms show ?thesis by (auto simp: caller_enqueue_def attempts_ok_def budget_def split: option.splits)
next
  case (CAwait f)
  with assms show ?thesis by (auto simp: caller_wake_def attempts_ok_def budget_def split: future.splits)
qed auto

lemma attempts_ok_cong:
  assumes "attempts_ok c" and "st_db (c_storage c') = st_db (c_storage c)" "c_cfg c' = c_cfg c"
    and "\<And>w. w \<in> set (c_workers c') \<Longrightarrow> w \<in> set (c_workers c) \<or> w = WIdle"
  shows "attempts_ok c'"
  using assms by (fastforce simp: attempts_ok_def budget_def)

lemma client_step_attempts:
  assumes ok: "client_ok c" and at: "attempts_ok c" and "client_step c c'"
  shows "attempts_ok c'"
  using assms(3)
proof (cases rule: client_step.cases)
  case (worker_moves i ev w d)
  then show ?thesis using worker_moves_attempts [OF ok at] by blast
next
  case (caller_moves i ev p d)
  then show ?thesis using caller_moves_attempts [OF at] by blast
next
  case (request req)
  then show ?thesis
    by (intro attempts_ok_cong [OF at]) (auto simp: request_begin_def split: prod.splits if_splits)
next
  case (reschedule k)
  then show ?thesis
    by (intro attempts_ok_cong [OF at]) (auto simp: reschedule_fires_def Let_def split: if_splits option.splits)
next
  case (starting fid t)
  then show ?thesis
    using client_okD(3) [OF ok]
    by (intro attempts_ok_cong [OF at]) (auto simp: start_begin_def Let_def st_open_conn_db split: sum.splits if_splits)
next
  case start_moves
  then show ?thesis
    by (intro attempts_ok_cong [OF at])
       (auto simp: start_segment_def start_finish_def recover_row_def Let_def
         split: phase.splits list.splits option.splits prod.splits if_splits)
next
  case stopping
  then show ?thesis by (intro attempts_ok_cong [OF at]) (auto simp: stop_begin_def split: if_splits)
next
  case stop_moves
  then show ?thesis
    by (intro attempts_ok_cong [OF at])
       (auto simp: stop_segment_def stop_finish_def st_close_def split: phase.splits if_splits)
next
  case reading_metrics
  then show ?thesis by (intro attempts_ok_cong [OF at]) (auto simp: client_metrics_def Let_def)
next
  case (hooking hook)
  then show ?thesis by (intro attempts_ok_cong [OF at]) (auto simp: set_response_hook_def)
next
  case removing
  then show ?thesis
    using at by (auto simp: attempts_ok_def rows_within_def budget_def remove_dead_letter_def run_sql_Inr row_count_def find_inflight_def)
qed

interpretation cla: invariant_system "\<lambda>c. client_init c \<and> attempts_ok c" client_step "\<lambda>c. client_ok c \<and> attempts_ok c"
  by unfold_locales (auto intro: client_init_ok client_step_attempts dest: client_step_both)

end
