(* ===== verification/Client_Paths.thy ===== *)
theory Client_Paths
  imports Client_Account
begin

text \<open>
  Whole paths through the client: recovery of a log by \<open>start\<close>, a request served by an idle
  client, and a failed one moved to the dead-letter queue.
\<close>

section \<open>Recovery\<close>

fun start_run :: "nat \<Rightarrow> Client \<Rightarrow> Client option" where
  "start_run 0 c = Some c"
| "start_run (Suc n) c = (case start_segment c of None \<Rightarrow> None | Some c' \<Rightarrow> start_run n c')"

definition row_item :: "InflightRow \<Rightarrow> QueueItem" where
  "row_item row = \<lparr>qi_request = ir_request row, qi_attempt = ir_retry_count row\<rparr>"

text \<open>Rows whose keys have no pending future and that fit into the queue.\<close>

definition recoverable :: "InflightRow list \<Rightarrow> Client \<Rightarrow> bool" where
  "recoverable rs c \<longleftrightarrow> reg_ok (c_dedup c) \<and> distinct (map ir_idempotency_key rs)
     \<and> (\<forall>row \<in> set rs. pending_for (c_dedup c) (ir_idempotency_key row) = None)"

definition recovered :: "InflightRow list \<Rightarrow> Client \<Rightarrow> Client \<Rightarrow> bool" where
  "recovered rs c c' \<longleftrightarrow> q_items (c_queue c') = q_items (c_queue c) @ map row_item rs
     \<and> q_max (c_queue c') = q_max (c_queue c)
     \<and> (\<forall>k. pending_for (c_dedup c') k \<noteq> None \<longleftrightarrow>
          pending_for (c_dedup c) k \<noteq> None \<or> k \<in> ir_idempotency_key ` set rs)
     \<and> c_storage c' = c_storage c \<and> c_workers c' = c_workers c \<and> c_cfg c' = c_cfg c
     \<and> requests_started (c_metrics c') = requests_started (c_metrics c) + int (length rs)
     \<and> reg_ok (c_dedup c')"

lemma recover_row_miss:
  assumes "recoverable (row # rs) c"
  shows "\<exists>d. recover_row row rs' c =
      (let m = c_metrics c; c2 = c\<lparr>c_dedup := d, c_metrics := m\<lparr>requests_started := requests_started m + 1\<rparr>\<rparr> in
       if is_full (c_queue c) then c2\<lparr>c_phase := PRecoverPut (row_item row) rs'\<rparr>
       else c2\<lparr>c_queue := put (c_queue c) (row_item row), c_phase := PRecover rs'\<rparr>)
    \<and> reg_ok d \<and> pending_for d = (pending_for (c_dedup c))(ir_idempotency_key row \<mapsto> length (r_futures (c_dedup c)))"
proof -
  let ?k = "ir_idempotency_key row"
  define d where "d = snd (get_or_create (c_dedup c) ?k)"
  have ok: "reg_ok (c_dedup c)" and none: "pending_for (c_dedup c) ?k = None"
    using assms by (auto simp: recoverable_def)
  have g: "get_or_create (c_dedup c) ?k = ((length (r_futures (c_dedup c)), True), d)"
    using get_or_create_miss [OF none] by (simp add: d_def)
  have "recover_row row rs' c =
      (let m = c_metrics c; c2 = c\<lparr>c_dedup := d, c_metrics := m\<lparr>requests_started := requests_started m + 1\<rparr>\<rparr> in
       if is_full (c_queue c) then c2\<lparr>c_phase := PRecoverPut (row_item row) rs'\<rparr>
       else c2\<lparr>c_queue := put (c_queue c) (row_item row), c_phase := PRecover rs'\<rparr>)"
    by (simp add: recover_row_def g enqueue_def row_item_def Let_def)
  then show ?thesis
    using reg_ok_get_or_create [OF ok, of ?k] pending_for_attach_miss [OF ok none] unfolding d_def by blast
qed

lemma recover_row_fits:
  assumes rec: "recoverable (row # rs) c" and fits: "\<not> is_full (c_queue c)"
  shows "\<exists>c1. recover_row row rs' c = c1 \<and> c_phase c1 = PRecover rs' \<and> recoverable rs c1 \<and> recovered [row] c c1"
proof -
  obtain d where d: "reg_ok d"
      "pending_for d = (pending_for (c_dedup c))(ir_idempotency_key row \<mapsto> length (r_futures (c_dedup c)))"
    and eq: "recover_row row rs' c = c\<lparr>c_dedup := d,
        c_metrics := (c_metrics c)\<lparr>requests_started := requests_started (c_metrics c) + 1\<rparr>,
        c_queue := put (c_queue c) (row_item row), c_phase := PRecover rs'\<rparr>"
    using recover_row_miss [OF rec, of rs'] fits by (auto simp: Let_def)
  have "recoverable rs (recover_row row rs' c)" using rec d by (auto simp: recoverable_def eq image_iff)
  moreover have "recovered [row] c (recover_row row rs' c)" using d by (auto simp: recovered_def eq put_def)
  ultimately show ?thesis by (simp add: eq)
qed

lemma recovered_trans: "recovered rs c c' \<Longrightarrow> recovered rs' c' c'' \<Longrightarrow> recovered (rs @ rs') c c''"
  by (auto simp: recovered_def)

lemma recover_all:
  assumes "recoverable rs c" and "c_phase c = PRecover rs"
    and "depth (c_queue c) + int (length rs) \<le> q_max (c_queue c)"
  shows "\<exists>c'. start_run (length rs) c = Some c' \<and> c_phase c' = PRecover [] \<and> recovered rs c c'"
  using assms
proof (induction rs arbitrary: c)
  case Nil
  then show ?case by (simp add: recovered_def recoverable_def)
next
  case (Cons row rs)
  have "\<not> is_full (c_queue c)" using Cons.prems(3) by (simp add: is_full_def)
  then obtain c1 where c1: "recover_row row rs c = c1" "c_phase c1 = PRecover rs" "recoverable rs c1" "recovered [row] c c1"
    using recover_row_fits [OF Cons.prems(1), of rs] by blast
  have "depth (c_queue c1) + int (length rs) \<le> q_max (c_queue c1)"
    using c1(4) Cons.prems(3) by (simp add: recovered_def depth_def)
  from Cons.IH [OF c1(3,2) this] obtain c' where c': "start_run (length rs) c1 = Some c'" "c_phase c' = PRecover []"
    "recovered rs c1 c'" by blast
  moreover have "start_segment c = Some c1" using Cons.prems(2) c1(1) by (simp add: start_segment_def)
  ultimately show ?case using recovered_trans [OF c1(4) c'(3)] by simp
qed

text \<open>More rows than slots: the recovery of the first row that does not fit waits.\<close>

lemma recover_overflow:
  assumes "recoverable rs c" and "c_phase c = PRecover rs" and "c_workers c = []" and "c_session c"
    and "depth (c_queue c) \<le> q_max (c_queue c)" "depth (c_queue c) + int (length rs) > q_max (c_queue c)"
  shows "\<exists>n c' item rs'. start_run n c = Some c' \<and> c_phase c' = PRecoverPut item rs' \<and> c_workers c' = []
     \<and> c_session c' \<and> is_full (c_queue c')"
  using assms
proof (induction rs arbitrary: c)
  case (Cons row rs)
  have seg: "start_segment c = Some (recover_row row rs c)" using Cons.prems(2) by (simp add: start_segment_def)
  show ?case
  proof (cases "is_full (c_queue c)")
    case True
    then obtain d where "recover_row row rs c = c\<lparr>c_dedup := d,
        c_metrics := (c_metrics c)\<lparr>requests_started := requests_started (c_metrics c) + 1\<rparr>,
        c_phase := PRecoverPut (row_item row) rs\<rparr>"
      using recover_row_miss [OF Cons.prems(1), of rs] by (auto simp: Let_def)
    then show ?thesis using Cons.prems True seg
      by (intro exI [of _ "Suc 0"] exI [of _ "recover_row row rs c"]) auto
  next
    case False
    then obtain c1 where c1: "recover_row row rs c = c1" "c_phase c1 = PRecover rs" "recoverable rs c1"
      "recovered [row] c c1" using recover_row_fits [OF Cons.prems(1), of rs] by blast
    have ses: "c_session c1" using Cons.prems(4) c1(1) by (auto simp: recover_row_def Let_def split: prod.splits option.splits)
    have "depth (c_queue c1) \<le> q_max (c_queue c1)" "depth (c_queue c1) + int (length rs) > q_max (c_queue c1)"
      "c_workers c1 = []"
      using c1(4) Cons.prems(3,5,6) False by (simp_all add: recovered_def depth_def is_full_def)
    from Cons.IH [OF c1(3,2) this(3) ses this(1,2)] obtain n c' item rs' where
      "start_run n c1 = Some c'" "c_phase c' = PRecoverPut item rs'" "c_workers c' = []" "c_session c'" "is_full (c_queue c')"
      by blast
    then show ?thesis using seg c1(1) by (intro exI [of _ "Suc n"] exI [of _ c'] exI [of _ item] exI [of _ rs']) auto
  qed
qed simp

lemma start_begin_rows:
  assumes "new_Client cfg db = Inr c" and "db_path cfg \<noteq> '':memory:''"
    and rs: "list_inflight fid t \<lparr>st_path = db_path cfg, st_db = db, st_open = True\<rparr> = Inr rs"
    and "distinct (map ir_idempotency_key rs)"
  shows "\<exists>c1. start_begin fid t c = (None, c1) \<and> c_phase c1 = PRecover rs \<and> recoverable rs c1
     \<and> list_inflight fid t (c_storage c1) = Inr rs
     \<and> st_db (c_storage c1) = db \<and> c_workers c1 = [] \<and> c_session c1 \<and> c_cfg c1 = cfg
     \<and> q_items (c_queue c1) = [] \<and> q_max (c_queue c1) = max_size (queue_cfg cfg) \<and> 0 < max_size (queue_cfg cfg)"
proof -
  let ?s = "\<lparr>st_path = db_path cfg, st_db = db, st_open = True\<rparr>"
  from assms(1) have c: "\<not> c_session c" "c_storage c = ?s\<lparr>st_open := False\<rparr>" "c_dedup c = new_InFlightRegistry"
    "c_workers c = []" "c_cfg c = cfg" "q_items (c_queue c) = []" "q_max (c_queue c) = max_size (queue_cfg cfg)"
    "0 < max_size (queue_cfg cfg)"
    by (auto simp: new_Client_def new_RequestQueue_def split: if_splits)
  let ?c1 = "c\<lparr>c_storage := ?s, c_session := True, c_phase := PRecover rs\<rparr>"
  have "start_begin fid t c = (None, ?c1)"
    using c rs assms(2) by (simp add: start_begin_def st_open_conn_db Let_def)
  moreover have "recoverable rs ?c1"
    using assms(4) c(3) by (auto simp: recoverable_def reg_ok_new)
  ultimately show ?thesis using c rs by (intro exI [of _ ?c1]) simp
qed

lemma start_begin_new:
  assumes "new_Client cfg db = Inr c" and "log_ok db" and "db_path cfg \<noteq> '':memory:''"
  shows "\<exists>rs c1. start_begin fid t c = (None, c1) \<and> c_phase c1 = PRecover rs \<and> recoverable rs c1
     \<and> list_inflight fid t (c_storage c1) = Inr rs
     \<and> map ir_idempotency_key rs = map i_key (sort_key i_created_at (inflight_requests db))
     \<and> st_db (c_storage c1) = db \<and> c_workers c1 = [] \<and> c_session c1 \<and> c_cfg c1 = cfg
     \<and> q_items (c_queue c1) = [] \<and> q_max (c_queue c1) = max_size (queue_cfg cfg) \<and> 0 < max_size (queue_cfg cfg)"
proof -
  let ?s = "\<lparr>st_path = db_path cfg, st_db = db, st_open = True\<rparr>"
  obtain rs where rs: "list_inflight fid t ?s = Inr rs" "listed rs db"
    "map ir_idempotency_key rs = map i_key (sort_key i_created_at (inflight_requests db))"
    using list_inflight_ok [of ?s fid t] assms(2) by auto
  then show ?thesis using start_begin_rows [OF assms(1,3) rs(1)] by (auto simp: listed_def)
qed

text \<open>A recovery that waits for a slot waits for ever: nobody takes items from the queue.\<close>

definition stuck :: "Client \<Rightarrow> bool" where
  "stuck c \<longleftrightarrow> c_workers c = [] \<and> is_full (c_queue c) \<and> c_session c \<and> (\<exists>item rs. c_phase c = PRecoverPut item rs)"

lemma stuck_step:
  assumes "stuck c" and "client_step c c'"
  shows "stuck c'"
  using assms(2)
proof (cases rule: client_step.cases)
  case (request req)
  with assms(1) show ?thesis by (auto simp: stuck_def request_begin_def split: prod.splits)
next
  case (caller_moves i ev p d)
  have "c_queue d = c_queue c" "c_session d = c_session c" "same_tasks c d"
    using caller_moves(3) assms(1) caller_segment_simulates [OF caller_moves(3)]
    by (cases "c_callers c ! i"; auto simp: caller_persist_def caller_enqueue_def caller_wake_def enqueue_def stuck_def
        split: sum.splits option.splits future.splits)+
  with assms(1) caller_moves(1) show ?thesis by (auto simp: stuck_def same_tasks_def)
next
  case (worker_moves i ev w d)
  with assms(1) show ?thesis by (simp add: stuck_def)
next
  case (reschedule k)
  with assms(1) show ?thesis by (auto simp: stuck_def reschedule_fires_def Let_def enqueue_def split: if_splits)
next
  case (starting fid t)
  with assms(1) show ?thesis by (simp add: stuck_def start_begin_def)
next
  case start_moves
  with assms(1) show ?thesis by (auto simp: stuck_def start_segment_def enqueue_def)
next
  case stopping
  with assms(1) show ?thesis by (auto simp: stuck_def)
next
  case stop_moves
  with assms(1) show ?thesis by (auto simp: stuck_def stop_segment_def)
next
  case reading_metrics
  with assms(1) show ?thesis by (auto simp: stuck_def client_metrics_def Let_def)
next
  case (hooking hook)
  with assms(1) show ?thesis by (auto simp: stuck_def set_response_hook_def)
next
  case removing
  with assms(1) show ?thesis by (auto simp: stuck_def)
qed

lemma stuck_steps: "client_step\<^sup>*\<^sup>* c c' \<Longrightarrow> stuck c \<Longrightarrow> stuck c'"
  by (induction rule: rtranclp_induct) (auto intro: stuck_step)

section \<open>Runs of one coroutine as steps of the client\<close>

text \<open>A segment neither reads nor changes the lists of callers and workers.\<close>

lemma caller_segment_frame:
  "caller_segment ev p c = Some (p', c') \<Longrightarrow>
   caller_segment ev p (c\<lparr>c_callers := ps\<rparr>) = Some (p', c'\<lparr>c_callers := ps\<rparr>)"
  by (cases p) (auto simp: caller_persist_def caller_enqueue_def caller_wake_def split: sum.splits option.splits future.splits)

definition set_workers :: "worker list \<Rightarrow> worker \<times> Client \<Rightarrow> worker \<times> Client" where
  "set_workers ws r = (fst r, (snd r)\<lparr>c_workers := ws\<rparr>)"

lemma item_done_frame: "item_done (c\<lparr>c_workers := ws\<rparr>) = set_workers ws (item_done c)"
  by (auto simp: item_done_def set_workers_def split: sum.splits)

lemma worker_dies_frame: "worker_dies e (c\<lparr>c_workers := ws\<rparr>) = set_workers ws (worker_dies e c)"
  by (auto simp: worker_dies_def set_workers_def split: sum.splits)

lemma worker_dies_frames:
  "worker_dies e (c\<lparr>c_workers := ws, c_metrics := m\<rparr>) = set_workers ws (worker_dies e (c\<lparr>c_metrics := m\<rparr>))"
  "worker_dies e (c\<lparr>c_workers := ws, c_breakers := b\<rparr>) = set_workers ws (worker_dies e (c\<lparr>c_breakers := b\<rparr>))"
  by (auto simp: worker_dies_def set_workers_def split: sum.splits)

lemma item_done_frames:
  "item_done (c\<lparr>c_workers := ws, c_storage := s, c_reschedules := r\<rparr>) =
     set_workers ws (item_done (c\<lparr>c_storage := s, c_reschedules := r\<rparr>))"
  "item_done (c\<lparr>c_workers := ws, c_storage := s, c_dedup := d\<rparr>) =
     set_workers ws (item_done (c\<lparr>c_storage := s, c_dedup := d\<rparr>))"
  "item_done (c\<lparr>c_workers := ws, c_dedup := d\<rparr>) = set_workers ws (item_done (c\<lparr>c_dedup := d\<rparr>))"
  by (auto simp: item_done_def set_workers_def split: sum.splits)

lemma retry_or_dlq_frame:
  "retry_or_dlq ev item e ra (c\<lparr>c_workers := ws\<rparr>) = set_workers ws (retry_or_dlq ev item e ra c)"
  by (auto simp: retry_or_dlq_def Let_def worker_dies_frames split: sum.splits) (auto simp: set_workers_def)

lemma update_swap:
  "c\<lparr>c_workers := ws, c_breakers := b\<rparr> = c\<lparr>c_breakers := b\<rparr>\<lparr>c_workers := ws\<rparr>"
  "c\<lparr>c_workers := ws, c_breakers := b, c_metrics := m\<rparr> = c\<lparr>c_breakers := b, c_metrics := m\<rparr>\<lparr>c_workers := ws\<rparr>"
  "c\<lparr>c_workers := ws, c_queue := q\<rparr> = c\<lparr>c_queue := q\<rparr>\<lparr>c_workers := ws\<rparr>"
  by simp_all

lemma handle_gate_frame: "handle_gate ev item (c\<lparr>c_workers := ws\<rparr>) = set_workers ws (handle_gate ev item c)"
proof (cases "for_url (req_url (qi_request item)) (c_breakers c)")
  case (Inl err)
  then show ?thesis by (simp add: handle_gate_def worker_dies_frame)
next
  case (Inr hb)
  obtain host brs where hb: "hb = (host, brs)" by fastforce
  obtain rej cb where bc: "before_call (e_now ev) (breaker_at brs host) = (rej, cb)" by fastforce
  show ?thesis
  proof (cases rej)
    case None
    then show ?thesis
      using Inr hb bc
      by (auto simp: handle_gate_def Let_def worker_dies_frames split: sum.splits) (auto simp: set_workers_def)
  next
    case (Some e)
    then show ?thesis
      using Inr hb bc by (simp add: handle_gate_def Let_def update_swap(2) retry_or_dlq_frame)
  qed
qed

lemma step_execute_frame:
  "step_execute ev item host (c\<lparr>c_workers := ws\<rparr>) = set_workers ws (step_execute ev item host c)"
proof (cases "execute_request (qi_request item) (qi_attempt item) (e_http ev)")
  case (Inl e0)
  obtain tell e where "classify e0 = (tell, e)" by fastforce
  with Inl show ?thesis by (simp add: step_execute_def Let_def update_swap(1) retry_or_dlq_frame)
next
  case (Inr resp)
  then show ?thesis by (simp add: step_execute_def Let_def set_workers_def)
qed

lemma worker_segment_frame:
  "worker_segment ev w (c\<lparr>c_workers := ws\<rparr>) = map_option (set_workers ws) (worker_segment ev w c)"
proof (cases w)
  case WIdle
  then show ?thesis by (simp add: update_swap(3) handle_gate_frame split: option.splits prod.splits)
next
  case (WAcquire item host i wait)
  then show ?thesis
    by (auto simp: step_acquire_def Let_def set_workers_def split: prod.splits acquire_result.splits)
next
  case (WPush item e)
  then show ?thesis
    by (auto simp: step_push_def worker_dies_frame split: sum.splits) (auto simp: set_workers_def)
next
  case (WDelOk item r)
  then show ?thesis
    by (auto simp: step_del_ok_def step_hook_def worker_dies_frame item_done_frames split: sum.splits)
       (auto simp: set_workers_def)
qed (auto simp: step_execute_frame step_incr_def step_del_fail_def step_hook_def
      worker_dies_frame item_done_frames split: sum.splits)

lemma worker_segment_workers:
  assumes "worker_segment ev w c = Some (w', c')"
  shows "c_workers c' = c_workers c"
proof -
  have "c\<lparr>c_workers := c_workers c\<rparr> = c" by simp
  then have "Some (w', c') = Some (set_workers (c_workers c) (w', c'))"
    using worker_segment_frame [of ev w "c_workers c" c] assms by simp
  then have "c' = c'\<lparr>c_workers := c_workers c\<rparr>" by (simp add: set_workers_def)
  from arg_cong [OF this, of c_workers] show ?thesis by simp
qed

text \<open>The segments of one worker in a row, with what each reads from its environment.\<close>

fun worker_run :: "env list \<Rightarrow> worker \<Rightarrow> Client \<Rightarrow> (worker \<times> Client) option" where
  "worker_run [] w c = Some (w, c)"
| "worker_run (ev # evs) w c =
     (case worker_segment ev w c of None \<Rightarrow> None | Some (w', c') \<Rightarrow> worker_run evs w' c')"

text \<open>The segments of one caller in a row.\<close>

fun caller_run :: "env list \<Rightarrow> caller \<Rightarrow> Client \<Rightarrow> (caller \<times> Client) option" where
  "caller_run [] p c = Some (p, c)"
| "caller_run (ev # evs) p c =
     (case caller_segment ev p c of None \<Rightarrow> None | Some (p', c') \<Rightarrow> caller_run evs p' c')"

lemma worker_run_steps:
  "worker_run evs w c = Some (w', c') \<Longrightarrow> i < length ws \<Longrightarrow> ws ! i = w \<Longrightarrow>
   client_step\<^sup>*\<^sup>* (c\<lparr>c_workers := ws\<rparr>) (c'\<lparr>c_workers := ws[i := w']\<rparr>)"
proof (induction evs arbitrary: w c ws)
  case Nil
  then show ?case using list_update_id [of ws i] by auto
next
  case (Cons ev evs)
  from Cons.prems(1) obtain w1 c1 where w1: "worker_segment ev w c = Some (w1, c1)" "worker_run evs w1 c1 = Some (w', c')"
    by (auto split: option.splits)
  let ?c = "c\<lparr>c_workers := ws\<rparr>" and ?c1 = "c1\<lparr>c_workers := ws\<rparr>"
  have "worker_segment ev (c_workers ?c ! i) ?c = Some (w1, ?c1)"
    using w1(1) Cons.prems(3) by (simp add: worker_segment_frame set_workers_def)
  from client_step.worker_moves [OF _ this] Cons.prems(2)
  have "client_step ?c (c1\<lparr>c_workers := ws[i := w1]\<rparr>)" by simp
  moreover have "client_step\<^sup>*\<^sup>* (c1\<lparr>c_workers := ws[i := w1]\<rparr>) (c'\<lparr>c_workers := (ws[i := w1])[i := w']\<rparr>)"
    by (rule Cons.IH [OF w1(2)]) (use Cons.prems(2) in auto)
  ultimately show ?case by (simp add: converse_rtranclp_into_rtranclp)
qed

text \<open>Steps that leave the workers alone.\<close>

definition idle_step :: "Client \<Rightarrow> Client \<Rightarrow> bool" where
  "idle_step c c' \<longleftrightarrow> client_step c c' \<and> c_workers c' = c_workers c"

lemma idle_steps: "idle_step\<^sup>*\<^sup>* c c' \<Longrightarrow> client_step\<^sup>*\<^sup>* c c'"
  by (erule rtranclp_mono [THEN predicate2D, rotated]) (auto simp: idle_step_def)

lemma caller_segment_workers: "caller_segment ev p c = Some (p', c') \<Longrightarrow> c_workers c' = c_workers c"
  by (cases p) (auto simp: caller_persist_def caller_enqueue_def caller_wake_def split: sum.splits option.splits future.splits)

lemma caller_run_idle:
  "caller_run evs p c = Some (p', c') \<Longrightarrow> i < length ps \<Longrightarrow> ps ! i = p \<Longrightarrow>
   idle_step\<^sup>*\<^sup>* (c\<lparr>c_callers := ps\<rparr>) (c'\<lparr>c_callers := ps[i := p']\<rparr>)"
proof (induction evs arbitrary: p c ps)
  case Nil
  then show ?case using list_update_id [of ps i] by auto
next
  case (Cons ev evs)
  from Cons.prems(1) obtain p1 c1 where p1: "caller_segment ev p c = Some (p1, c1)" "caller_run evs p1 c1 = Some (p', c')"
    by (auto split: option.splits)
  let ?c = "c\<lparr>c_callers := ps\<rparr>" and ?c1 = "c1\<lparr>c_callers := ps\<rparr>"
  have "caller_segment ev (c_callers ?c ! i) ?c = Some (p1, ?c1)"
    using caller_segment_frame [OF p1(1)] Cons.prems(3) by simp
  from client_step.caller_moves [OF _ this] Cons.prems(2)
  have "idle_step ?c (c1\<lparr>c_callers := ps[i := p1]\<rparr>)"
    using caller_segment_workers [OF p1(1)] by (simp add: idle_step_def)
  moreover have "idle_step\<^sup>*\<^sup>* (c1\<lparr>c_callers := ps[i := p1]\<rparr>) (c'\<lparr>c_callers := (ps[i := p1])[i := p']\<rparr>)"
    by (rule Cons.IH [OF p1(2)]) (use Cons.prems(2) in auto)
  ultimately show ?case by (simp add: converse_rtranclp_into_rtranclp)
qed

lemma caller_run_steps:
  "caller_run evs p c = Some (p', c') \<Longrightarrow> i < length ps \<Longrightarrow> ps ! i = p \<Longrightarrow>
   client_step\<^sup>*\<^sup>* (c\<lparr>c_callers := ps\<rparr>) (c'\<lparr>c_callers := ps[i := p']\<rparr>)"
  by (rule idle_steps [OF caller_run_idle])

section \<open>A served request\<close>

text \<open>The breaker lets a call pass and the bucket has a token.\<close>

definition admitted :: "real \<Rightarrow> string \<Rightarrow> Client \<Rightarrow> bool" where
  "admitted now url c \<longleftrightarrow>
     (case for_url url (c_breakers c) of
        Inl _ \<Rightarrow> False
      | Inr (host, brs) \<Rightarrow> fst (before_call now (breaker_at brs host)) = None)
     \<and> (case bucket_for url now (c_rate_limiter c) of
          Inl _ \<Rightarrow> False
        | Inr (i, l) \<Rightarrow> fst (bucket_step i now l) = Acquired)"

lemma fresh_admits:
  assumes "c_breakers c = new_HostCircuitBreakers cb" and "c_rate_limiter c = new_HostRateLimiter rl"
    and "host_of url = Inr host" and "0 < rate_per_second rl" and "0 < burst rl"
  shows "admitted now url c"
  using assms
  by (simp add: admitted_def dget_def for_url_def bucket_for_def new_HostCircuitBreakers_def new_HostRateLimiter_def breaker_at_def
      before_call_def take_probe_def new_CircuitBreaker_def config_for_def new_TokenBucket_def
      bucket_step_def acquire_step_def refill_def Let_def)

text \<open>The host has a bucket and its breaker is not in the middle of a probe.\<close>

definition rested :: "string \<Rightarrow> HostCircuitBreakers \<Rightarrow> HostRateLimiter \<Rightarrow> bool" where
  "rested url reg l \<longleftrightarrow> (\<exists>host. host_of url = Inr host \<and> dget (l_buckets l) host \<noteq> None
     \<and> cb_state (breaker_at reg host) \<noteq> HALF_OPEN)"

lemma on_failure_rests: "cb_state (on_failure now cb) \<noteq> HALF_OPEN"
  by (auto simp: on_failure_def open_now_def Let_def)

lemma breaker_at_update [simp]: "breaker_at (update_breaker host f reg) host = f (breaker_at reg host)"
  by (subst breaker_at_def) (simp add: update_breaker_def dget_dset)

lemma bucket_for_buckets_of: "bucket_for url now l = Inr (i, l') \<Longrightarrow> host_of url = Inr host \<Longrightarrow> dget (l_buckets l') host = Some i"
  by (auto simp: bucket_for_def Let_def dget_dset split: option.splits sum.splits)

lemma for_url_host: "for_url url reg = Inr (host, reg') \<Longrightarrow> host_of url = Inr host"
  by (auto simp: for_url_def split: sum.splits option.splits)

lemma dequeue_admitted:
  assumes "q_items (c_queue c) = item # items" and "admitted (e_now ev) (req_url (qi_request item)) c"
  shows "\<exists>host l brs i. worker_segment ev WIdle c = Some (WAcquire item host i 0,
      c\<lparr>c_queue := (c_queue c)\<lparr>q_items := items\<rparr>, c_breakers := brs, c_rate_limiter := l\<rparr>)
    \<and> fst (bucket_step i (e_now ev) l) = Acquired
    \<and> host_of (req_url (qi_request item)) = Inr host \<and> dget (l_buckets l) host \<noteq> None"
proof -
  let ?url = "req_url (qi_request item)"
  from assms(2) obtain host brs cb i l where
    h: "for_url ?url (c_breakers c) = Inr (host, brs)" "before_call (e_now ev) (breaker_at brs host) = (None, cb)"
      "bucket_for ?url (e_now ev) (c_rate_limiter c) = Inr (i, l)" "fst (bucket_step i (e_now ev) l) = Acquired"
    by (auto simp: admitted_def prod_eq_iff split: sum.splits prod.splits)
  have "worker_segment ev WIdle c = Some (WAcquire item host i 0, c\<lparr>c_queue := (c_queue c)\<lparr>q_items := items\<rparr>,
      c_breakers := update_breaker host (\<lambda>_. cb) brs, c_rate_limiter := l\<rparr>)"
    using assms(1) h(1-3) by (simp add: dequeue_def handle_gate_def)
  moreover have "host_of ?url = Inr host" by (rule for_url_host [OF h(1)])
  moreover from this have "dget (l_buckets l) host \<noteq> None" using bucket_for_buckets_of [OF h(3)] by simp
  ultimately show ?thesis using h(4) by blast
qed

lemma acquired_executes:
  assumes "fst (bucket_step i (e_now ev) (c_rate_limiter c)) = Acquired"
  shows "\<exists>l. worker_segment ev (WAcquire item host i 0) c = Some (WExecute item host, c\<lparr>c_rate_limiter := l\<rparr>)
     \<and> l_buckets l = l_buckets (c_rate_limiter c)"
proof -
  obtain r l where rl: "bucket_step i (e_now ev) (c_rate_limiter c) = (r, l)" by fastforce
  then have "l_buckets l = l_buckets (c_rate_limiter c)" by (auto simp: bucket_step_def split: prod.splits)
  with rl assms show ?thesis by (auto simp: step_acquire_def)
qed

lemma executed_ok:
  assumes "execute_request (qi_request item) (qi_attempt item) (e_http ev) = Inr resp"
  shows "\<exists>brs. worker_segment ev (WExecute item host) c = Some (WDelOk item resp, c\<lparr>c_breakers := brs,
      c_metrics := (c_metrics c)\<lparr>requests_succeeded := requests_succeeded (c_metrics c) + 1\<rparr>\<rparr>)"
  using assms by (auto simp: step_execute_def Let_def)

lemma delete_open: "st_open s \<Longrightarrow> delete_inflight k s = Inr ((), s\<lparr>st_db := sql_delete_inflight k (st_db s)\<rparr>)"
  by (simp add: delete_inflight_def run_sql_def)

text \<open>The lifecycle and the sleeping retries are as before.\<close>

definition same_life :: "Client \<Rightarrow> Client \<Rightarrow> bool" where
  "same_life c c' \<longleftrightarrow> c_session c' = c_session c \<and> c_phase c' = c_phase c \<and> c_reschedules c' = c_reschedules c
     \<and> c_cfg c' = c_cfg c"

lemma finished_ok:
  assumes "st_open (c_storage c)" and "0 < q_unfinished (c_queue c)"
  shows "\<exists>evs c'. worker_run evs (WDelOk item resp) c = Some (WIdle, c')
     \<and> c_dedup c' = resolve (c_dedup c) (item_key item) resp \<and> c_metrics c' = c_metrics c
     \<and> c_callers c' = c_callers c \<and> c_workers c' = c_workers c
     \<and> row_count (st_db (c_storage c')) = (row_count (st_db (c_storage c)))(item_key item := None)
     \<and> dead_letter_queue (st_db (c_storage c')) = dead_letter_queue (st_db (c_storage c))
     \<and> c_queue c' = (c_queue c)\<lparr>q_unfinished := q_unfinished (c_queue c) - 1\<rparr> \<and> same_life c c'"
proof -
  from delete_open [OF assms(1), of "item_key item"] obtain s
    where s: "delete_inflight (item_key item) (c_storage c) = Inr ((), s)"
      "dead_letter_queue (st_db s) = dead_letter_queue (st_db (c_storage c))"
    by (auto simp: sql_delete_inflight_def)
  show ?thesis
    by (rule exI [of _ "if c_hook c then [undefined, undefined] else [undefined]"])
       (use s delete_inflight_Inr [OF s(1)] assms(2) in \<open>auto simp: step_del_ok_def step_hook_def item_done_eq same_life_def\<close>)
qed

lemma item_served:
  fixes e1 e2 e3 :: env
  assumes "q_items (c_queue c) = item # items" and "admitted (e_now e1) (req_url (qi_request item)) c"
    and "e_now e2 = e_now e1" and "execute_request (qi_request item) (qi_attempt item) (e_http e3) = Inr resp"
    and "st_open (c_storage c)" and "0 < q_unfinished (c_queue c)"
  shows "\<exists>evs c'. worker_run evs WIdle c = Some (WIdle, c')
     \<and> c_dedup c' = resolve (c_dedup c) (item_key item) resp
     \<and> c_callers c' = c_callers c \<and> c_workers c' = c_workers c
     \<and> requests_succeeded (c_metrics c') = requests_succeeded (c_metrics c) + 1
     \<and> row_count (st_db (c_storage c')) = (row_count (st_db (c_storage c)))(item_key item := None)
     \<and> dead_letter_queue (st_db (c_storage c')) = dead_letter_queue (st_db (c_storage c))
     \<and> c_queue c' = (c_queue c)\<lparr>q_items := items, q_unfinished := q_unfinished (c_queue c) - 1\<rparr> \<and> same_life c c'"
proof -
  let ?q = "(c_queue c)\<lparr>q_items := items\<rparr>"
  obtain host l brs i where w1: "worker_segment e1 WIdle c =
      Some (WAcquire item host i 0, c\<lparr>c_queue := ?q, c_breakers := brs, c_rate_limiter := l\<rparr>)"
    and acq: "fst (bucket_step i (e_now e1) l) = Acquired" using dequeue_admitted [OF assms(1,2)] by blast
  let ?c1 = "c\<lparr>c_queue := ?q, c_breakers := brs, c_rate_limiter := l\<rparr>"
  obtain l2 where w2: "worker_segment e2 (WAcquire item host i 0) ?c1 =
      Some (WExecute item host, ?c1\<lparr>c_rate_limiter := l2\<rparr>)"
    using acquired_executes [of i e2 ?c1 item host] acq assms(3) by auto
  let ?c2 = "?c1\<lparr>c_rate_limiter := l2\<rparr>"
  obtain brs3 where w3: "worker_segment e3 (WExecute item host) ?c2 = Some (WDelOk item resp, ?c2\<lparr>c_breakers := brs3,
      c_metrics := (c_metrics ?c2)\<lparr>requests_succeeded := requests_succeeded (c_metrics ?c2) + 1\<rparr>\<rparr>)"
    using executed_ok [OF assms(4)] by blast
  let ?c3 = "?c2\<lparr>c_breakers := brs3,
      c_metrics := (c_metrics ?c2)\<lparr>requests_succeeded := requests_succeeded (c_metrics ?c2) + 1\<rparr>\<rparr>"
  have run: "worker_run (e1 # e2 # e3 # evs) WIdle c = worker_run evs (WDelOk item resp) ?c3" for evs
    by (simp only: worker_run.simps w1 w2 w3 option.case prod.case)
  have "st_open (c_storage ?c3)" "0 < q_unfinished (c_queue ?c3)" using assms(5,6) by simp_all
  from finished_ok [OF this, of item resp] obtain evs c' where f: "worker_run evs (WDelOk item resp) ?c3 = Some (WIdle, c')"
    "c_dedup c' = resolve (c_dedup ?c3) (item_key item) resp" "c_metrics c' = c_metrics ?c3"
    "c_callers c' = c_callers ?c3" "c_workers c' = c_workers ?c3"
    "row_count (st_db (c_storage c')) = (row_count (st_db (c_storage ?c3)))(item_key item := None)"
    "dead_letter_queue (st_db (c_storage c')) = dead_letter_queue (st_db (c_storage ?c3))"
    "c_queue c' = (c_queue ?c3)\<lparr>q_unfinished := q_unfinished (c_queue ?c3) - 1\<rparr>" "same_life ?c3 c'"
    by blast
  show ?thesis by (rule exI [of _ "e1 # e2 # e3 # evs"], rule exI [of _ c']) (use f in \<open>simp add: run same_life_def del: worker_run.simps\<close>)
qed

lemma sql_upsert_dlq [simp]: "dead_letter_queue (sql_upsert row db) = dead_letter_queue db"
  by (simp add: sql_upsert_def)

lemma upsert_open:
  assumes "st_open s" and "request_payload req = Inr payload"
  shows "\<exists>s'. upsert_inflight req st n err now s = Inr ((), s') \<and> st_open s'
     \<and> row_count (st_db s') = (row_count (st_db s))(idempotency_key req \<mapsto> n)
     \<and> dead_letter_queue (st_db s') = dead_letter_queue (st_db s)"
  using assms by (simp add: upsert_inflight_def run_sql_def row_count_upsert)

lemma owner_submits:
  assumes "c_session c" and "st_open (c_storage c)" and "reg_ok (c_dedup c)" and "\<not> is_full (c_queue c)"
    and none: "pending_for (c_dedup c) (idempotency_key req) = None" and pl: "request_payload req = Inr payload"
  shows "\<exists>f c'. c_callers (request_begin req c) = c_callers c @ [CUpsert req f]
     \<and> caller_run [e1, e2] (CUpsert req f) (request_begin req c) = Some (CAwait f, c')
     \<and> pending_for (c_dedup c') (idempotency_key req) = Some f \<and> reg_ok (c_dedup c')
     \<and> row_count (st_db (c_storage c')) = (row_count (st_db (c_storage c)))(idempotency_key req \<mapsto> 0)
     \<and> dead_letter_queue (st_db (c_storage c')) = dead_letter_queue (st_db (c_storage c))
     \<and> c_queue c' = put (c_queue c) \<lparr>qi_request = req, qi_attempt = 0\<rparr> \<and> st_open (c_storage c')
     \<and> c_breakers c' = c_breakers c \<and> c_rate_limiter c' = c_rate_limiter c \<and> c_workers c' = c_workers c
     \<and> requests_started (c_metrics c') = requests_started (c_metrics c) + 1
     \<and> requests_succeeded (c_metrics c') = requests_succeeded (c_metrics c)
     \<and> c_cfg c' = c_cfg c \<and> c_session c' \<and> c_phase c' = c_phase c \<and> c_reschedules c' = c_reschedules c
     \<and> c_stopping c' = c_stopping c \<and> c_hook c' = c_hook c"
proof -
  let ?k = "idempotency_key req" and ?f = "length (r_futures (c_dedup c))"
  define d where "d = snd (get_or_create (c_dedup c) ?k)"
  have g: "get_or_create (c_dedup c) ?k = ((?f, True), d)" using get_or_create_miss [OF none] by (simp add: d_def)
  have d: "reg_ok d" "pending_for d ?k = Some ?f"
    unfolding d_def using reg_ok_get_or_create [OF assms(3)] pending_for_attach_miss [OF assms(3) none] by simp_all
  have b: "request_begin req c = c\<lparr>c_dedup := d, c_callers := c_callers c @ [CUpsert req ?f]\<rparr>"
    using assms(1) by (simp add: request_begin_def g)
  obtain s where s: "upsert_inflight req STATUS_PENDING 0 None (e_now e1) (c_storage c) = Inr ((), s)" "st_open s"
    "row_count (st_db s) = (row_count (st_db (c_storage c)))(?k \<mapsto> 0)"
    "dead_letter_queue (st_db s) = dead_letter_queue (st_db (c_storage c))"
    using upsert_open [OF assms(2) pl] by blast
  show ?thesis
    using assms(1,4) d s by (simp add: b caller_persist_def caller_enqueue_def enqueue_def)
qed

lemma resolved_wakes:
  assumes "reg_ok (c_dedup c)" and "pending_for (c_dedup c) key = Some f" and "c_dedup c' = resolve (c_dedup c) key resp"
  shows "caller_segment ev (CAwait f) c' = Some (CReturned resp, c') \<and> pending_for (c_dedup c') key = None"
  using assms by (simp add: caller_wake_def resolve_def fut_state_settle pending_for_settle)

section \<open>A request that fails for good\<close>

lemma push_open:
  assumes "st_open s" and "request_payload req = Inr payload"
  shows "push_dead_letter req err n now s = Inr (dlq_seq (st_db s) + 1, s\<lparr>st_db := (st_db s)\<lparr>
     dead_letter_queue := dead_letter_queue (st_db s) @
       [\<lparr>d_id = dlq_seq (st_db s) + 1, d_key = idempotency_key req, d_request_id = req_request_id req,
         d_payload = payload, d_error = err, d_retry_count = n, d_first_seen = now, d_last_attempt = now\<rparr>],
     dlq_seq := dlq_seq (st_db s) + 1\<rparr>\<rparr>)"
  using assms by (simp add: push_dead_letter_def run_sql_def sql_insert_dlq_def Let_def)

section \<open>The paths as steps\<close>

lemma submit_steps:
  assumes "c_session c" and "st_open (c_storage c)" and "reg_ok (c_dedup c)" and "\<not> is_full (c_queue c)"
    and "pending_for (c_dedup c) (idempotency_key req) = None" and "request_payload req = Inr payload"
  shows "\<exists>f c'. client_step\<^sup>*\<^sup>* (request_begin req c) c' \<and> c_callers c' = c_callers c @ [CAwait f]
     \<and> pending_for (c_dedup c') (idempotency_key req) = Some f \<and> reg_ok (c_dedup c')
     \<and> row_count (st_db (c_storage c')) = (row_count (st_db (c_storage c)))(idempotency_key req \<mapsto> 0)
     \<and> dead_letter_queue (st_db (c_storage c')) = dead_letter_queue (st_db (c_storage c))
     \<and> c_queue c' = put (c_queue c) \<lparr>qi_request = req, qi_attempt = 0\<rparr> \<and> st_open (c_storage c')
     \<and> c_breakers c' = c_breakers c \<and> c_rate_limiter c' = c_rate_limiter c \<and> c_workers c' = c_workers c
     \<and> requests_succeeded (c_metrics c') = requests_succeeded (c_metrics c)
     \<and> c_cfg c' = c_cfg c \<and> c_session c' \<and> c_phase c' = c_phase c \<and> c_reschedules c' = c_reschedules c
     \<and> c_stopping c' = c_stopping c"
proof -
  fix ev :: env
  let ?b = "request_begin req c" and ?n = "length (c_callers c)"
  obtain f c1 where s: "c_callers ?b = c_callers c @ [CUpsert req f]"
    "caller_run [ev, ev] (CUpsert req f) ?b = Some (CAwait f, c1)"
    and post: "pending_for (c_dedup c1) (idempotency_key req) = Some f" "reg_ok (c_dedup c1)"
     "row_count (st_db (c_storage c1)) = (row_count (st_db (c_storage c)))(idempotency_key req \<mapsto> 0)"
     "dead_letter_queue (st_db (c_storage c1)) = dead_letter_queue (st_db (c_storage c))"
     "c_queue c1 = put (c_queue c) \<lparr>qi_request = req, qi_attempt = 0\<rparr>" "st_open (c_storage c1)"
     "c_breakers c1 = c_breakers c" "c_rate_limiter c1 = c_rate_limiter c" "c_workers c1 = c_workers c"
     "requests_succeeded (c_metrics c1) = requests_succeeded (c_metrics c)"
     "c_cfg c1 = c_cfg c" "c_session c1" "c_phase c1 = c_phase c" "c_reschedules c1 = c_reschedules c" "c_stopping c1 = c_stopping c"
    using owner_submits [OF assms, of ev ev] by blast
  let ?c = "c1\<lparr>c_callers := c_callers c @ [CAwait f]\<rparr>"
  have "client_step\<^sup>*\<^sup>* ?b ?c"
  proof -
    have same: "?b\<lparr>c_callers := c_callers c @ [CUpsert req f]\<rparr> = ?b" by (simp flip: s(1))
    have "client_step\<^sup>*\<^sup>* (?b\<lparr>c_callers := c_callers c @ [CUpsert req f]\<rparr>) ?c"
      using caller_run_steps [OF s(2), of ?n "c_callers ?b"] by (simp add: s(1))
    then show ?thesis unfolding same .
  qed
  with post show ?thesis by (intro exI [of _ f] exI [of _ ?c]) simp
qed

lemma begin_steps: "req_ok req \<Longrightarrow> client_step\<^sup>*\<^sup>* (request_begin req c) c' \<Longrightarrow> client_step\<^sup>*\<^sup>* c c'"
  using client_step.request [of req c] by (rule converse_rtranclp_into_rtranclp)

lemma serve_steps:
  assumes "q_items (c_queue c) = item # items" and "admitted now (req_url (qi_request item)) c"
    and "execute_request (qi_request item) (qi_attempt item) outcome = Inr resp"
    and "st_open (c_storage c)" and "0 < q_unfinished (c_queue c)" and i: "i < length (c_workers c)" "c_workers c ! i = WIdle"
  shows "\<exists>c'. client_step\<^sup>*\<^sup>* c c' \<and> c_dedup c' = resolve (c_dedup c) (item_key item) resp
     \<and> c_callers c' = c_callers c \<and> c_workers c' = c_workers c
     \<and> requests_succeeded (c_metrics c') = requests_succeeded (c_metrics c) + 1
     \<and> row_count (st_db (c_storage c')) = (row_count (st_db (c_storage c)))(item_key item := None)
     \<and> dead_letter_queue (st_db (c_storage c')) = dead_letter_queue (st_db (c_storage c))
     \<and> q_items (c_queue c') = items \<and> same_life c c'"
proof -
  let ?ev = "\<lparr>e_now = now, e_rand = 0, e_http = outcome\<rparr>"
  obtain evs c' where c': "worker_run evs WIdle c = Some (WIdle, c')"
    "c_dedup c' = resolve (c_dedup c) (item_key item) resp" "c_callers c' = c_callers c" "c_workers c' = c_workers c"
    "requests_succeeded (c_metrics c') = requests_succeeded (c_metrics c) + 1"
    "row_count (st_db (c_storage c')) = (row_count (st_db (c_storage c)))(item_key item := None)"
    "dead_letter_queue (st_db (c_storage c')) = dead_letter_queue (st_db (c_storage c))"
    "q_items (c_queue c') = items" "same_life c c'"
    using item_served [of c item items ?ev ?ev ?ev resp] assms(1-5) by auto
  have "client_step\<^sup>*\<^sup>* (c\<lparr>c_workers := c_workers c\<rparr>) (c'\<lparr>c_workers := (c_workers c)[i := WIdle]\<rparr>)"
    by (rule worker_run_steps [OF c'(1) i])
  then have "client_step\<^sup>*\<^sup>* c (c'\<lparr>c_workers := c_workers c\<rparr>)" using list_update_id [of "c_workers c" i] i(2) by simp
  with c' show ?thesis by (intro exI [of _ "c'\<lparr>c_workers := c_workers c\<rparr>"]) (simp add: same_life_def)
qed

lemma dead_letter_run:
  assumes "st_open (c_storage c)" and "0 < q_unfinished (c_queue c)" and "request_payload (qi_request item) = Inr payload"
  shows "\<exists>c'. worker_run [ev, ev] (WPush item e) c = Some (WIdle, c')
     \<and> c_dedup c' = fail (c_dedup c) (item_key item) (terminal_exc e)
     \<and> row_count (st_db (c_storage c')) = (row_count (st_db (c_storage c)))(item_key item := None)
     \<and> c_callers c' = c_callers c \<and> c_workers c' = c_workers c
     \<and> dead_letter_queue (st_db (c_storage c')) = dead_letter_queue (st_db (c_storage c)) @
        [\<lparr>d_id = dlq_seq (st_db (c_storage c)) + 1, d_key = item_key item, d_request_id = req_request_id (qi_request item),
          d_payload = payload, d_error = str_exc e, d_retry_count = qi_attempt item,
          d_first_seen = e_now ev, d_last_attempt = e_now ev\<rparr>]"
proof -
  let ?s = "c_storage c" and ?req = "qi_request item"
  obtain s1 where push: "push_dead_letter ?req (str_exc e) (qi_attempt item) (e_now ev) ?s = Inr (dlq_seq (st_db ?s) + 1, s1)"
    and s1: "st_open s1" "row_count (st_db s1) = row_count (st_db ?s)"
      "dead_letter_queue (st_db s1) = dead_letter_queue (st_db ?s) @
        [\<lparr>d_id = dlq_seq (st_db ?s) + 1, d_key = item_key item, d_request_id = req_request_id ?req,
          d_payload = payload, d_error = str_exc e, d_retry_count = qi_attempt item,
          d_first_seen = e_now ev, d_last_attempt = e_now ev\<rparr>]"
    using push_open [OF assms(1,3), of "str_exc e" "qi_attempt item" "e_now ev"]
      push_dead_letter_rows [OF push_open [OF assms(1,3)], of "str_exc e" "qi_attempt item" "e_now ev"] assms(1)
    by (simp add: item_key_def)
  obtain s2 where del: "delete_inflight (item_key item) s1 = Inr ((), s2)"
    "dead_letter_queue (st_db s2) = dead_letter_queue (st_db s1)"
    using delete_open [OF s1(1), of "item_key item"] by (auto simp: sql_delete_inflight_def)
  from delete_inflight_Inr [OF del(1)] s1 del(2) show ?thesis
    using assms(2) by (auto simp: step_push_def push step_del_fail_def del(1) item_done_eq)
qed

lemma failed_wakes:
  assumes "reg_ok (c_dedup c)" and "pending_for (c_dedup c) key = Some f" and "c_dedup c' = fail (c_dedup c) key x"
  shows "caller_segment ev (CAwait f) c' = Some (CFailed (Raised x), c') \<and> pending_for (c_dedup c') key = None"
  using assms by (simp add: caller_wake_def fail_def fut_state_settle pending_for_settle)

section \<open>Failed attempts\<close>

lemma executed_fails:
  assumes "execute_request (qi_request item) (qi_attempt item) (e_http ev) = Inl e0" and "classify e0 = (tell, e)"
  shows "\<exists>brs. worker_segment ev (WExecute item host) c = Some (retry_or_dlq ev item e None (c\<lparr>c_breakers := brs\<rparr>))
     \<and> (tell \<longrightarrow> cb_state (breaker_at brs host) \<noteq> HALF_OPEN)"
  using assms
  by (intro exI [of _ "if tell then update_breaker host (on_failure (e_now ev)) (c_breakers c) else c_breakers c"])
     (simp add: step_execute_def Let_def on_failure_rests)

text \<open>Fields a failed exchange leaves alone.\<close>

definition same_stores :: "Client \<Rightarrow> Client \<Rightarrow> bool" where
  "same_stores c c' \<longleftrightarrow> c_storage c' = c_storage c \<and> c_dedup c' = c_dedup c \<and> c_cfg c' = c_cfg c
     \<and> c_callers c' = c_callers c \<and> c_workers c' = c_workers c \<and> c_reschedules c' = c_reschedules c
     \<and> c_session c' = c_session c \<and> c_phase c' = c_phase c \<and> c_stopping c' = c_stopping c"

lemma attempt_fails:
  assumes "q_items (c_queue c) = item # items" and "admitted (e_now ev) (req_url (qi_request item)) c"
    and "execute_request (qi_request item) (qi_attempt item) (e_http ev) = Inl e0" and "classify e0 = (tell, e)"
  shows "\<exists>c1. worker_run [ev, ev, ev] WIdle c = Some (retry_or_dlq ev item e None c1)
     \<and> same_stores c c1 \<and> c_queue c1 = (c_queue c)\<lparr>q_items := items\<rparr>
     \<and> retries_performed (c_metrics c1) = retries_performed (c_metrics c)
     \<and> (tell \<longrightarrow> rested (req_url (qi_request item)) (c_breakers c1) (c_rate_limiter c1))"
proof -
  let ?q = "(c_queue c)\<lparr>q_items := items\<rparr>"
  obtain host l brs i where w1: "worker_segment ev WIdle c =
      Some (WAcquire item host i 0, c\<lparr>c_queue := ?q, c_breakers := brs, c_rate_limiter := l\<rparr>)"
    and acq: "fst (bucket_step i (e_now ev) l) = Acquired"
    and h: "host_of (req_url (qi_request item)) = Inr host" "dget (l_buckets l) host \<noteq> None"
    using dequeue_admitted [OF assms(1,2)] by blast
  let ?c1 = "c\<lparr>c_queue := ?q, c_breakers := brs, c_rate_limiter := l\<rparr>"
  obtain l2 where w2: "worker_segment ev (WAcquire item host i 0) ?c1 =
      Some (WExecute item host, ?c1\<lparr>c_rate_limiter := l2\<rparr>)" "l_buckets l2 = l_buckets l"
    using acquired_executes [of i ev ?c1 item host] acq by auto
  let ?c2 = "?c1\<lparr>c_rate_limiter := l2\<rparr>"
  obtain brs3 where w3: "worker_segment ev (WExecute item host) ?c2 =
      Some (retry_or_dlq ev item e None (?c2\<lparr>c_breakers := brs3\<rparr>))"
    and brs3: "tell \<longrightarrow> cb_state (breaker_at brs3 host) \<noteq> HALF_OPEN"
    using executed_fails [OF assms(3,4)] by blast
  obtain w c3 where r: "retry_or_dlq ev item e None (?c2\<lparr>c_breakers := brs3\<rparr>) = (w, c3)" by fastforce
  have "worker_run [ev, ev, ev] WIdle c = Some (retry_or_dlq ev item e None (?c2\<lparr>c_breakers := brs3\<rparr>))"
    by (simp only: worker_run.simps w1 w2(1) w3 r option.case prod.case)
  then show ?thesis
    using h brs3 by (intro exI [of _ "?c2\<lparr>c_breakers := brs3\<rparr>"]) (simp add: same_stores_def rested_def w2(2))
qed

lemma worker_run_append:
  "worker_run es w c = Some (w1, c1) \<Longrightarrow> worker_run (es @ es') w c = worker_run es' w1 c1"
  by (induction es arbitrary: w c) (auto split: option.splits)

text \<open>A retryable failure within the budget: counted, persisted, rescheduled after the backoff.\<close>

lemma retry_run:
  assumes "q_items (c_queue c) = item # items" and "admitted (e_now ev) (req_url (qi_request item)) c"
    and "execute_request (qi_request item) (qi_attempt item) (e_http ev) = Inl e0" and "classify e0 = (tell, e)"
    and "is_RetryableError e" and "should_retry (retry (c_cfg c)) (qi_attempt item)"
    and "backoff_seconds (retry (c_cfg c)) (qi_attempt item) (retry_after_of e) (e_rand ev) = Inr d"
    and "st_open (c_storage c)" and "0 < q_unfinished (c_queue c)"
    and "row_count (st_db (c_storage c)) (item_key item) = Some (qi_attempt item)"
  shows "\<exists>c'. worker_run [ev, ev, ev, ev] WIdle c = Some (WIdle, c')
     \<and> c_reschedules c' = c_reschedules c @ [(item\<lparr>qi_attempt := qi_attempt item + 1\<rparr>, d)]
     \<and> row_count (st_db (c_storage c')) = (row_count (st_db (c_storage c)))(item_key item \<mapsto> qi_attempt item + 1)
     \<and> c_dedup c' = c_dedup c \<and> c_callers c' = c_callers c \<and> c_workers c' = c_workers c
     \<and> c_session c' = c_session c \<and> c_phase c' = c_phase c \<and> c_cfg c' = c_cfg c \<and> c_stopping c' = c_stopping c
     \<and> c_queue c' = (c_queue c)\<lparr>q_items := items, q_unfinished := q_unfinished (c_queue c) - 1\<rparr>
     \<and> st_open (c_storage c') \<and> dead_letter_queue (st_db (c_storage c')) = dead_letter_queue (st_db (c_storage c))
     \<and> retries_performed (c_metrics c') = retries_performed (c_metrics c) + 1
     \<and> (tell \<longrightarrow> rested (req_url (qi_request item)) (c_breakers c') (c_rate_limiter c'))"
proof -
  obtain c1 where run: "worker_run [ev, ev, ev] WIdle c = Some (retry_or_dlq ev item e None c1)"
    and s: "same_stores c c1" "c_queue c1 = (c_queue c)\<lparr>q_items := items\<rparr>"
      "retries_performed (c_metrics c1) = retries_performed (c_metrics c)"
      "tell \<longrightarrow> rested (req_url (qi_request item)) (c_breakers c1) (c_rate_limiter c1)"
    using attempt_fails [OF assms(1-4)] by blast
  define m where "m = (c_metrics c1)\<lparr>requests_failed_retryable := requests_failed_retryable (c_metrics c1) + 1,
      retries_performed := retries_performed (c_metrics c1) + 1\<rparr>"
  have r: "retry_or_dlq ev item e None c1 = (WIncr item e d, c1\<lparr>c_metrics := m\<rparr>)"
    using assms(5-7) s by (simp add: retry_or_dlq_def Let_def same_stores_def m_def)
  have "\<exists>n st. increment_retry (item_key item) (str_exc e) (e_now ev) (c_storage c) = Inr (n, st)"
    using assms(8) by (simp add: increment_retry_def run_sql_def Let_def)
  then obtain n st where st: "increment_retry (item_key item) (str_exc e) (e_now ev) (c_storage c) = Inr (n, st)" by blast
  then have dlq: "dead_letter_queue (st_db st) = dead_letter_queue (st_db (c_storage c))" "st_open st"
    using assms(8) by (auto simp: increment_retry_def run_sql_def Let_def sql_update_inflight_def)
  have "worker_run [ev, ev, ev, ev] WIdle c = worker_run [ev] (WIncr item e d) (c1\<lparr>c_metrics := m\<rparr>)"
    using worker_run_append [OF run [unfolded r], of "[ev]"] by simp
  then show ?thesis
    using increment_retry_Inr [OF st] st s assms(9,10) dlq
    by (simp add: step_incr_def same_stores_def item_done_eq m_def)
qed

text \<open>A failure that is not retried leaves the worker about to write the dead-letter row.\<close>

lemma terminal_run:
  assumes "q_items (c_queue c) = item # items" and "admitted (e_now ev) (req_url (qi_request item)) c"
    and "execute_request (qi_request item) (qi_attempt item) (e_http ev) = Inl e0" and "classify e0 = (tell, e)"
    and "\<not> ((is_RetryableError e \<or> is_CircuitOpenError e) \<and> should_retry (retry (c_cfg c)) (qi_attempt item))"
  shows "\<exists>c'. worker_run [ev, ev, ev] WIdle c = Some (WPush item e, c') \<and> same_stores c c'
     \<and> c_queue c' = (c_queue c)\<lparr>q_items := items\<rparr>"
proof -
  obtain c1 where run: "worker_run [ev, ev, ev] WIdle c = Some (retry_or_dlq ev item e None c1)"
    and s: "same_stores c c1" "c_queue c1 = (c_queue c)\<lparr>q_items := items\<rparr>"
    using attempt_fails [OF assms(1-4)] by blast
  have "c_cfg c1 = c_cfg c" using s(1) by (simp add: same_stores_def)
  then show ?thesis using run s assms(5) by (auto simp: retry_or_dlq_def Let_def same_stores_def)
qed

lemma worker_run_client:
  assumes "worker_run evs (c_workers c ! i) c = Some (w', c')" and "i < length (c_workers c)"
  shows "client_step\<^sup>*\<^sup>* c (c'\<lparr>c_workers := (c_workers c)[i := w']\<rparr>)"
  using worker_run_steps [OF assms(1), of i "c_workers c"] assms(2) by simp

lemma start_run_snoc: "start_run n c = Some c' \<Longrightarrow> start_run (Suc n) c = start_segment c'"
proof (induction n arbitrary: c)
  case 0
  then show ?case by (auto split: option.splits)
next
  case (Suc n)
  then obtain c1 where "start_segment c = Some c1" "start_run n c1 = Some c'" by (auto split: option.splits)
  then show ?case using Suc.IH [of c1] by simp
qed

section \<open>Work that is lost\<close>

lemma lost_forever:
  assumes ok: "client_ok c" and split: "jobs (abs_client c) = add_mset (k, x) (jobs (abs_client c'))"
    and same: "pend (abs_client c') k = pend (abs_client c) k" "rows (abs_client c') k = rows (abs_client c) k"
    and ok': "client_ok c'" and later: "client_step\<^sup>*\<^sup>* c' c''"
  shows "pending_for (c_dedup c) k \<noteq> None \<and> pending_for (c_dedup c'') k = pending_for (c_dedup c) k
     \<and> k \<notin># keys_of (abs_client c'') \<and> row_count (st_db (c_storage c'')) k = row_count (st_db (c_storage c)) k"
proof -
  have inv: "ledger_inv (abs_client c)" by (rule client_okD(6) [OF ok])
  have "orphan (abs_client c') k"
    using ledger_invD(2) [OF inv, of k x] no_other_job [OF inv split] split same(1)
    by (auto simp: orphan_def keys_of_def)
  then have "orphan (abs_client c'') k \<and> pend (abs_client c'') k = pend (abs_client c') k
      \<and> rows (abs_client c'') k = rows (abs_client c') k"
    using client_steps_both [OF later ok'] orphan_steps by blast
  with same show ?thesis by (auto simp: orphan_def abs_client_def flow_def)
qed

text \<open>While its future is pending a caller cannot move.\<close>

lemma pending_blocks: "pending_for (c_dedup c) k = Some f \<Longrightarrow> caller_segment ev (CAwait f) c = None"
  by (auto simp: pending_for_def caller_wake_def fut_done_def fut_state_def split: option.splits if_splits)

section \<open>A request from its submission to its answer\<close>

text \<open>
  Where the two paths below start: a running client with nothing queued, a free worker, a free key,
  a closed breaker and a token.
\<close>

definition ready :: "real \<Rightarrow> Request \<Rightarrow> nat \<Rightarrow> Client \<Rightarrow> bool" where
  "ready now req i c \<longleftrightarrow> c_session c \<and> q_items (c_queue c) = [] \<and> 0 < q_max (c_queue c)
     \<and> i < length (c_workers c) \<and> c_workers c ! i = WIdle
     \<and> pending_for (c_dedup c) (idempotency_key req) = None \<and> admitted now (req_url req) c"

lemma queued_steps:
  assumes ok: "client_ok c" and r: "ready now req i c" and "request_payload req = Inr payload"
  shows "\<exists>f c'. client_step\<^sup>*\<^sup>* (request_begin req c) c' \<and> c_callers c' = c_callers c @ [CAwait f]
     \<and> pending_for (c_dedup c') (idempotency_key req) = Some f \<and> reg_ok (c_dedup c')
     \<and> row_count (st_db (c_storage c')) = (row_count (st_db (c_storage c)))(idempotency_key req \<mapsto> 0)
     \<and> dead_letter_queue (st_db (c_storage c')) = dead_letter_queue (st_db (c_storage c))
     \<and> q_items (c_queue c') = [\<lparr>qi_request = req, qi_attempt = 0\<rparr>] \<and> 0 < q_unfinished (c_queue c')
     \<and> st_open (c_storage c') \<and> admitted now (req_url req) c' \<and> c_workers c' = c_workers c
     \<and> requests_succeeded (c_metrics c') = requests_succeeded (c_metrics c) \<and> c_cfg c' = c_cfg c
     \<and> c_stopping c' = c_stopping c \<and> q_max (c_queue c') = q_max (c_queue c) \<and> same_life c c'"
proof -
  have pre: "c_session c" "st_open (c_storage c)" "reg_ok (c_dedup c)" "\<not> is_full (c_queue c)"
    "pending_for (c_dedup c) (idempotency_key req) = None"
    using client_okD(1,4) [OF ok] r by (auto simp: ready_def is_full_def depth_def)
  have "0 \<le> q_unfinished (c_queue c)" using client_okD(8) [OF ok] by (simp add: unfinished_ok_def depth_def)
  then have "q_items (put (c_queue c) x) = [x] \<and> 0 < q_unfinished (put (c_queue c) x)
      \<and> q_max (put (c_queue c) x) = q_max (c_queue c)" for x
    using r by (simp add: ready_def put_def)
  moreover have "admitted now (req_url req) c' = admitted now (req_url req) c"
    if "c_breakers c' = c_breakers c" "c_rate_limiter c' = c_rate_limiter c" for c' using that by (simp add: admitted_def)
  ultimately show ?thesis using submit_steps [OF pre assms(3)] r unfolding ready_def same_life_def by (metis (no_types, lifting))
qed

lemma served_steps:
  assumes ok: "client_ok c" and r: "ready now req i c" and pl: "request_payload req = Inr payload"
    and "execute_request req 0 outcome = Inr resp"
  shows "\<exists>c'. client_step\<^sup>*\<^sup>* (request_begin req c) c' \<and> c_callers c' = c_callers c @ [CReturned resp]
     \<and> row_count (st_db (c_storage c')) (idempotency_key req) = None
     \<and> row_count (st_db (c_storage c')) = (row_count (st_db (c_storage c)))(idempotency_key req := None)
     \<and> c_workers c' = c_workers c \<and> q_items (c_queue c') = [] \<and> same_life c c'
     \<and> pending_for (c_dedup c') (idempotency_key req) = None
     \<and> dead_letter_queue (st_db (c_storage c')) = dead_letter_queue (st_db (c_storage c))
     \<and> requests_succeeded (c_metrics c') = requests_succeeded (c_metrics c) + 1"
proof -
  let ?item = "\<lparr>qi_request = req, qi_attempt = 0\<rparr>"
  have key: "item_key ?item = idempotency_key req" by (simp add: item_key_def)
  obtain f c1 where c1: "client_step\<^sup>*\<^sup>* (request_begin req c) c1" "c_callers c1 = c_callers c @ [CAwait f]"
    "pending_for (c_dedup c1) (idempotency_key req) = Some f" "reg_ok (c_dedup c1)"
    "dead_letter_queue (st_db (c_storage c1)) = dead_letter_queue (st_db (c_storage c))"
    "q_items (c_queue c1) = [?item]" "0 < q_unfinished (c_queue c1)" "st_open (c_storage c1)"
    "admitted now (req_url (qi_request ?item)) c1" "c_workers c1 = c_workers c"
    "requests_succeeded (c_metrics c1) = requests_succeeded (c_metrics c)" "same_life c c1"
    "row_count (st_db (c_storage c1)) = (row_count (st_db (c_storage c)))(idempotency_key req \<mapsto> 0)"
    using queued_steps [OF ok r pl] by auto
  obtain c2 where c2: "client_step\<^sup>*\<^sup>* c1 c2" "c_dedup c2 = resolve (c_dedup c1) (item_key ?item) resp"
    "c_callers c2 = c_callers c1" "requests_succeeded (c_metrics c2) = requests_succeeded (c_metrics c1) + 1"
    "row_count (st_db (c_storage c2)) = (row_count (st_db (c_storage c1)))(item_key ?item := None)"
    "c_workers c2 = c_workers c1" "q_items (c_queue c2) = []" "same_life c1 c2"
    "dead_letter_queue (st_db (c_storage c2)) = dead_letter_queue (st_db (c_storage c1))"
    using serve_steps [OF c1(6,9) _ c1(8,7), of outcome resp i] r assms(4) c1(10) by (auto simp: ready_def)
  let ?c3 = "c2\<lparr>c_callers := (c_callers c2)[length (c_callers c) := CReturned resp]\<rparr>"
  have w: "caller_segment undefined (CAwait f) c2 = Some (CReturned resp, c2)" "pending_for (c_dedup c2) (idempotency_key req) = None"
    using resolved_wakes [OF c1(4,3), of c2 resp] c2(2) key by auto
  have "client_step c2 ?c3"
    by (rule client_step.caller_moves [of _ _ undefined]) (use c2(3) c1(2) w(1) in auto)
  then have "client_step\<^sup>*\<^sup>* (request_begin req c) ?c3" using c1(1) c2(1) by (meson rtranclp.rtrancl_into_rtrancl rtranclp_trans)
  then show ?thesis using c2 c1(2,5,10-13) w(2) key by (intro exI [of _ ?c3]) (simp add: same_life_def)
qed

lemma failed_steps:
  assumes ok: "client_ok c" and r: "ready now req i c" and pl: "request_payload req = Inr payload"
    and ex: "execute_request req 0 outcome = Inl e0" "classify e0 = (tell, e)"
    and "\<not> ((is_RetryableError e \<or> is_CircuitOpenError e) \<and> should_retry (retry (c_cfg c)) 0)"
  shows "\<exists>c' x. client_step\<^sup>*\<^sup>* (request_begin req c) c' \<and> c_callers c' = c_callers c @ [CFailed (Raised (terminal_exc e))]
     \<and> row_count (st_db (c_storage c')) (idempotency_key req) = None
     \<and> pending_for (c_dedup c') (idempotency_key req) = None
     \<and> dead_letter_queue (st_db (c_storage c')) = dead_letter_queue (st_db (c_storage c)) @ [x]
     \<and> d_key x = idempotency_key req \<and> d_payload x = payload \<and> d_error x = str_exc e \<and> d_last_attempt x = now"
proof -
  let ?item = "\<lparr>qi_request = req, qi_attempt = 0\<rparr>" and ?ev = "\<lparr>e_now = now, e_rand = 0, e_http = outcome\<rparr>"
  have key: "item_key ?item = idempotency_key req" by (simp add: item_key_def)
  obtain f c1 where c1: "client_step\<^sup>*\<^sup>* (request_begin req c) c1" "c_callers c1 = c_callers c @ [CAwait f]"
    "pending_for (c_dedup c1) (idempotency_key req) = Some f" "reg_ok (c_dedup c1)"
    "dead_letter_queue (st_db (c_storage c1)) = dead_letter_queue (st_db (c_storage c))"
    "q_items (c_queue c1) = [?item]" "0 < q_unfinished (c_queue c1)" "st_open (c_storage c1)"
    "admitted now (req_url req) c1" "c_workers c1 = c_workers c" "c_cfg c1 = c_cfg c"
    using queued_steps [OF ok r pl] by auto
  obtain c2 where c2: "worker_run [?ev, ?ev, ?ev] WIdle c1 = Some (WPush ?item e, c2)" "same_stores c1 c2"
    "c_queue c2 = (c_queue c1)\<lparr>q_items := []\<rparr>"
    using terminal_run [OF c1(6), of ?ev e0 tell e] c1(9,11) ex assms(6) by auto
  have "st_open (c_storage c2)" "0 < q_unfinished (c_queue c2)" using c1(7,8) c2(2,3) by (simp_all add: same_stores_def)
  from dead_letter_run [OF this, of ?item payload ?ev e] pl obtain c3 where
    c3: "worker_run [?ev, ?ev] (WPush ?item e) c2 = Some (WIdle, c3)"
    "c_dedup c3 = fail (c_dedup c1) (idempotency_key req) (terminal_exc e)" "c_callers c3 = c_callers c1"
    "row_count (st_db (c_storage c3)) (idempotency_key req) = None"
    "\<exists>x. dead_letter_queue (st_db (c_storage c3)) = dead_letter_queue (st_db (c_storage c1)) @ [x]
       \<and> d_key x = idempotency_key req \<and> d_payload x = payload \<and> d_error x = str_exc e \<and> d_last_attempt x = now"
    using c2(2) key by (auto simp: same_stores_def)
  have "worker_run ([?ev, ?ev, ?ev] @ [?ev, ?ev]) (c_workers c1 ! i) c1 = Some (WIdle, c3)"
    using worker_run_append [OF c2(1), of "[?ev, ?ev]"] c3(1) c1(10) r by (simp add: ready_def del: worker_run.simps)
  from worker_run_client [OF this] r c1(10) have s: "client_step\<^sup>*\<^sup>* c1 (c3\<lparr>c_workers := (c_workers c1)[i := WIdle]\<rparr>)"
    by (simp add: ready_def)
  let ?c3 = "c3\<lparr>c_workers := (c_workers c1)[i := WIdle]\<rparr>"
  let ?c4 = "?c3\<lparr>c_callers := (c_callers ?c3)[length (c_callers c) := CFailed (Raised (terminal_exc e))]\<rparr>"
  have w: "caller_segment undefined (CAwait f) ?c3 = Some (CFailed (Raised (terminal_exc e)), ?c3)"
    "pending_for (c_dedup ?c3) (idempotency_key req) = None"
    using failed_wakes [OF c1(4,3), of ?c3 "terminal_exc e"] c3(2) by auto
  have "client_step ?c3 ?c4"
    by (rule client_step.caller_moves [of _ _ undefined]) (use c3(3) c1(2) w(1) in auto)
  then have "client_step\<^sup>*\<^sup>* (request_begin req c) ?c4" using c1(1) s by (meson rtranclp.rtrancl_into_rtrancl rtranclp_trans)
  then show ?thesis using c3(3-5) c1(2,5) w(2) by (intro exI [of _ ?c4]) simp
qed

end
