(* ===== verification/Client_Demo.thy ===== *)
theory Client_Demo
  imports Client_Paths
begin

text \<open>
  Reachable clients for the examples: one that \<open>start\<close> brought up on an empty file, one with a
  request queued, one whose worker is about to dead-letter, one that stops with a retry pending.
\<close>

definition demo_new :: Client where
  "demo_new =
     \<lparr>c_cfg = default_ClientConfig, c_session = False,
      c_storage = \<lparr>st_path = ''ahc_state.db'', st_db = empty_db, st_open = False\<rparr>,
      c_queue = \<lparr>q_items = [], q_max = 1000, q_unfinished = 0\<rparr>, c_dedup = new_InFlightRegistry,
      c_rate_limiter = new_HostRateLimiter default_RateLimitConfig,
      c_breakers = new_HostCircuitBreakers default_CircuitBreakerConfig, c_workers = [], c_reschedules = [],
      c_stopping = False, c_metrics = new_Metrics 1000, c_hook = False, c_callers = [], c_phase = PIdle\<rparr>"

definition demo_started :: Client where
  "demo_started = demo_new\<lparr>c_session := True, c_workers := replicate 16 WIdle,
     c_storage := \<lparr>st_path = ''ahc_state.db'', st_db = empty_db, st_open = True\<rparr>\<rparr>"

lemma demo_new_Client: "new_Client default_ClientConfig empty_db = Inr demo_new"
  by (simp add: new_Client_def default_ClientConfig_def default_QueueConfig_def new_RequestQueue_def demo_new_def)

lemma demo_init: "client_init demo_new"
  unfolding client_init_def using demo_new_Client log_ok_empty
  by (intro exI [of _ default_ClientConfig] exI [of _ empty_db]) (simp add: default_ClientConfig_def)

lemma demo_new_reach: "reach client_init client_step demo_new"
  using demo_init by (rule reach_start)

text \<open>The same on a file that holds \<open>db\<close>.\<close>

definition demo_on :: "database \<Rightarrow> Client" where
  "demo_on db = demo_new\<lparr>c_storage := \<lparr>st_path = ''ahc_state.db'', st_db = db, st_open = False\<rparr>\<rparr>"

definition demo_up :: "database \<Rightarrow> Client" where
  "demo_up db = demo_started\<lparr>c_storage := \<lparr>st_path = ''ahc_state.db'', st_db = db, st_open = True\<rparr>\<rparr>"

lemma demo_on_Client: "new_Client default_ClientConfig db = Inr (demo_on db)"
  by (simp add: new_Client_def default_ClientConfig_def default_QueueConfig_def new_RequestQueue_def demo_on_def demo_new_def)

lemma demo_up_path:
  assumes "inflight_requests db = []"
  shows "\<exists>c. client_step (demo_on db) c \<and> client_step c (demo_up db) \<and> c_workers c = []"
proof -
  let ?s = "\<lparr>st_path = ''ahc_state.db'', st_db = db, st_open = True\<rparr>"
  let ?c = "(demo_on db)\<lparr>c_session := True, c_storage := ?s, c_phase := PRecover []\<rparr>"
  have "list_inflight ''f'' ''1.5'' ?s = Inr []"
    using collect_map_Inr [of "[]"] assms by (simp add: list_inflight_def)
  then have "snd (start_begin ''f'' ''1.5'' (demo_on db)) = ?c"
    by (simp add: start_begin_def demo_on_def demo_new_def st_open_conn_def)
  then have "client_step (demo_on db) ?c" using client_step.starting [of "demo_on db" "''f''" "''1.5''"] by simp
  moreover have "start_segment ?c = Some (demo_up db)"
    by (simp add: start_segment_def start_finish_def demo_up_def demo_on_def demo_started_def demo_new_def
        default_ClientConfig_def default_QueueConfig_def)
  then have "client_step ?c (demo_up db)" by (rule client_step.start_moves)
  moreover have "c_workers ?c = []" by (simp add: demo_on_def demo_new_def)
  ultimately show ?thesis by blast
qed

lemma demo_up_steps: "inflight_requests db = [] \<Longrightarrow> client_step\<^sup>*\<^sup>* (demo_on db) (demo_up db)"
  using demo_up_path by (meson r_into_rtranclp rtranclp.rtrancl_into_rtrancl)

lemma demo_up_reach:
  assumes "log_ok db" and "inflight_requests db = []"
  shows "reach client_init client_step (demo_up db)"
proof -
  have "client_init (demo_on db)"
    unfolding client_init_def using demo_on_Client assms(1)
    by (intro exI [of _ default_ClientConfig] exI [of _ db]) (simp add: default_ClientConfig_def)
  then show ?thesis using demo_up_steps [OF assms(2)] by (intro reach_steps [OF reach_start])
qed

lemma demo_new_steps: "client_step\<^sup>*\<^sup>* demo_new demo_started"
  using demo_up_steps [of empty_db] by (simp add: demo_on_def demo_up_def demo_started_def demo_new_def empty_db_def)

lemma demo_started_reach: "reach client_init client_step demo_started"
  using demo_new_reach demo_new_steps by (rule reach_steps)

lemma demo_attempts: "attempts_ok demo_new"
  by (simp add: attempts_ok_def budget_def rows_within_def demo_new_def default_ClientConfig_def default_RetryPolicy_def
      row_count_def find_inflight_def empty_db_def)

lemma demo_budget: "max_retries (retry (c_cfg demo_started)) = 5"
  by (simp add: demo_started_def demo_new_def default_ClientConfig_def default_RetryPolicy_def)

lemma sample_host: "host_of (req_url sample_request) = Inr ''api.example.com''"
  by code_simp

lemma fresh_admitted:
  assumes "c_breakers c = new_HostCircuitBreakers default_CircuitBreakerConfig"
    and "c_rate_limiter c = new_HostRateLimiter default_RateLimitConfig" and "host_of url = Inr host"
  shows "admitted now url c"
  using fresh_admits [OF assms] by (simp add: default_RateLimitConfig_def)

lemma demo_started_facts:
  "c_session demo_started" "st_open (c_storage demo_started)" "reg_ok (c_dedup demo_started)"
  "\<not> is_full (c_queue demo_started)" "pending_for (c_dedup demo_started) k = None" "c_callers demo_started = []"
  "c_workers demo_started = replicate 16 WIdle" "q_items (c_queue demo_started) = []"
  by (simp_all add: demo_started_def demo_new_def reg_ok_new is_full_def depth_def)

abbreviation demo_item :: QueueItem where
  "demo_item \<equiv> \<lparr>qi_request = sample_request, qi_attempt = 0\<rparr>"

lemma demo_submitted:
  "\<exists>c f. reach client_init client_step c \<and> client_step\<^sup>*\<^sup>* demo_started c \<and> c_callers c = [CAwait f]
     \<and> q_items (c_queue c) = [demo_item] \<and> 0 < q_unfinished (c_queue c) \<and> st_open (c_storage c)
     \<and> row_count (st_db (c_storage c)) (item_key demo_item) = Some 0
     \<and> pending_for (c_dedup c) (item_key demo_item) = Some f \<and> reg_ok (c_dedup c)
     \<and> c_workers c = replicate 16 WIdle \<and> admitted 1 (req_url sample_request) c
     \<and> c_cfg c = default_ClientConfig \<and> c_session c \<and> c_phase c = PIdle \<and> c_reschedules c = []"
proof -
  obtain p where p: "request_payload sample_request = Inr p" using sample_payload by blast
  obtain f c where c: "client_step\<^sup>*\<^sup>* demo_started c" "c_callers c = c_callers demo_started @ [CAwait f]"
     "pending_for (c_dedup c) (idempotency_key sample_request) = Some f" "reg_ok (c_dedup c)"
     "row_count (st_db (c_storage c)) = (row_count (st_db (c_storage demo_started)))(idempotency_key sample_request \<mapsto> 0)"
     "c_queue c = put (c_queue demo_started) demo_item" "st_open (c_storage c)"
     "c_breakers c = c_breakers demo_started" "c_rate_limiter c = c_rate_limiter demo_started"
     "c_workers c = c_workers demo_started" "c_cfg c = c_cfg demo_started" "c_session c"
     "c_phase c = c_phase demo_started" "c_reschedules c = c_reschedules demo_started"
    using submit_steps [OF demo_started_facts(1-5) p] begin_steps [OF sample_request_ok] by blast
  have "admitted 1 (req_url sample_request) c"
    using c(8,9) sample_host by (intro fresh_admitted) (simp_all add: demo_started_def demo_new_def)
  moreover have "reach client_init client_step c" by (rule reach_steps [OF demo_started_reach c(1)])
  ultimately show ?thesis
    using c by (intro exI [of _ c] exI [of _ f]) (simp add: demo_started_facts item_key_def put_def,
        simp add: demo_started_def demo_new_def)
qed

lemma replicate_idle: "replicate 16 WIdle ! 0 = WIdle" "0 < length (replicate 16 WIdle)"
  by (simp_all add: numeral_eq_Suc)

definition env404 :: env where
  "env404 = \<lparr>e_now = 1, e_rand = 0, e_http = HttpResponse 404 [] []\<rparr>"

definition env503 :: env where
  "env503 = \<lparr>e_now = 1, e_rand = 0, e_http = HttpResponse 503 [] []\<rparr>"

abbreviation not_found :: exc where
  "not_found \<equiv> NonRetryableError ''HTTP 404'' (Some 404) PyNone"

lemma demo_404: "execute_request (qi_request demo_item) (qi_attempt demo_item) (e_http env404) = Inl not_found"
  "classify not_found = (True, not_found)" by code_simp+

lemma demo_503: "execute_request (qi_request demo_item) (qi_attempt demo_item) (e_http env503) =
    Inl (RetryableError ''HTTP 503'' (Some 503) None)"
  "classify (RetryableError ''HTTP 503'' (Some 503) None) = (True, RetryableError ''HTTP 503'' (Some 503) None)"
  by code_simp+

text \<open>A worker is about to write the dead-letter row of a request that got a 404.\<close>

lemma demo_pushing:
  "\<exists>c. reach client_init client_step c \<and> c_session c \<and> 0 < length (c_workers c)
     \<and> c_workers c ! 0 = WPush demo_item not_found"
proof -
  obtain c f where c: "reach client_init client_step c" "q_items (c_queue c) = [demo_item]"
    "c_workers c = replicate 16 WIdle" "admitted 1 (req_url sample_request) c" "c_session c"
    using demo_submitted by blast
  obtain c1 where c1: "worker_run [env404, env404, env404] WIdle c = Some (WPush demo_item not_found, c1)" "same_stores c c1"
    using terminal_run [OF c(2) _ demo_404] c(4) by (auto simp: env404_def)
  have idle: "c_workers c ! 0 = WIdle" "0 < length (c_workers c)" using c(3) replicate_idle by simp_all
  have "client_step\<^sup>*\<^sup>* c (c1\<lparr>c_workers := (c_workers c)[0 := WPush demo_item not_found]\<rparr>)"
    using worker_run_client [OF _ idle(2)] idle(1) c1(1) by metis
  from reach_steps [OF c(1) this] show ?thesis using c(3,5) c1(2) replicate_idle
    by (intro exI [of _ "c1\<lparr>c_workers := (c_workers c)[0 := WPush demo_item not_found]\<rparr>"]) (simp add: same_stores_def)
qed

text \<open>The client is asked to stop while a retry of a request that got a 503 is waiting.\<close>

lemma demo_stopping:
  "\<exists>c d. reach client_init client_step c \<and> c_stopping c \<and> c_reschedules c = [(demo_item\<lparr>qi_attempt := 1\<rparr>, d)]"
proof -
  obtain c f where c: "reach client_init client_step c" "q_items (c_queue c) = [demo_item]"
    "0 < q_unfinished (c_queue c)" "st_open (c_storage c)" "row_count (st_db (c_storage c)) (item_key demo_item) = Some 0"
    "c_workers c = replicate 16 WIdle" "admitted 1 (req_url sample_request) c" "c_cfg c = default_ClientConfig"
    "c_session c" "c_phase c = PIdle" "c_reschedules c = []"
    using demo_submitted by blast
  let ?e = "RetryableError ''HTTP 503'' (Some 503) None"
  have "\<exists>d. backoff_seconds (retry (c_cfg c)) 0 None (e_rand env503) = Inr d"
    using backoff_finite [of 0 "e_rand env503" "retry (c_cfg c)" None] by (auto simp: env503_def)
  then obtain d where d: "backoff_seconds (retry (c_cfg c)) 0 None (e_rand env503) = Inr d" by blast
  have "admitted (e_now env503) (req_url (qi_request demo_item)) c" using c(7) by (simp add: env503_def)
  moreover have "should_retry (retry (c_cfg c)) 0"
    using c(8) by (simp add: should_retry_def default_ClientConfig_def default_RetryPolicy_def)
  ultimately obtain c1 where c1: "worker_run [env503, env503, env503, env503] WIdle c = Some (WIdle, c1)"
    "c_reschedules c1 = [(demo_item\<lparr>qi_attempt := 1\<rparr>, d)]" "c_session c1" "c_phase c1 = PIdle"
    using retry_run [of c demo_item "[]" env503 _ _ ?e d] demo_503 d c by auto
  let ?c2 = "c1\<lparr>c_workers := (c_workers c)[0 := WIdle]\<rparr>"
  have idle: "c_workers c ! 0 = WIdle" "0 < length (c_workers c)" using c(6) replicate_idle by simp_all
  have "client_step\<^sup>*\<^sup>* c ?c2" using worker_run_client [OF _ idle(2)] idle(1) c1(1) by metis
  from reach_steps [OF c(1) this] have "reach client_init client_step ?c2" .
  moreover have "client_step ?c2 (stop_begin ?c2)" by (rule client_step.stopping) (simp add: c1(4))
  ultimately have "reach client_init client_step (stop_begin ?c2)" by (rule reach_next)
  moreover have "c_stopping (stop_begin ?c2)" "c_reschedules (stop_begin ?c2) = [(demo_item\<lparr>qi_attempt := 1\<rparr>, d)]"
    using c1(2,3) by (auto simp: stop_begin_def)
  ultimately show ?thesis by blast
qed

text \<open>A log with one row.\<close>

lemma demo_log: "\<exists>db. log_ok db \<and> length (inflight_requests db) = 1"
proof -
  obtain p where p: "request_payload sample_request = Inr p" using sample_payload by blast
  obtain s where s: "upsert_inflight sample_request STATUS_PENDING 0 None 5 open_storage = Inr ((), s)"
    "length (inflight_requests (st_db s)) = 1"
    using p by (simp add: upsert_inflight_def run_sql_def open_storage_def sql_upsert_def empty_db_def)
  have "log_ok (st_db open_storage)" by (simp add: open_storage_def log_ok_empty)
  from upsert_log_ok [OF this sample_request_ok s(1)] s(2) show ?thesis by blast
qed

lemma demo_up_ready: "req_url req = req_url sample_request \<Longrightarrow> ready 1 req 0 (demo_up db)"
proof -
  assume u: "req_url req = req_url sample_request"
  have "admitted 1 (req_url req) (demo_up db)"
    using sample_host u by (intro fresh_admitted) (simp_all add: demo_up_def demo_started_def demo_new_def)
  then show ?thesis using replicate_idle by (simp add: ready_def demo_up_def demo_started_def demo_new_def)
qed

lemma demo_ready: "ready 1 sample_request 0 demo_started"
  using demo_up_ready [of sample_request empty_db] by (simp add: demo_up_def demo_started_def)

end
