(* ===== verification/Dead_Letter.thy ===== *)
theory Dead_Letter
  imports Client_Demo
begin

text \<open>
  \<open>dead_letter.py\<close>: listing, replaying and purging the dead-letter queue through a live client. A
  replay is a coroutine of its own: it removes the row, submits the request again and waits for the
  caller it became. The loop of \<open>replay_all\<close> walks a snapshot of the table. Its segments interleave
  with all steps of the client; every one of them is itself a sequence of such steps, so what holds
  of every execution of the client also holds while entries are replayed.
\<close>

section \<open>Operations\<close>

record ReplayResult =
  rr_row_id :: int
  rr_request_id :: string
  rr_succeeded :: bool
  rr_error :: "string option"

definition list_entries :: "string \<Rightarrow> string \<Rightarrow> int \<Rightarrow> Storage \<Rightarrow> DeadLetterRow list res" where
  "list_entries fid t limit s = list_dead_letter fid t limit s"

definition purge :: "Storage \<Rightarrow> (int \<times> Storage) res" where
  "purge s = purge_dead_letter s"

text \<open>The request a row is submitted as; \<open>rid\<close> and \<open>now\<close> are its fresh identifier and time.\<close>

definition replay_request :: "string \<Rightarrow> string \<Rightarrow> DeadLetterRow \<Rightarrow> Request" where
  "replay_request rid now row =
     (let r = dl_request row in
      mk_request (req_method r) (req_url r) (Some (req_params r)) (Some (req_headers r)) (req_body r)
        (req_priority r) rid now)"

text \<open>
  Where \<open>replay_entry\<close> is: before the removal of the row, waiting for the caller with the given
  position, returned, or left by an exception it does not catch.
\<close>

datatype replay =
    RRemove DeadLetterRow
  | RWait DeadLetterRow nat
  | RDone ReplayResult
  | RRaised call_error

definition replay_remove :: "string \<Rightarrow> string \<Rightarrow> DeadLetterRow \<Rightarrow> Client \<Rightarrow> replay \<times> Client" where
  "replay_remove rid now row c =
     (case remove_dead_letter (dl_id row) (c_storage c) of
        Inl e \<Rightarrow> (RRaised (PyRaised e), c)
      | Inr (_, s) \<Rightarrow>
          (RWait row (length (c_callers c)), request_begin (replay_request rid now row) (c\<lparr>c_storage := s\<rparr>)))"

fun replay_outcome :: "DeadLetterRow \<Rightarrow> caller \<Rightarrow> replay option" where
  "replay_outcome row (CReturned _) =
     Some (RDone \<lparr>rr_row_id = dl_id row, rr_request_id = dl_request_id row, rr_succeeded = True, rr_error = None\<rparr>)"
| "replay_outcome row (CFailed (Raised e)) =
     Some (if is_AsyncHardenedError e
           then RDone \<lparr>rr_row_id = dl_id row, rr_request_id = dl_request_id row, rr_succeeded = False,
                       rr_error = Some (str_exc e)\<rparr>
           else RRaised (Raised e))"
| "replay_outcome row (CFailed (PyRaised e)) = Some (RRaised (PyRaised e))"
| "replay_outcome row (CFailed CancelledError) = Some (RRaised CancelledError)"
| "replay_outcome row _ = None"

text \<open>The next segment of \<open>replay_entry\<close>, \<open>None\<close> while it waits or when it has ended.\<close>

fun replay_segment :: "string \<Rightarrow> string \<Rightarrow> replay \<Rightarrow> Client \<Rightarrow> (replay \<times> Client) option" where
  "replay_segment rid now (RRemove row) c = Some (replay_remove rid now row c)"
| "replay_segment rid now (RWait row i) c =
     (case replay_outcome row (c_callers c ! i) of None \<Rightarrow> None | Some p \<Rightarrow> Some (p, c))"
| "replay_segment rid now (RDone _) c = None"
| "replay_segment rid now (RRaised _) c = None"

text \<open>\<open>replay_all\<close>: the entry in work, the rows still to do and the results so far.\<close>

datatype replay_loop =
    LRun replay "DeadLetterRow list" "ReplayResult list"
  | LDone "ReplayResult list"
  | LRaised call_error

fun loop_next :: "DeadLetterRow list \<Rightarrow> ReplayResult list \<Rightarrow> replay_loop" where
  "loop_next [] results = LDone results"
| "loop_next (row # todo) results = LRun (RRemove row) todo results"

definition replay_all_begin :: "string \<Rightarrow> string \<Rightarrow> Client \<Rightarrow> replay_loop" where
  "replay_all_begin fid t c =
     (case list_dead_letter fid t 10000 (c_storage c) of
        Inl e \<Rightarrow> LRaised (PyRaised e)
      | Inr snap \<Rightarrow> loop_next snap [])"

fun loop_segment :: "string \<Rightarrow> string \<Rightarrow> replay_loop \<Rightarrow> Client \<Rightarrow> (replay_loop \<times> Client) option" where
  "loop_segment rid now (LRun p todo results) c =
     (case replay_segment rid now p c of
        None \<Rightarrow> None
      | Some (p', c') \<Rightarrow>
          Some (case p' of
                  RDone r \<Rightarrow> loop_next todo (results @ [r])
                | RRaised e \<Rightarrow> LRaised e
                | _ \<Rightarrow> LRun p' todo results, c'))"
| "loop_segment rid now (LDone _) c = None"
| "loop_segment rid now (LRaised _) c = None"

text \<open>The replay interleaved with everything else that runs on the client.\<close>

inductive replay_step :: "replay_loop \<times> Client \<Rightarrow> replay_loop \<times> Client \<Rightarrow> bool" where
  others: "client_step c c' \<Longrightarrow> replay_step (l, c) (l, c')"
| replays: "float_ok now \<Longrightarrow> loop_segment rid now l c = Some (l', c') \<Longrightarrow> replay_step (l, c) (l', c')"

inductive_cases replay_stepE: "replay_step x y"

section \<open>A replay is a sequence of client steps\<close>

fun entry_row :: "replay \<Rightarrow> DeadLetterRow list" where
  "entry_row (RRemove row) = [row]"
| "entry_row (RWait row _) = [row]"
| "entry_row _ = []"

fun loop_rows :: "replay_loop \<Rightarrow> DeadLetterRow list" where
  "loop_rows (LRun p todo _) = entry_row p @ todo"
| "loop_rows _ = []"

definition rows_ok :: "replay_loop \<Rightarrow> bool" where
  "rows_ok l \<longleftrightarrow> (\<forall>row \<in> set (loop_rows l). req_ok (dl_request row))"

lemma replay_request_ok: "req_ok (dl_request row) \<Longrightarrow> float_ok now \<Longrightarrow> req_ok (replay_request rid now row)"
  by (simp add: replay_request_def mk_request_def req_ok_def Let_def)

text \<open>The replayed request has the key of the one that failed.\<close>

lemma replay_request_key: "idempotency_key (replay_request rid now row) = idempotency_key (dl_request row)"
  by (simp add: replay_request_def mk_request_def Let_def idempotency_key_def key_payload_def)

lemma replay_segment_steps:
  assumes "replay_segment rid now p c = Some (p', c')" and "float_ok now" and "\<forall>row \<in> set (entry_row p). req_ok (dl_request row)"
  shows "client_step\<^sup>*\<^sup>* c c'"
proof (cases p)
  case (RRemove row)
  show ?thesis
  proof (cases "remove_dead_letter (dl_id row) (c_storage c)")
    case (Inr us)
    then obtain u s where us: "remove_dead_letter (dl_id row) (c_storage c) = Inr (u, s)" by (cases us) auto
    with RRemove assms(1) have "c' = request_begin (replay_request rid now row) (c\<lparr>c_storage := s\<rparr>)"
      by (simp add: replay_remove_def)
    moreover have "req_ok (replay_request rid now row)" using RRemove assms(2,3) by (simp add: replay_request_ok)
    ultimately show ?thesis using removing [OF us] begin_steps by (meson converse_rtranclp_into_rtranclp rtranclp.rtrancl_refl)
  qed (use RRemove assms(1) in \<open>simp add: replay_remove_def\<close>)
qed (use assms(1) in \<open>auto split: option.splits\<close>)

lemma loop_segment_steps:
  assumes "loop_segment rid now l c = Some (l', c')" and "float_ok now" and "rows_ok l"
  shows "client_step\<^sup>*\<^sup>* c c'"
  using assms replay_segment_steps by (cases l) (fastforce simp: rows_ok_def split: option.splits)+

text \<open>The rows of the loop only get fewer.\<close>

lemma loop_rows_next: "loop_rows (loop_next todo results) = todo"
  by (cases todo) simp_all

lemma replay_segment_rows:
  assumes "replay_segment rid now p c = Some (p', c')"
  shows "set (entry_row p') \<subseteq> set (entry_row p)"
  using assms by (cases p; auto simp: replay_remove_def split: option.splits sum.splits if_splits elim!: replay_outcome.elims)

lemma loop_segment_rows:
  assumes "loop_segment rid now l c = Some (l', c')"
  shows "set (loop_rows l') \<subseteq> set (loop_rows l)"
proof (cases l)
  case (LRun p todo results)
  with assms obtain p' where p': "replay_segment rid now p c = Some (p', c')"
    "l' = (case p' of RDone r \<Rightarrow> loop_next todo (results @ [r]) | RRaised e \<Rightarrow> LRaised e | _ \<Rightarrow> LRun p' todo results)"
    by (auto split: option.splits)
  show ?thesis using replay_segment_rows [OF p'(1)] p'(2) LRun by (cases p') (auto simp: loop_rows_next)
qed (use assms in simp_all)

lemma replay_step_both:
  assumes "replay_step (l, c) (l', c')" and "rows_ok l"
  shows "client_step\<^sup>*\<^sup>* c c' \<and> rows_ok l'"
  using assms loop_segment_steps loop_segment_rows
  by (elim replay_stepE) (auto simp: rows_ok_def, blast)

lemma replay_steps_client:
  "replay_step\<^sup>*\<^sup>* (l, c) (l', c') \<Longrightarrow> rows_ok l \<Longrightarrow> client_step\<^sup>*\<^sup>* c c' \<and> rows_ok l'"
proof (induction rule: rtranclp_induct2)
  case (step l1 c1 l2 c2)
  then show ?case using replay_step_both [of l1 c1 l2 c2] by (meson rtranclp_trans)
qed simp

section \<open>The client writes through the storage operations only\<close>

lemmas storage_once = storage_step.intros [THEN r_into_rtranclp [of storage_step]]

lemma worker_dies_storage: "worker_dies e c = (w, c') \<Longrightarrow> c_storage c' = c_storage c"
  by (auto simp: worker_dies_def split: sum.splits)

lemma item_done_storage: "item_done c = (w, c') \<Longrightarrow> c_storage c' = c_storage c"
  by (auto simp: item_done_def split: sum.splits)

lemma worker_segment_storage:
  assumes "worker_segment ev w c = Some (w', c')" and "\<forall>r \<in> worker_reqs w. req_ok r"
  shows "storage_step\<^sup>*\<^sup>* (c_storage c) (c_storage c')"
proof (cases w)
  case WIdle
  with assms(1) obtain item q where "handle_gate ev item (c\<lparr>c_queue := q\<rparr>) = (w', c')"
    by (auto split: option.splits)
  from handle_gate_within [OF this] show ?thesis by simp
next
  case (WExecute item host)
  with assms(1) step_execute_within [of ev item host c w' c'] show ?thesis by simp
next
  case (WIncr item e d)
  with assms(1) show ?thesis
    by (auto simp: step_incr_def split: sum.splits dest!: worker_dies_storage item_done_storage intro: storage_once)
next
  case (WPush item e)
  with assms show ?thesis
    by (auto simp: step_push_def split: sum.splits dest!: worker_dies_storage intro: storage_once)
next
  case (WDelFail item e)
  with assms(1) show ?thesis
    by (auto simp: step_del_fail_def split: sum.splits dest!: worker_dies_storage item_done_storage intro: storage_once)
next
  case (WDelOk item r)
  with assms(1) show ?thesis
    by (auto simp: step_del_ok_def step_hook_def split: sum.splits if_splits
        dest!: worker_dies_storage item_done_storage; blast intro: storage_once)
next
  case (WHook item r)
  with assms(1) show ?thesis by (auto simp: step_hook_def dest!: item_done_storage)
qed (use assms(1) in \<open>auto simp: step_acquire_def Let_def split: prod.splits acquire_result.splits\<close>)

lemma client_step_storage:
  assumes ok: "client_ok c" and "client_step c c'"
  shows "storage_step\<^sup>*\<^sup>* (c_storage c) (c_storage c')"
  using assms(2)
proof (cases rule: client_step.cases)
  case (request req)
  then show ?thesis by (auto simp: request_begin_def split: prod.splits)
next
  case (caller_moves i ev p d)
  have "\<forall>r \<in> caller_reqs (c_callers c ! i). req_ok r"
    using ok caller_moves(2) by (force simp: client_ok_def held_def)
  with caller_moves show ?thesis
    by (cases "c_callers c ! i") (auto simp: caller_persist_def caller_enqueue_def caller_wake_def
        split: sum.splits option.splits future.splits intro: storage_once)
next
  case (worker_moves i ev w d)
  have "\<forall>r \<in> worker_reqs (c_workers c ! i). req_ok r"
    using ok worker_moves(2) by (force simp: client_ok_def held_def)
  with worker_moves worker_segment_storage show ?thesis by auto
next
  case (reschedule k)
  then show ?thesis by (auto simp: reschedule_fires_def Let_def split: if_splits option.splits)
next
  case (starting fid t)
  then show ?thesis by (auto simp: start_begin_def Let_def split: sum.splits intro: storage_once)
next
  case start_moves
  then show ?thesis
    by (auto simp: start_segment_def start_finish_def recover_row_def Let_def
        split: phase.splits list.splits option.splits prod.splits)
next
  case stopping
  then show ?thesis by (auto simp: stop_begin_def)
next
  case stop_moves
  then show ?thesis by (auto simp: stop_segment_def stop_finish_def split: phase.splits if_splits intro: storage_once)
next
  case reading_metrics
  then show ?thesis by (auto simp: client_metrics_def Let_def)
next
  case (hooking hook)
  then show ?thesis by (auto simp: set_response_hook_def)
next
  case removing
  then show ?thesis by (auto intro: storage_once)
qed

lemma client_steps_storage:
  "client_step\<^sup>*\<^sup>* c c' \<Longrightarrow> client_ok c \<Longrightarrow> storage_step\<^sup>*\<^sup>* (c_storage c) (c_storage c')"
proof (induction rule: rtranclp_induct)
  case (step d e)
  then show ?case using client_step_storage [of d e] client_steps_both [of c d] by (meson rtranclp_trans)
qed simp

section \<open>Replaying the whole table\<close>

text \<open>No operation brings back an identifier that was removed.\<close>

abbreviation dlq_ids :: "Storage \<Rightarrow> int set" where
  "dlq_ids s \<equiv> d_id ` set (dead_letter_queue (st_db s))"

lemma storage_step_ids:
  assumes "storage_step s s'" and "st_path s \<noteq> '':memory:''"
  shows "dlq_ids s' \<inter> {..dlq_seq (st_db s)} \<subseteq> dlq_ids s"
  using assms
proof (induction rule: storage_step.induct)
  case s_push
  then show ?case
    by (auto simp: push_dead_letter_def run_sql_Inr sql_insert_dlq_def Let_def split: sum.splits)
qed (auto simp: st_open_conn_def st_close_def upsert_inflight_def mark_inflight_status_def increment_retry_def
      delete_inflight_def remove_dead_letter_def purge_dead_letter_def run_sql_Inr sql_upsert_def Let_def
      sql_update_inflight_def sql_delete_inflight_def split: sum.splits)

definition gone :: "DeadLetterRow \<Rightarrow> Client \<Rightarrow> bool" where
  "gone row c \<longleftrightarrow> dl_id row \<le> dlq_seq (st_db (c_storage c)) \<and> dl_id row \<notin> dlq_ids (c_storage c)"

lemma gone_storage:
  "storage_step\<^sup>*\<^sup>* s s' \<Longrightarrow> st_path s \<noteq> '':memory:'' \<Longrightarrow> i \<le> dlq_seq (st_db s) \<Longrightarrow> i \<notin> dlq_ids s \<Longrightarrow> i \<notin> dlq_ids s'"
proof (induction rule: rtranclp_induct)
  case (step y z)
  then show ?case using storage_step_ids [of y z] steps_seq_mono [OF step.hyps(1) step.prems(1)] by force
qed simp

lemma gone_steps:
  assumes "client_step\<^sup>*\<^sup>* c c'" and "client_ok c" and "gone row c"
  shows "gone row c'"
  using gone_storage [OF client_steps_storage [OF assms(1,2)]] steps_seq_mono [OF client_steps_storage [OF assms(1,2)]]
    client_okD(3) [OF assms(2)] assms(3)
  by (fastforce simp: gone_def)

lemma removed_gone:
  assumes "remove_dead_letter (dl_id row) (c_storage c) = Inr (u, s)" and "dl_id row \<le> dlq_seq (st_db (c_storage c))"
  shows "gone row (c\<lparr>c_storage := s\<rparr>)"
  using assms by (auto simp: gone_def remove_dead_letter_def run_sql_Inr)

text \<open>What the loop has done of a snapshot: the results so far are those of the rows handled, and
  every row handled or in work is gone from the table.\<close>

fun loop_done :: "DeadLetterRow list \<Rightarrow> replay_loop \<Rightarrow> Client \<Rightarrow> bool" where
  "loop_done snap (LRun p todo results) c \<longleftrightarrow>
     (\<exists>past row. snap = past @ row # todo \<and> map rr_row_id results = map dl_id past \<and> (\<forall>r \<in> set past. gone r c)
       \<and> (\<forall>r \<in> set results. rr_succeeded r \<longleftrightarrow> rr_error r = None)
       \<and> (p = RRemove row \<or> gone row c \<and> (\<exists>i. p = RWait row i)))"
| "loop_done snap (LDone results) c \<longleftrightarrow>
     map rr_row_id results = map dl_id snap \<and> (\<forall>r \<in> set snap. gone r c)
     \<and> (\<forall>r \<in> set results. rr_succeeded r \<longleftrightarrow> rr_error r = None)"
| "loop_done snap (LRaised _) c \<longleftrightarrow> True"

lemma loop_done_next:
  assumes "snap = past @ todo" and "map rr_row_id results = map dl_id past" and "\<forall>r \<in> set past. gone r c"
    and "\<forall>r \<in> set results. rr_succeeded r \<longleftrightarrow> rr_error r = None"
  shows "loop_done snap (loop_next todo results) c"
  using assms by (cases todo) auto

lemma loop_done_client:
  assumes "loop_done snap l c" and "client_step\<^sup>*\<^sup>* c c'" and "client_ok c"
  shows "loop_done snap l c'"
proof (cases l)
  case (LRun p todo results)
  with assms(1) obtain past row where "snap = past @ row # todo" "map rr_row_id results = map dl_id past"
    "\<forall>r \<in> set past. gone r c" "\<forall>r \<in> set results. rr_succeeded r \<longleftrightarrow> rr_error r = None"
    "p = RRemove row \<or> gone row c \<and> (\<exists>i. p = RWait row i)" by auto
  then show ?thesis unfolding LRun using gone_steps [OF assms(2,3)] by (auto intro!: exI [of _ past] exI [of _ row])
qed (use assms(1) gone_steps [OF assms(2,3)] in auto)

lemma replay_outcome_cases:
  assumes "replay_outcome row p = Some q"
  shows "(\<exists>r. q = RDone r \<and> rr_row_id r = dl_id row \<and> (rr_succeeded r \<longleftrightarrow> rr_error r = None)) \<or> (\<exists>e. q = RRaised e)"
  using assms by (auto elim!: replay_outcome.elims split: if_splits)

lemma loop_segment_done:
  assumes seg: "loop_segment rid now l c = Some (l', c')" and inv: "loop_done snap l c" and "client_ok c" and "rows_ok l"
    and "float_ok now" and ids: "\<forall>row \<in> set snap. dl_id row \<le> dlq_seq (st_db (c_storage c))"
  shows "loop_done snap l' c'"
proof (cases l)
  case (LRun p todo results)
  with inv obtain past row where past: "snap = past @ row # todo" "map rr_row_id results = map dl_id past"
    "\<forall>r \<in> set past. gone r c" "\<forall>r \<in> set results. rr_succeeded r \<longleftrightarrow> rr_error r = None"
    and p: "p = RRemove row \<or> gone row c \<and> (\<exists>i. p = RWait row i)" by auto
  have same: "\<forall>r \<in> set past. gone r c'"
    using past(3) gone_steps [OF loop_segment_steps [OF seg assms(5,4)] assms(3)] by blast
  from p show ?thesis
  proof (elim disjE conjE exE)
    assume "p = RRemove row"
    then obtain p' where p': "replay_remove rid now row c = (p', c')"
      "l' = (case p' of RDone r \<Rightarrow> loop_next todo (results @ [r]) | RRaised e \<Rightarrow> LRaised e | _ \<Rightarrow> LRun p' todo results)"
      using seg LRun by (cases "replay_remove rid now row c") auto
    show ?thesis
    proof (cases "remove_dead_letter (dl_id row) (c_storage c)")
      case (Inr us)
      then obtain u s where us: "remove_dead_letter (dl_id row) (c_storage c) = Inr (u, s)" by (cases us) auto
      then have q: "p' = RWait row (length (c_callers c))" "c_storage c' = s"
        using p'(1) by (auto simp: replay_remove_def request_begin_def split: prod.splits)
      have "gone row (c\<lparr>c_storage := s\<rparr>)" using removed_gone [OF us] ids past(1) by simp
      then have "gone row c'" using q(2) by (simp add: gone_def)
      then show ?thesis using p'(2) q(1) past same by (auto intro!: exI [of _ past] exI [of _ row])
    qed (use p' in \<open>auto simp: replay_remove_def\<close>)
  next
    fix i assume g: "gone row c" and "p = RWait row i"
    then obtain q where q: "replay_outcome row (c_callers c ! i) = Some q" "c' = c"
      "l' = (case q of RDone r \<Rightarrow> loop_next todo (results @ [r]) | RRaised e \<Rightarrow> LRaised e | _ \<Rightarrow> LRun q todo results)"
      using seg LRun by (auto split: option.splits)
    show ?thesis
      using replay_outcome_cases [OF q(1)]
    proof (elim disjE exE conjE)
      fix r assume r: "q = RDone r" "rr_row_id r = dl_id row" "rr_succeeded r \<longleftrightarrow> rr_error r = None"
      show ?thesis using loop_done_next [of snap "past @ [row]" todo "results @ [r]" c] past g r q(2,3) by auto
    qed (use q in simp)
  qed
qed (use seg in simp_all)

lemma replay_steps_done:
  assumes "replay_step\<^sup>*\<^sup>* (l, c) (l', c')" and "client_ok c" and "rows_ok l" and "loop_done snap l c"
    and "\<forall>row \<in> set snap. dl_id row \<le> dlq_seq (st_db (c_storage c))"
  shows "loop_done snap l' c' \<and> client_ok c' \<and> (\<forall>row \<in> set snap. dl_id row \<le> dlq_seq (st_db (c_storage c')))"
  using assms(1)
proof (induction rule: rtranclp_induct2)
  case refl
  then show ?case using assms by blast
next
  case (step l1 c1 l2 c2)
  have rows: "rows_ok l1" using replay_steps_client [OF step.hyps(1) assms(3)] by blast
  have c2: "client_step\<^sup>*\<^sup>* c1 c2" using replay_step_both [OF step.hyps(2) rows] by blast
  have "dlq_seq (st_db (c_storage c1)) \<le> dlq_seq (st_db (c_storage c2))"
    using steps_seq_mono [OF client_steps_storage [OF c2]] client_okD(3) step.IH by blast
  moreover have "loop_done snap l2 c2"
    using step.hyps(2)
  proof (cases rule: replay_step.cases)
    case others
    then show ?thesis using loop_done_client [OF _ c2] step.IH by blast
  next
    case (replays now rid)
    then show ?thesis using loop_segment_done [OF replays(2) _ _ rows replays(1)] step.IH by blast
  qed
  moreover have "client_ok c2" using client_steps_both [OF c2] step.IH by blast
  ultimately show ?case using step.IH by fastforce
qed

text \<open>The snapshot \<open>replay_all\<close> reads from a well-formed log.\<close>

lemma snapshot_ok:
  assumes ok: "log_ok (st_db s)" and "st_open s" and l: "list_dead_letter fid t limit s = Inr snap"
  shows "\<forall>row \<in> set snap. req_ok (dl_request row) \<and> dl_id row \<le> dlq_seq (st_db s)"
proof -
  let ?rs = "sql_limit limit (sort_key (\<lambda>r. - d_last_attempt r) (dead_letter_queue (st_db s)))"
  have "decode_dlq fid t r = Inr row \<Longrightarrow> r \<in> set ?rs \<Longrightarrow> req_ok (dl_request row) \<and> dl_id row \<le> dlq_seq (st_db s)" for r row
    using ok set_sql_limit [of limit "sort_key (\<lambda>r. - d_last_attempt r) (dead_letter_queue (st_db s))"]
    by (fastforce simp: log_ok_def db_ok_def dlq_ok_def decode_dlq_def parse_request_payload)
  moreover have "map (decode_dlq fid t) ?rs = map Inr snap"
    using l assms(2) by (simp add: list_dead_letter_def collect_Inr)
  ultimately show ?thesis by (metis (mono_tags, lifting) in_set_conv_nth length_map nth_map)
qed

section \<open>Replaying one entry\<close>

lemma others_steps: "client_step\<^sup>*\<^sup>* c c' \<Longrightarrow> replay_step\<^sup>*\<^sup>* (l, c) (l, c')"
  by (induction rule: rtranclp_induct) (auto intro: others rtranclp.rtrancl_into_rtrancl)

lemma removed_client:
  assumes "client_ok c" and "c_session c"
  shows "\<exists>s. remove_dead_letter n (c_storage c) = Inr ((), s) \<and> client_ok (c\<lparr>c_storage := s\<rparr>)
     \<and> dead_letter_queue (st_db s) = filter (\<lambda>r. d_id r \<noteq> n) (dead_letter_queue (st_db (c_storage c)))
     \<and> row_count (st_db s) = row_count (st_db (c_storage c)) \<and> dlq_seq (st_db s) = dlq_seq (st_db (c_storage c))"
proof -
  have "st_open (c_storage c)" using client_okD(4) [OF assms(1)] assms(2) by simp
  then obtain s where s: "remove_dead_letter n (c_storage c) = Inr ((), s)"
    "dead_letter_queue (st_db s) = filter (\<lambda>r. d_id r \<noteq> n) (dead_letter_queue (st_db (c_storage c)))"
    "row_count (st_db s) = row_count (st_db (c_storage c))" "dlq_seq (st_db s) = dlq_seq (st_db (c_storage c))"
    by (simp add: remove_dead_letter_def run_sql_def row_count_def find_inflight_def fun_eq_iff)
  with remove_dead_letter_ok [OF assms(1) s(1)] show ?thesis by blast
qed

lemma ready_storage [simp]: "ready now req i (c\<lparr>c_storage := s\<rparr>) = ready now req i c"
  by (simp add: ready_def admitted_def)

lemma replay_run:
  assumes "remove_dead_letter (dl_id row) (c_storage c) = Inr (u, s)" and "float_ok now"
    and "client_step\<^sup>*\<^sup>* (request_begin (replay_request rid now row) (c\<lparr>c_storage := s\<rparr>)) c'"
    and "c_callers c' = c_callers c @ [p]" and "replay_outcome row p = Some (RDone r)"
  shows "replay_step\<^sup>*\<^sup>* (LRun (RRemove row) todo results, c) (loop_next todo (results @ [r]), c')"
proof -
  let ?b = "request_begin (replay_request rid now row) (c\<lparr>c_storage := s\<rparr>)" and ?w = "LRun (RWait row (length (c_callers c))) todo results"
  have "replay_step (LRun (RRemove row) todo results, c) (?w, ?b)"
    by (rule replays [OF assms(2), of rid]) (simp add: replay_remove_def assms(1))
  moreover have "replay_step\<^sup>*\<^sup>* (?w, ?b) (?w, c')" by (rule others_steps [OF assms(3)])
  moreover have "replay_step (?w, c') (loop_next todo (results @ [r]), c')"
    by (rule replays [OF assms(2), of rid]) (simp add: assms(4,5))
  ultimately show ?thesis by (meson converse_rtranclp_into_rtranclp rtranclp.rtrancl_into_rtrancl)
qed

lemma entry_resolves:
  assumes "client_ok c" and "float_ok now" and "replay_request rid now row = req"
    and "request_payload req = Inr payload" and "ready time req i c" and "execute_request req 0 outcome = Inr resp"
  shows "\<exists>c'. replay_step\<^sup>*\<^sup>* (LRun (RRemove row) [] [], c)
       (LDone [\<lparr>rr_row_id = dl_id row, rr_request_id = dl_request_id row, rr_succeeded = True, rr_error = None\<rparr>], c')
     \<and> dead_letter_queue (st_db (c_storage c')) = filter (\<lambda>r. d_id r \<noteq> dl_id row) (dead_letter_queue (st_db (c_storage c)))
     \<and> row_count (st_db (c_storage c')) (idempotency_key (dl_request row)) = None"
proof -
  obtain s where s: "remove_dead_letter (dl_id row) (c_storage c) = Inr ((), s)" "client_ok (c\<lparr>c_storage := s\<rparr>)"
    "dead_letter_queue (st_db s) = filter (\<lambda>r. d_id r \<noteq> dl_id row) (dead_letter_queue (st_db (c_storage c)))"
    using removed_client [OF assms(1)] assms(5) by (metis ready_def)
  obtain c' where c': "client_step\<^sup>*\<^sup>* (request_begin req (c\<lparr>c_storage := s\<rparr>)) c'" "c_callers c' = c_callers c @ [CReturned resp]"
    "row_count (st_db (c_storage c')) (idempotency_key req) = None"
    "dead_letter_queue (st_db (c_storage c')) = dead_letter_queue (st_db s)"
    using served_steps [OF s(2) _ assms(4,6)] assms(5) by auto
  show ?thesis
    using replay_run [OF s(1) assms(2) c'(1) [folded assms(3)] c'(2), of _ "[]" "[]"] c'(3,4) s(3)
      replay_request_key [of rid now row] assms(3) by auto
qed

section \<open>A client with one dead letter\<close>

definition demo_row :: DeadLetterRow where
  "demo_row = \<lparr>dl_id = 1, dl_idempotency_key = idempotency_key sample_request, dl_request_id = req_request_id sample_request,
     dl_request = sample_request, dl_error = ''HTTP 404'', dl_retry_count = 0, dl_first_seen = 5, dl_last_attempt = 5\<rparr>"

definition demo_again :: Request where
  "demo_again = sample_request\<lparr>req_request_id := ''r'', req_created_at := ''2.5''\<rparr>"

lemma demo_dlq:
  "\<exists>db. reach client_init client_step (demo_up db) \<and> d_id ` set (dead_letter_queue db) = {1}
     \<and> list_dead_letter ''f'' ''1.5'' 10000 (c_storage (demo_up db)) = Inr [demo_row]"
proof -
  obtain p where p: "request_payload sample_request = Inr p" using sample_payload by blast
  obtain s where s: "push_dead_letter sample_request ''HTTP 404'' 0 5 open_storage = Inr (1, s)" "inflight_requests (st_db s) = []"
    "dead_letter_queue (st_db s) = [\<lparr>d_id = 1, d_key = idempotency_key sample_request, d_request_id = req_request_id sample_request,
       d_payload = p, d_error = ''HTTP 404'', d_retry_count = 0, d_first_seen = 5, d_last_attempt = 5\<rparr>]"
    using p by (simp add: push_dead_letter_def run_sql_def sql_insert_dlq_def open_storage_def empty_db_def)
  have "log_ok (st_db open_storage)" by (simp add: open_storage_def log_ok_empty)
  from push_log_ok [OF this sample_request_ok s(1)] s(2) have "reach client_init client_step (demo_up (st_db s))"
    by (rule demo_up_reach)
  moreover have "list_dead_letter ''f'' ''1.5'' 10000 (c_storage (demo_up (st_db s))) = Inr [demo_row]"
    using parse_request_payload [OF sample_request_ok p, of "''f''" "''1.5''"]
    by (simp add: list_dead_letter_def demo_up_def s(3) sql_limit_def decode_dlq_def demo_row_def)
  ultimately show ?thesis using s(3) by (intro exI [of _ "st_db s"]) simp
qed

lemma demo_again_facts:
  "replay_request ''r'' ''2.5'' demo_row = demo_again" "\<exists>p. request_payload demo_again = Inr p" "float_ok ''2.5''"
  "ready 1 demo_again 0 (demo_up db)"
proof -
  show "replay_request ''r'' ''2.5'' demo_row = demo_again"
    by (simp add: replay_request_def mk_request_def demo_row_def demo_again_def sample_request_def Let_def) code_simp
  show "\<exists>p. request_payload demo_again = Inr p"
    unfolding request_payload_defined by (simp add: demo_again_def sample_request_def)
  show "float_ok ''2.5''" by code_simp
  show "ready 1 demo_again 0 (demo_up db)" by (rule demo_up_ready) (simp add: demo_again_def)
qed

section \<open>Properties\<close>

text \<open>C33: When \<open>replay_all\<close> returns, however its work interleaved with the client's other work, it
  reports one result for each row of its snapshot, in order, a failure exactly with an error text;
  and every row of the snapshot has left the table.\<close>

theorem replay_all_accounts:
  assumes "reach client_init client_step c" and "list_dead_letter fid t 10000 (c_storage c) = Inr snap"
    and "replay_step\<^sup>*\<^sup>* (replay_all_begin fid t c, c) (LDone results, c')"
  shows "map rr_row_id results = map dl_id snap \<and> (\<forall>r \<in> set results. rr_succeeded r \<longleftrightarrow> rr_error r = None)
     \<and> dl_id ` set snap \<inter> dlq_ids (c_storage c') = {}"
proof -
  have ok: "client_ok c" by (rule cl.reach_inv [OF assms(1)])
  have "st_open (c_storage c)" using assms(2) by (auto simp: list_dead_letter_def not_open_def split: if_splits)
  from snapshot_ok [OF client_okD(2) [OF ok] this assms(2)]
  have snap: "\<forall>row \<in> set snap. req_ok (dl_request row) \<and> dl_id row \<le> dlq_seq (st_db (c_storage c))" .
  have start: "replay_all_begin fid t c = loop_next snap []" using assms(2) by (simp add: replay_all_begin_def)
  have "rows_ok (loop_next snap [])" using snap by (simp add: rows_ok_def loop_rows_next)
  moreover have "loop_done snap (loop_next snap []) c" by (rule loop_done_next [of _ "[]"]) simp_all
  ultimately have "loop_done snap (LDone results) c'"
    using replay_steps_done [OF assms(3) [unfolded start] ok] snap by blast
  then show ?thesis by (auto simp: gone_def)
qed

theorem replay_all_accounts_witness:
  "\<exists>db results c'. d_id ` set (dead_letter_queue db) = {1}
     \<and> replay_step\<^sup>*\<^sup>* (replay_all_begin ''f'' ''1.5'' (demo_up db), demo_up db) (LDone results, c')
     \<and> map rr_row_id results = [1] \<and> 1 \<notin> dlq_ids (c_storage c')"
proof -
  obtain db where db: "reach client_init client_step (demo_up db)" "d_id ` set (dead_letter_queue db) = {1}"
    "list_dead_letter ''f'' ''1.5'' 10000 (c_storage (demo_up db)) = Inr [demo_row]" using demo_dlq by blast
  obtain p where p: "request_payload demo_again = Inr p" using demo_again_facts(2) by blast
  obtain resp where "execute_request demo_again 0 (HttpResponse 204 [] []) = Inr resp"
    by (simp add: execute_request_def)
  from entry_resolves [OF cl.reach_inv [OF db(1)] demo_again_facts(3,1) p demo_again_facts(4) this]
  obtain results c' where r: "replay_step\<^sup>*\<^sup>* (LRun (RRemove demo_row) [] [], demo_up db) (LDone results, c')" by blast
  have "replay_all_begin ''f'' ''1.5'' (demo_up db) = LRun (RRemove demo_row) [] []"
    using db(3) by (simp add: replay_all_begin_def)
  with replay_all_accounts [OF db(1,3), of results c'] r db(2) show ?thesis
    by (intro exI [of _ db] exI [of _ results] exI [of _ c']) (simp add: demo_row_def)
qed

text \<open>C34: Replaying a row on a ready client against a server that accepts the request reports success,
  removes the row and adds none.\<close>

theorem replay_resolves:
  assumes "reach client_init client_step c" and "float_ok now" and "replay_request rid now row = req"
    and "request_payload req = Inr payload" and "ready time req i c" and "execute_request req 0 outcome = Inr resp"
  shows "\<exists>c'. replay_step\<^sup>*\<^sup>* (LRun (RRemove row) [] [], c)
       (LDone [\<lparr>rr_row_id = dl_id row, rr_request_id = dl_request_id row, rr_succeeded = True, rr_error = None\<rparr>], c')
     \<and> dead_letter_queue (st_db (c_storage c')) = filter (\<lambda>r. d_id r \<noteq> dl_id row) (dead_letter_queue (st_db (c_storage c)))
     \<and> row_count (st_db (c_storage c')) (idempotency_key (dl_request row)) = None"
  using entry_resolves [OF cl.reach_inv [OF assms(1)] assms(2-6)] .

theorem replay_resolves_witness:
  "\<exists>db results c'. d_id ` set (dead_letter_queue db) = {1}
     \<and> replay_step\<^sup>*\<^sup>* (LRun (RRemove demo_row) [] [], demo_up db) (LDone results, c') \<and> map rr_succeeded results = [True]
     \<and> dead_letter_queue (st_db (c_storage c')) = []"
proof -
  obtain db where db: "reach client_init client_step (demo_up db)" "d_id ` set (dead_letter_queue db) = {1}" using demo_dlq by blast
  obtain p where p: "request_payload demo_again = Inr p" using demo_again_facts(2) by blast
  obtain resp where "execute_request demo_again 0 (HttpResponse 204 [] []) = Inr resp"
    by (simp add: execute_request_def)
  from replay_resolves [OF db(1) demo_again_facts(3,1) p demo_again_facts(4) this] obtain r c' where
    "replay_step\<^sup>*\<^sup>* (LRun (RRemove demo_row) [] [], demo_up db) (LDone [r], c')" "rr_succeeded r"
    "dead_letter_queue (st_db (c_storage c')) = filter (\<lambda>r. d_id r \<noteq> dl_id demo_row) (dead_letter_queue db)"
    by (auto simp: demo_up_def)
  moreover have "filter (\<lambda>r. d_id r \<noteq> dl_id demo_row) (dead_letter_queue db) = []"
    using db(2) by (auto simp: filter_empty_conv demo_row_def)
  ultimately show ?thesis using db(2) by (intro exI [of _ db] exI [of _ "[r]"] exI [of _ c']) simp
qed

text \<open>C35: When the replayed request fails for good again, the old row is replaced by exactly one new row
  for the same key with the new error, and the failure is reported with it.\<close>

theorem replay_relogs:
  assumes "reach client_init client_step c" and "float_ok now" and "replay_request rid now row = req"
    and "request_payload req = Inr payload" and "ready time req i c"
    and "execute_request req 0 outcome = Inl e0" and "classify e0 = (tell, e)"
    and "\<not> ((is_RetryableError e \<or> is_CircuitOpenError e) \<and> should_retry (retry (c_cfg c)) 0)"
  shows "\<exists>c' x. replay_step\<^sup>*\<^sup>* (LRun (RRemove row) [] [], c)
       (LDone [\<lparr>rr_row_id = dl_id row, rr_request_id = dl_request_id row, rr_succeeded = False, rr_error = Some (str_exc e)\<rparr>], c')
     \<and> dead_letter_queue (st_db (c_storage c')) = filter (\<lambda>r. d_id r \<noteq> dl_id row) (dead_letter_queue (st_db (c_storage c))) @ [x]
     \<and> d_key x = idempotency_key (dl_request row) \<and> d_error x = str_exc e \<and> d_payload x = payload"
proof -
  obtain s where s: "remove_dead_letter (dl_id row) (c_storage c) = Inr ((), s)" "client_ok (c\<lparr>c_storage := s\<rparr>)"
    "dead_letter_queue (st_db s) = filter (\<lambda>r. d_id r \<noteq> dl_id row) (dead_letter_queue (st_db (c_storage c)))"
    using removed_client [OF cl.reach_inv [OF assms(1)]] assms(5) by (metis ready_def)
  obtain c' x where c': "client_step\<^sup>*\<^sup>* (request_begin req (c\<lparr>c_storage := s\<rparr>)) c'"
    "c_callers c' = c_callers c @ [CFailed (Raised (terminal_exc e))]"
    "dead_letter_queue (st_db (c_storage c')) = dead_letter_queue (st_db s) @ [x]"
    "d_key x = idempotency_key req" "d_payload x = payload" "d_error x = str_exc e"
    using failed_steps [OF s(2) _ assms(4,6,7), of time i] assms(5,8) by auto
  have "is_AsyncHardenedError (terminal_exc e)" "str_exc (terminal_exc e) = str_exc e"
    by (auto simp: terminal_exc_def is_AsyncHardenedError_def)
  then show ?thesis
    using replay_run [OF s(1) assms(2) c'(1) [folded assms(3)] c'(2), of _ "[]" "[]"] c'(3-6) s(3)
      replay_request_key [of rid now row] assms(3) by auto
qed

theorem replay_relogs_witness:
  "\<exists>db results c' x. d_id ` set (dead_letter_queue db) = {1}
     \<and> replay_step\<^sup>*\<^sup>* (LRun (RRemove demo_row) [] [], demo_up db) (LDone results, c') \<and> map rr_error results = [Some ''HTTP 404'']
     \<and> dead_letter_queue (st_db (c_storage c')) = [x] \<and> d_key x = idempotency_key sample_request"
proof -
  obtain db where db: "reach client_init client_step (demo_up db)" "d_id ` set (dead_letter_queue db) = {1}" using demo_dlq by blast
  obtain p where p: "request_payload demo_again = Inr p" using demo_again_facts(2) by blast
  have e: "execute_request demo_again 0 (e_http env404) = Inl not_found" by code_simp
  have "\<not> ((is_RetryableError not_found \<or> is_CircuitOpenError not_found) \<and> should_retry (retry (c_cfg (demo_up db))) 0)" by simp
  from replay_relogs [OF db(1) demo_again_facts(3,1) p demo_again_facts(4) e demo_404(2) this] obtain r c' x where
    "replay_step\<^sup>*\<^sup>* (LRun (RRemove demo_row) [] [], demo_up db) (LDone [r], c')" "rr_error r = Some ''HTTP 404''"
    "dead_letter_queue (st_db (c_storage c')) = filter (\<lambda>r. d_id r \<noteq> dl_id demo_row) (dead_letter_queue db) @ [x]"
    "d_key x = idempotency_key sample_request"
    by (auto simp: demo_up_def demo_row_def)
  moreover have "filter (\<lambda>r. d_id r \<noteq> dl_id demo_row) (dead_letter_queue db) = []"
    using db(2) by (auto simp: filter_empty_conv demo_row_def)
  ultimately show ?thesis using db(2) by (intro exI [of _ db] exI [of _ "[r]"] exI [of _ c'] exI [of _ x]) simp
qed

end
