(* ===== verification/Cli.thy ===== *)
theory Cli
  imports Dead_Letter
begin

text \<open>
  \<open>cli.py\<close>: the commands of \<open>ahc\<close> on the parsed arguments. \<open>argparse\<close> itself is not modelled: a
  command starts from the namespace it returns, with the defaults of \<open>_build_parser\<close>. What a command
  prints is the value given to \<open>json.dumps\<close>. The commands that run a client are processes over it:
  their segments interleave with the steps of the client.
\<close>

section \<open>Arguments and output\<close>

record Namespace =
  ns_cmd :: string
  ns_dlq_cmd :: string
  ns_db :: string
  ns_limit :: int
  ns_id :: "int option"
  ns_yes :: bool

text \<open>What the sub-parsers leave for options that are not given.\<close>

definition default_args :: "string \<Rightarrow> string \<Rightarrow> Namespace" where
  "default_args cmd dlq_cmd =
     \<lparr>ns_cmd = cmd, ns_dlq_cmd = dlq_cmd, ns_db = ''ahc_state.db'', ns_limit = 100, ns_id = None, ns_yes = False\<rparr>"

datatype out =
    OInt int
  | OReal real
  | OStr string
  | OBool bool
  | ONone
  | OList "out list"
  | OObj "(string \<times> out) list"

datatype printed = Stdout out | Stderr string

definition opt_str :: "string option \<Rightarrow> out" where
  "opt_str s = (case s of Some x \<Rightarrow> OStr x | None \<Rightarrow> ONone)"

fun metric_out :: "metric \<Rightarrow> out" where
  "metric_out (MInt n) = OInt n"
| "metric_out (MFloat x) = OReal x"
| "metric_out (MMap d) = OObj (map (\<lambda>(k, v). (k, OStr v)) d)"

section \<open>list and purge\<close>

definition list_entry :: "DeadLetterRow \<Rightarrow> out" where
  "list_entry r =
     OObj [(''id'', OInt (dl_id r)), (''request_id'', OStr (dl_request_id r)),
           (''method'', OStr (req_method (dl_request r))), (''url'', OStr (req_url (dl_request r))),
           (''error'', OStr (dl_error r)), (''retry_count'', OInt (dl_retry_count r)),
           (''first_seen'', OReal (dl_first_seen r)), (''last_attempt'', OReal (dl_last_attempt r))]"

text \<open>
  \<open>async with Storage(args.db)\<close> on a file that holds \<open>db\<close>: the exit code with what was printed, or
  the exception, and what the file holds afterwards.
\<close>

definition file_storage :: "Namespace \<Rightarrow> database \<Rightarrow> Storage" where
  "file_storage ns db = st_open_conn \<lparr>st_path = ns_db ns, st_db = db, st_open = False\<rparr>"

definition cmd_list :: "string \<Rightarrow> string \<Rightarrow> Namespace \<Rightarrow> database \<Rightarrow> (int \<times> printed list) res \<times> database" where
  "cmd_list fid t ns db =
     (let s = file_storage ns db in
      case list_entries fid t (ns_limit ns) s of
        Inl e \<Rightarrow> (Inl e, st_db (st_close s))
      | Inr rs \<Rightarrow> (Inr (0, [Stdout (OList (map list_entry rs))]), st_db (st_close s)))"

definition cmd_purge :: "Namespace \<Rightarrow> database \<Rightarrow> (int \<times> printed list) res \<times> database" where
  "cmd_purge ns db =
     (if \<not> ns_yes ns then (Inr (1, [Stderr ''refusing to purge without --yes'']), db)
      else let s = file_storage ns db in
           case purge s of
             Inl e \<Rightarrow> (Inl e, st_db (st_close s))
           | Inr (n, s') \<Rightarrow> (Inr (0, [Stdout (OObj [(''removed'', OInt n)])]), st_db (st_close s')))"

section \<open>replay and metrics\<close>

definition cli_config :: "Namespace \<Rightarrow> ClientConfig" where
  "cli_config ns = default_ClientConfig\<lparr>db_path := ns_db ns\<rparr>"

text \<open>
  Where the process is: before \<open>start\<close>, in it, replaying one row or all, collecting the metrics, or
  leaving the \<open>async with\<close> block with its return value or exception.
\<close>

datatype cli =
    VBegin
  | VStarting
  | VOne replay
  | VAll replay_loop
  | VRows "(string, metric) dict"
  | VDlq "(string, metric) dict" nat
  | VStop "call_error + int"
  | VStopping "call_error + int"
  | VExit "call_error + int"

definition result_out :: "ReplayResult \<Rightarrow> out" where
  "result_out r =
     OObj [(''row_id'', OInt (rr_row_id r)), (''request_id'', OStr (rr_request_id r)),
           (''succeeded'', OBool (rr_succeeded r)), (''error'', opt_str (rr_error r))]"

definition replay_summary :: "ReplayResult list \<Rightarrow> out" where
  "replay_summary results =
     OObj [(''replayed'', OInt (int (length (filter rr_succeeded results)))),
           (''still_failing'', OInt (int (length (filter (\<lambda>r. \<not> rr_succeeded r) results)))),
           (''details'', OList (map result_out results))]"

definition missing_row :: "int \<Rightarrow> printed" where
  "missing_row i = Stderr (''no DLQ row with id '' @ int_str i)"

text \<open>\<open>_cmd_replay\<close> inside the block.\<close>

definition replay_body :: "string \<Rightarrow> string \<Rightarrow> Namespace \<Rightarrow> Client \<Rightarrow> cli \<times> printed list" where
  "replay_body fid t ns c =
     (case ns_id ns of
        Some i \<Rightarrow>
          (case list_dead_letter fid t 10000 (c_storage c) of
             Inl e \<Rightarrow> (VStop (Inl (PyRaised e)), [])
           | Inr rs \<Rightarrow>
               (case find (\<lambda>r. dl_id r = i) rs of
                  None \<Rightarrow> (VStop (Inr 1), [missing_row i])
                | Some target \<Rightarrow> (VOne (RRemove target), [])))
      | None \<Rightarrow> (VAll (replay_all_begin fid t c), []))"

fun one_done :: "replay \<Rightarrow> cli \<times> printed list" where
  "one_done (RDone r) = (VStop (Inr (if rr_succeeded r then 0 else 1)), [Stdout (result_out r)])"
| "one_done (RRaised e) = (VStop (Inl e), [])"
| "one_done p = (VOne p, [])"

definition all_done :: "ReplayResult list \<Rightarrow> cli \<times> printed list" where
  "all_done results =
     (VStop (Inr (if \<forall>r \<in> set results. rr_succeeded r then 0 else 2)), [Stdout (replay_summary results)])"

definition metrics_out :: "(string, metric) dict \<Rightarrow> nat \<Rightarrow> nat \<Rightarrow> out" where
  "metrics_out snap n m =
     OObj (map (\<lambda>(k, v). (k, metric_out v)) snap
           @ [(''inflight_persisted'', OInt (int n)), (''dlq_persisted'', OInt (int m))])"

definition is_replay :: "Namespace \<Rightarrow> bool" where
  "is_replay ns \<longleftrightarrow> ns_cmd ns = ''dlq'' \<and> ns_dlq_cmd ns = ''replay''"

text \<open>The next segment of the process: where it is then, the client and what it printed.\<close>

fun cli_segment :: "string \<Rightarrow> string \<Rightarrow> Namespace \<Rightarrow> cli \<Rightarrow> Client \<Rightarrow> ((cli \<times> printed list) \<times> Client) option" where
  "cli_segment fid t ns VBegin c =
     (case start_begin fid t c of
        (Some e, c') \<Rightarrow> Some ((VExit (Inl (PyRaised e)), []), c')
      | (None, c') \<Rightarrow> Some ((VStarting, []), c'))"
| "cli_segment fid t ns VStarting c =
     (if c_phase c \<noteq> PIdle then None
      else if is_replay ns then Some (replay_body fid t ns c, c)
      else let (snap, c') = client_metrics c in Some ((VRows snap, []), c'))"
| "cli_segment fid t ns (VOne p) c =
     (case replay_segment fid t p c of None \<Rightarrow> None | Some (p', c') \<Rightarrow> Some (one_done p', c'))"
| "cli_segment fid t ns (VAll l) c =
     (case l of
        LDone results \<Rightarrow> Some (all_done results, c)
      | LRaised e \<Rightarrow> Some ((VStop (Inl e), []), c)
      | LRun _ _ _ \<Rightarrow> (case loop_segment fid t l c of None \<Rightarrow> None | Some (l', c') \<Rightarrow> Some ((VAll l', []), c')))"
| "cli_segment fid t ns (VRows snap) c =
     Some (case list_inflight fid t (c_storage c) of
             Inl e \<Rightarrow> (VStop (Inl (PyRaised e)), [])
           | Inr rs \<Rightarrow> (VDlq snap (length rs), []), c)"
| "cli_segment fid t ns (VDlq snap n) c =
     Some (case list_dead_letter fid t 10000 (c_storage c) of
             Inl e \<Rightarrow> (VStop (Inl (PyRaised e)), [])
           | Inr rs \<Rightarrow> (VStop (Inr 0), [Stdout (metrics_out snap n (length rs))]), c)"
| "cli_segment fid t ns (VStop r) c = (if c_phase c = PIdle then Some ((VStopping r, []), stop_begin c) else None)"
| "cli_segment fid t ns (VStopping r) c = (if c_phase c = PIdle then Some ((VExit r, []), c) else None)"
| "cli_segment fid t ns (VExit r) c = None"

inductive process_step :: "Namespace \<Rightarrow> (cli \<times> printed list) \<times> Client \<Rightarrow> (cli \<times> printed list) \<times> Client \<Rightarrow> bool" for ns where
  p_client: "client_step c c' \<Longrightarrow> process_step ns ((v, old), c) ((v, old), c')"
| p_cli: "float_ok t \<Longrightarrow> cli_segment fid t ns v c = Some ((v', new), c') \<Longrightarrow>
    process_step ns ((v, old), c) ((v', old @ new), c')"

text \<open>\<open>_async_main\<close>: which command the arguments name; \<open>parser.error\<close> leaves with 2.\<close>

datatype command = CmdList | CmdReplay | CmdPurge | CmdMetrics | UsageError

definition dispatch :: "Namespace \<Rightarrow> command" where
  "dispatch ns =
     (if ns_cmd ns = ''dlq'' \<and> ns_dlq_cmd ns = ''list'' then CmdList
      else if ns_cmd ns = ''dlq'' \<and> ns_dlq_cmd ns = ''replay'' then CmdReplay
      else if ns_cmd ns = ''dlq'' \<and> ns_dlq_cmd ns = ''purge'' then CmdPurge
      else if ns_cmd ns = ''metrics'' then CmdMetrics
      else UsageError)"

text \<open>The status \<open>main\<close> leaves with: an uncaught exception is 1.\<close>

definition exit_status :: "call_error + int \<Rightarrow> int" where
  "exit_status r = (case r of Inl _ \<Rightarrow> 1 | Inr status \<Rightarrow> status)"

section \<open>What a run of replay printed when it ends\<close>

definition replay_verdict :: "Namespace \<Rightarrow> int \<Rightarrow> printed list \<Rightarrow> bool" where
  "replay_verdict ns status outs \<longleftrightarrow>
     (case ns_id ns of
        None \<Rightarrow> \<exists>results. outs = [Stdout (replay_summary results)]
                  \<and> status = (if \<forall>r \<in> set results. rr_succeeded r then 0 else 2)
      | Some i \<Rightarrow> outs = [missing_row i] \<and> status = 1
                  \<or> (\<exists>r. rr_row_id r = i \<and> outs = [Stdout (result_out r)] \<and> status = (if rr_succeeded r then 0 else 1)))"

fun replay_at :: "Namespace \<Rightarrow> cli \<Rightarrow> printed list \<Rightarrow> bool" where
  "replay_at ns (VOne p) outs \<longleftrightarrow> outs = [] \<and> (\<exists>row. ns_id ns = Some (dl_id row) \<and> (p = RRemove row \<or> (\<exists>i. p = RWait row i)))"
| "replay_at ns (VAll l) outs \<longleftrightarrow> outs = [] \<and> ns_id ns = None"
| "replay_at ns (VRows _) outs \<longleftrightarrow> False"
| "replay_at ns (VDlq _ _) outs \<longleftrightarrow> False"
| "replay_at ns (VStop r) outs \<longleftrightarrow> (\<forall>status. r = Inr status \<longrightarrow> replay_verdict ns status outs)"
| "replay_at ns (VStopping r) outs \<longleftrightarrow> (\<forall>status. r = Inr status \<longrightarrow> replay_verdict ns status outs)"
| "replay_at ns (VExit r) outs \<longleftrightarrow> (\<forall>status. r = Inr status \<longrightarrow> replay_verdict ns status outs)"
| "replay_at ns _ outs \<longleftrightarrow> outs = []"

lemma verdict_all:
  "ns_id ns = None \<Longrightarrow> replay_verdict ns (if \<forall>r \<in> set results. rr_succeeded r then 0 else 2) [Stdout (replay_summary results)]"
  unfolding replay_verdict_def by (simp only: option.case) blast

lemma verdict_one:
  "ns_id ns = Some (rr_row_id r) \<Longrightarrow> replay_verdict ns (if rr_succeeded r then 0 else 1) [Stdout (result_out r)]"
  unfolding replay_verdict_def by (simp only: option.case) blast

lemma replay_body_at: "replay_body fid t ns c = (v, new) \<Longrightarrow> replay_at ns v new"
  by (auto simp: replay_body_def replay_verdict_def find_Some_iff split: option.splits sum.splits)

lemma one_done_at:
  assumes "replay_segment fid t p c = Some (p', c')" and "one_done p' = (v, new)" and "replay_at ns (VOne p) []"
  shows "replay_at ns v new"
proof -
  obtain row where row: "ns_id ns = Some (dl_id row)" "p = RRemove row \<or> (\<exists>i. p = RWait row i)" using assms(3) by auto
  have "(\<exists>i. p' = RWait row i) \<or> (\<exists>e. p' = RRaised e) \<or> (\<exists>r. p' = RDone r \<and> rr_row_id r = dl_id row)"
    using row(2) assms(1) replay_outcome_cases
    by (auto simp: replay_remove_def split: sum.splits option.splits) blast
  with assms(2) row(1) show ?thesis using verdict_one by auto
qed

lemma cli_segment_at:
  assumes "cli_segment fid t ns v c = Some ((v', new), c')" and "replay_at ns v outs" and "is_replay ns"
  shows "replay_at ns v' (outs @ new)"
proof (cases v)
  case VBegin
  with assms(1,2) show ?thesis by (auto split: prod.splits option.splits)
next
  case VStarting
  with assms show ?thesis by (auto split: if_splits dest: replay_body_at)
next
  case (VOne p)
  then obtain p' where "replay_segment fid t p c = Some (p', c')" "one_done p' = (v', new)"
    using assms(1) by (auto split: option.splits)
  with one_done_at [OF this] VOne assms(2) show ?thesis by auto
next
  case (VAll l)
  with assms(1,2) show ?thesis
    using verdict_all by (cases l) (auto simp: all_done_def split: option.splits)
qed (use assms(1,2) in \<open>auto split: if_splits\<close>)

lemma process_steps_at:
  "(process_step ns)\<^sup>*\<^sup>* ((v, outs), c) ((v', outs'), c') \<Longrightarrow> is_replay ns \<Longrightarrow> replay_at ns v outs \<Longrightarrow> replay_at ns v' outs'"
proof (induction "((v', outs'), c')" arbitrary: v' outs' c' rule: rtranclp_induct)
  case (step y)
  obtain w o2 d where y: "y = ((w, o2), d)" by (cases y) auto
  have "replay_at ns w o2" using step.hyps(3) [OF y step.prems] .
  with step.hyps(2) show ?case unfolding y using cli_segment_at [OF _ _ step.prems(1)]
    by (auto elim!: process_step.cases)
qed simp

lemma purge_command:
  "cmd_purge ns db = (if ns_yes ns
     then (Inr (0, [Stdout (OObj [(''removed'', OInt (int (length (dead_letter_queue (st_db (file_storage ns db))))))])]),
           (st_db (file_storage ns db))\<lparr>dead_letter_queue := []\<rparr>)
     else (Inr (1, [Stderr ''refusing to purge without --yes'']), db))"
  by (simp add: cmd_purge_def purge_def purge_dead_letter_def run_sql_def file_storage_def st_open_conn_def st_close_def Let_def)

text \<open>A run on an empty table that asks for a row which is not there.\<close>

definition demo_args :: Namespace where
  "demo_args = (default_args ''dlq'' ''replay'')\<lparr>ns_id := Some 7\<rparr>"

lemma demo_replay_run:
  "\<exists>c'. (process_step demo_args)\<^sup>*\<^sup>* ((VBegin, []), demo_new) ((VExit (Inr 1), [missing_row 7]), c')"
proof -
  let ?P = "process_step demo_args" and ?o = "[missing_row 7]"
  let ?s = "\<lparr>st_path = ''ahc_state.db'', st_db = empty_db, st_open = True\<rparr>"
  let ?c1 = "demo_new\<lparr>c_session := True, c_storage := ?s, c_phase := PRecover []\<rparr>"
  let ?c2 = "stop_begin demo_started" let ?c3 = "?c2\<lparr>c_phase := PCheck\<rparr>" let ?c4 = "stop_finish ?c3"
  have t: "float_ok ''1.5''" by code_simp
  have listing: "list_inflight ''f'' ''1.5'' ?s = Inr []" "list_dead_letter ''f'' ''1.5'' 10000 ?s = Inr []"
    using collect_map_Inr [of "[]"] by (simp_all add: list_inflight_def list_dead_letter_def empty_db_def sql_limit_def)
  have "cli_segment ''f'' ''1.5'' demo_args VBegin demo_new = Some ((VStarting, []), ?c1)"
    using listing(1) by (simp add: start_begin_def demo_new_def st_open_conn_def)
  from p_cli [OF t this, of "[]"] have 1: "?P ((VBegin, []), demo_new) ((VStarting, []), ?c1)" by simp
  have "start_segment ?c1 = Some demo_started"
    by (simp add: start_segment_def start_finish_def demo_started_def demo_new_def default_ClientConfig_def default_QueueConfig_def)
  then have 2: "?P ((VStarting, []), ?c1) ((VStarting, []), demo_started)" by (intro p_client client_step.start_moves)
  have "cli_segment ''f'' ''1.5'' demo_args VStarting demo_started = Some ((VStop (Inr 1), ?o), demo_started)"
    using listing(2)
    by (simp add: demo_started_def demo_new_def is_replay_def demo_args_def default_args_def replay_body_def)
  from p_cli [OF t this, of "[]"] have 3: "?P ((VStarting, []), demo_started) ((VStop (Inr 1), ?o), demo_started)" by simp
  have "cli_segment ''f'' ''1.5'' demo_args (VStop (Inr 1)) demo_started = Some ((VStopping (Inr 1), []), ?c2)"
    by (simp add: demo_started_def demo_new_def)
  from p_cli [OF t this, of ?o] have 4: "?P ((VStop (Inr 1), ?o), demo_started) ((VStopping (Inr 1), ?o), ?c2)" by simp
  have q: "stop_segment ?c2 = Some ?c3" "stop_segment ?c3 = Some ?c4"
    by (simp_all add: stop_segment_def stop_begin_def demo_started_def demo_new_def join_returns_def)
  have 5: "?P ((VStopping (Inr 1), ?o), ?c2) ((VStopping (Inr 1), ?o), ?c3)"
    "?P ((VStopping (Inr 1), ?o), ?c3) ((VStopping (Inr 1), ?o), ?c4)"
    using q by (auto intro: p_client client_step.stop_moves)
  have "cli_segment ''f'' ''1.5'' demo_args (VStopping (Inr 1)) ?c4 = Some ((VExit (Inr 1), []), ?c4)"
    by (simp add: stop_finish_def)
  from p_cli [OF t this, of ?o] have 6: "?P ((VStopping (Inr 1), ?o), ?c4) ((VExit (Inr 1), ?o), ?c4)" by simp
  from 1 2 3 4 5 6 show ?thesis by (meson converse_rtranclp_into_rtranclp rtranclp.rtrancl_refl)
qed

section \<open>Properties\<close>

text \<open>C36: The exit status of \<open>ahc dlq replay\<close> says what was printed: without \<open>--id\<close> it is 0 when every
  detail of the summary succeeded and 2 otherwise; with \<open>--id\<close> it is 0 or 1 by the printed result of
  that row, and 1 when there is no such row.\<close>

theorem replay_exit_code:
  assumes "is_replay ns" and "(process_step ns)\<^sup>*\<^sup>* ((VBegin, []), c) ((VExit (Inr status), outs), c')"
  shows "case ns_id ns of
       None \<Rightarrow> \<exists>results. outs = [Stdout (replay_summary results)] \<and> status = (if \<forall>r \<in> set results. rr_succeeded r then 0 else 2)
     | Some i \<Rightarrow> outs = [missing_row i] \<and> status = 1
         \<or> (\<exists>r. rr_row_id r = i \<and> outs = [Stdout (result_out r)] \<and> status = (if rr_succeeded r then 0 else 1))"
  using process_steps_at [OF assms(2,1)] by (simp add: replay_verdict_def)

theorem replay_exit_code_witness:
  "\<exists>c' status outs. (process_step demo_args)\<^sup>*\<^sup>* ((VBegin, []), demo_new) ((VExit (Inr status), outs), c')
     \<and> (outs = [missing_row 7] \<and> status = 1 \<or> (\<exists>r. rr_row_id r = 7 \<and> outs = [Stdout (result_out r)]))"
proof -
  obtain c' where c': "(process_step demo_args)\<^sup>*\<^sup>* ((VBegin, []), demo_new) ((VExit (Inr 1), [missing_row 7]), c')"
    using demo_replay_run by blast
  have "is_replay demo_args" "ns_id demo_args = Some 7" by (simp_all add: is_replay_def demo_args_def default_args_def)
  with replay_exit_code [OF _ c'] c' show ?thesis by auto
qed

text \<open>C37: \<open>ahc metrics\<close> on a file with a log starts a client that recovers it, so the snapshot it
  prints counts every row as a request started and shows all of them queued.\<close>

theorem metrics_command_counts:
  assumes "new_Client (cli_config ns) db = Inr c" and "log_ok db" and "ns_db ns \<noteq> '':memory:''" and "\<not> is_replay ns"
    and "length (inflight_requests db) \<le> 1000"
  shows "\<exists>c1 c2 snap c3. cli_segment fid t ns VBegin c = Some ((VStarting, []), c1)
     \<and> start_run (Suc (length (inflight_requests db))) c1 = Some c2
     \<and> cli_segment fid t ns VStarting c2 = Some ((VRows snap, []), c3)
     \<and> dget snap ''requests_started'' = Some (MInt (int (length (inflight_requests db))))
     \<and> dget snap ''queue_depth'' = Some (MInt (int (length (inflight_requests db))))"
proof -
  have path: "db_path (cli_config ns) \<noteq> '':memory:''" and cfg: "max_size (queue_cfg (cli_config ns)) = 1000"
    using assms(3) by (simp_all add: cli_config_def default_ClientConfig_def default_QueueConfig_def)
  obtain rs c1 where b: "start_begin fid t c = (None, c1)" "c_phase c1 = PRecover rs" "recoverable rs c1"
    "map ir_idempotency_key rs = map i_key (sort_key i_created_at (inflight_requests db))"
    "q_items (c_queue c1) = []" "q_max (c_queue c1) = 1000"
    using start_begin_new [OF assms(1,2) path] cfg by metis
  have n: "length rs = length (inflight_requests db)" using arg_cong [OF b(4), of length] by simp
  obtain c2 where c2: "start_run (length rs) c1 = Some c2" "c_phase c2 = PRecover []" "recovered rs c1 c2"
    using recover_all [OF b(3,2)] b(5,6) assms(5) n by (auto simp: depth_def)
  have run: "start_run (Suc (length rs)) c1 = Some (start_finish c2)"
    using start_run_snoc [OF c2(1)] c2(2) by (simp add: start_segment_def)
  have "requests_started (c_metrics c1) = 0"
    using assms(1) b(1) by (auto simp: new_Client_def new_Metrics_def start_begin_def Let_def split: sum.splits if_splits)
  then have "requests_started (c_metrics c2) = int (length rs)" "depth (c_queue c2) = int (length rs)"
    using c2(3) b(5) by (simp_all add: recovered_def depth_def)
  then show ?thesis
    using b(1) run n assms(4)
    by (auto simp: start_finish_def client_metrics_def snapshot_def dget_def Let_def)
qed

theorem metrics_command_counts_witness:
  "\<exists>(db :: database) c1 c2 snap c3. length (inflight_requests db) = 1 \<and> start_run 2 c1 = Some c2
     \<and> cli_segment ''f'' ''1.5'' (default_args ''metrics'' []) VStarting c2 = Some ((VRows snap, []), c3)
     \<and> dget snap ''requests_started'' = Some (MInt 1)"
proof -
  let ?ns = "default_args ''metrics'' []"
  obtain db where db: "log_ok db" "length (inflight_requests db) = 1" using demo_log by blast
  have "cli_config ?ns = default_ClientConfig" by (simp add: cli_config_def default_args_def default_ClientConfig_def)
  then have new: "new_Client (cli_config ?ns) db = Inr (demo_on db)" using demo_on_Client by simp
  have ns: "ns_db ?ns \<noteq> '':memory:''" "\<not> is_replay ?ns" by (simp_all add: default_args_def is_replay_def)
  have two: "Suc (length (inflight_requests db)) = 2" "int (length (inflight_requests db)) = 1" using db(2) by simp_all
  obtain c1 c2 snap c3 where "start_run 2 c1 = Some c2"
    "cli_segment ''f'' ''1.5'' ?ns VStarting c2 = Some ((VRows snap, []), c3)" "dget snap ''requests_started'' = Some (MInt 1)"
    using metrics_command_counts [OF new db(1) ns, of "''f''" "''1.5''"] db(2) unfolding two by auto
  with db(2) show ?thesis by blast
qed

end
