(* ===== verification/Client_Share.thy ===== *)
theory Client_Share
  imports Client_Demo
begin

text \<open>
  What callers that share a future get. A future is written once: no step of the client changes one that
  is done. So the callers of one future end alike, however their wake-ups interleave with anything else.
\<close>

section \<open>Futures are written once\<close>

definition reg_grows :: "'v InFlightRegistry \<Rightarrow> 'v InFlightRegistry \<Rightarrow> bool" where
  "reg_grows reg reg' \<longleftrightarrow> length (r_futures reg) \<le> length (r_futures reg')
     \<and> (\<forall>f < length (r_futures reg). fut_state reg f \<noteq> Pending \<longrightarrow> fut_state reg' f = fut_state reg f)
     \<and> (reg_ok reg \<longrightarrow> reg_ok reg')"

lemma reg_grows_refl [simp]: "reg_grows reg reg"
  by (simp add: reg_grows_def)

lemma reg_grows_trans: "reg_grows a b \<Longrightarrow> reg_grows b c \<Longrightarrow> reg_grows a c"
  unfolding reg_grows_def by (metis order.trans order.strict_trans2)

lemma get_or_create_grows: "get_or_create reg key = (fo, reg') \<Longrightarrow> reg_grows reg reg'"
  using reg_ok_get_or_create [of reg key]
  by (auto simp: get_or_create_def reg_grows_def fut_state_def nth_append Let_def split: option.splits if_splits)

lemma settle_grows [simp]: "reg_grows reg (settle reg key out)"
proof -
  have "xs ! g = Pending \<Longrightarrow> xs ! f \<noteq> Pending \<Longrightarrow> xs[g := x] ! f = xs ! f" for f g and xs :: "'v future list" and x
    by (cases "f = g") auto
  then show ?thesis
    using reg_ok_settle [of reg key out]
    by (auto simp: settle_def reg_grows_def fut_state_def fut_done_def Let_def split: option.splits)
qed

lemma resolve_grows [simp]: "reg_grows reg (resolve reg key v)" "reg_grows reg (fail reg key e)"
  by (simp_all add: resolve_def fail_def)

lemma item_done_dedup: "item_done c = (w, c') \<Longrightarrow> c_dedup c' = c_dedup c \<and> c_callers c' = c_callers c"
  by (auto simp: item_done_def split: sum.splits)

lemma worker_dies_dedup: "worker_dies e c = (w, c') \<Longrightarrow> c_dedup c' = c_dedup c \<and> c_callers c' = c_callers c"
  by (auto simp: worker_dies_def split: sum.splits)

lemma retry_or_dlq_dedup:
  assumes "retry_or_dlq ev item e ra c = (w, c')"
  shows "c_dedup c' = c_dedup c \<and> c_callers c' = c_callers c"
  using assms by (auto simp: retry_or_dlq_def Let_def split: sum.splits if_splits dest!: worker_dies_dedup)

lemma handle_gate_dedup:
  assumes "handle_gate ev item c = (w, c')"
  shows "c_dedup c' = c_dedup c \<and> c_callers c' = c_callers c"
  using assms by (auto simp: handle_gate_def Let_def split: sum.splits prod.splits option.splits dest!: worker_dies_dedup retry_or_dlq_dedup)

lemma worker_segment_grows:
  assumes "worker_segment ev w c = Some (w', c')"
  shows "reg_grows (c_dedup c) (c_dedup c') \<and> c_callers c' = c_callers c"
proof (cases w)
  case WIdle
  with assms show ?thesis by (auto split: option.splits dest!: handle_gate_dedup)
next
  case (WExecute item host)
  with assms show ?thesis by (auto simp: step_execute_def Let_def split: sum.splits prod.splits dest!: retry_or_dlq_dedup)
qed (use assms in \<open>auto simp: step_acquire_def step_incr_def step_push_def step_del_fail_def step_del_ok_def step_hook_def Let_def
      split: sum.splits prod.splits acquire_result.splits if_splits dest!: item_done_dedup worker_dies_dedup\<close>)

section \<open>Following a future\<close>

text \<open>Caller \<open>i\<close> is on its way to future \<open>f\<close>, or has ended with what the future holds.\<close>

definition follows :: "nat \<Rightarrow> nat \<Rightarrow> Client \<Rightarrow> bool" where
  "follows f i c \<longleftrightarrow> i < length (c_callers c)
     \<and> (case c_callers c ! i of
          CUpsert _ g \<Rightarrow> g = f
        | CEnqueue _ g \<Rightarrow> g = f
        | CAwait g \<Rightarrow> g = f
        | CReturned r \<Rightarrow> fut_state (c_dedup c) f = Result r
        | CFailed (Raised e) \<Rightarrow> fut_state (c_dedup c) f = Failed e
        | CFailed _ \<Rightarrow> True)"

lemma follows_grows:
  assumes "follows f i c" and "f < length (r_futures (c_dedup c))" and "reg_grows (c_dedup c) (c_dedup c')"
    and "i < length (c_callers c')" and "c_callers c' ! i = c_callers c ! i"
  shows "follows f i c'"
  using assms by (auto simp: follows_def reg_grows_def split: caller.splits call_error.splits)

lemma caller_segment_follows:
  assumes "caller_segment ev (c_callers c ! i) c = Some (p, c')" and "follows f i c"
  shows "c_dedup c' = c_dedup c \<and> c_callers c' = c_callers c \<and> follows f i (c'\<lparr>c_callers := (c_callers c')[i := p]\<rparr>)"
  using assms by (cases "c_callers c ! i")
    (auto simp: follows_def caller_persist_def caller_enqueue_def caller_wake_def split: sum.splits option.splits future.splits)

lemma caller_segment_dedup:
  assumes "caller_segment ev q c = Some (p, c')"
  shows "c_dedup c' = c_dedup c \<and> c_callers c' = c_callers c"
  using assms by (cases q) (auto simp: caller_persist_def caller_enqueue_def caller_wake_def split: sum.splits option.splits future.splits)

lemma start_segment_grows:
  assumes "start_segment c = Some c'"
  shows "reg_grows (c_dedup c) (c_dedup c') \<and> c_callers c' = c_callers c"
proof -
  have "reg_grows (c_dedup c) (c_dedup (recover_row row rows c)) \<and> c_callers (recover_row row rows c) = c_callers c" for row rows
    by (auto simp: recover_row_def Let_def split: prod.splits option.splits dest!: get_or_create_grows)
  with assms show ?thesis
    by (auto simp: start_segment_def start_finish_def split: phase.splits list.splits option.splits)
qed

text \<open>What every step does to registry and callers: the callers stay, or one moves, or new ones come.\<close>

lemma client_step_grows:
  assumes "client_step c c'"
  shows "reg_grows (c_dedup c) (c_dedup c') \<and> ((\<exists>ps. c_callers c' = c_callers c @ ps)
     \<or> (\<exists>j ev p d. j < length (c_callers c) \<and> caller_segment ev (c_callers c ! j) c = Some (p, d) \<and> c' = d\<lparr>c_callers := (c_callers d)[j := p]\<rparr>))"
  using assms
proof cases
  case (request req)
  then show ?thesis by (auto simp: request_begin_def split: prod.splits dest!: get_or_create_grows)
next
  case (caller_moves j ev p d)
  have "c_dedup c' = c_dedup c" using caller_segment_dedup [OF caller_moves(3)] caller_moves(1) by simp
  moreover have "\<exists>j ev p d. j < length (c_callers c) \<and> caller_segment ev (c_callers c ! j) c = Some (p, d) \<and> c' = d\<lparr>c_callers := (c_callers d)[j := p]\<rparr>"
    using caller_moves by blast
  ultimately show ?thesis by (metis reg_grows_refl)
next
  case (worker_moves j ev w d)
  then show ?thesis using worker_segment_grows by auto
next
  case (reschedule k)
  then show ?thesis by (auto simp: reschedule_fires_def Let_def split: if_splits option.splits)
next
  case (starting fid t)
  then show ?thesis by (auto simp: start_begin_def Let_def split: sum.splits)
next
  case start_moves
  then show ?thesis using start_segment_grows by auto
next
  case stop_moves
  then show ?thesis by (auto simp: stop_segment_def stop_finish_def split: phase.splits if_splits)
qed (auto simp: stop_begin_def client_metrics_def set_response_hook_def Let_def)

lemma client_step_follows:
  assumes "client_step c c'" and fol: "follows f i c" and f: "f < length (r_futures (c_dedup c))"
  shows "follows f i c' \<and> f < length (r_futures (c_dedup c'))"
proof -
  have g: "reg_grows (c_dedup c) (c_dedup c')" using client_step_grows [OF assms(1)] ..
  have i: "i < length (c_callers c)" using fol by (simp add: follows_def)
  have "follows f i c'"
    using conjunct2 [OF client_step_grows [OF assms(1)]]
  proof
    assume "\<exists>ps. c_callers c' = c_callers c @ ps"
    then have "i < length (c_callers c')" "c_callers c' ! i = c_callers c ! i" using i by (auto simp: nth_append)
    then show ?thesis by (rule follows_grows [OF fol f g])
  next
    assume "\<exists>j ev p d. j < length (c_callers c) \<and> caller_segment ev (c_callers c ! j) c = Some (p, d) \<and> c' = d\<lparr>c_callers := (c_callers d)[j := p]\<rparr>"
    then obtain j ev p d where j: "caller_segment ev (c_callers c ! j) c = Some (p, d)" "c' = d\<lparr>c_callers := (c_callers d)[j := p]\<rparr>" by blast
    show ?thesis
    proof (cases "j = i")
      case True
      with caller_segment_follows [OF _ fol] j show ?thesis by blast
    next
      case False
      with caller_segment_dedup [OF j(1)] j(2) i have "i < length (c_callers c')" "c_callers c' ! i = c_callers c ! i" by simp_all
      then show ?thesis by (rule follows_grows [OF fol f g])
    qed
  qed
  then show ?thesis using g f by (auto simp: reg_grows_def)
qed

lemma client_steps_follow:
  "client_step\<^sup>*\<^sup>* c d \<Longrightarrow> follows f i c \<Longrightarrow> f < length (r_futures (c_dedup c)) \<Longrightarrow> follows f i d"
proof -
  assume "client_step\<^sup>*\<^sup>* c d" "follows f i c" "f < length (r_futures (c_dedup c))"
  then have "follows f i d \<and> f < length (r_futures (c_dedup d))"
    by (induction rule: rtranclp_induct) (auto dest: client_step_follows)
  then show ?thesis ..
qed

section \<open>Callers wait on futures that exist\<close>

fun target :: "caller \<Rightarrow> nat option" where
  "target (CUpsert _ f) = Some f"
| "target (CEnqueue _ f) = Some f"
| "target (CAwait f) = Some f"
| "target _ = None"

definition targets_ok :: "Client \<Rightarrow> bool" where
  "targets_ok c \<longleftrightarrow> (\<forall>p \<in> set (c_callers c). \<forall>f. target p = Some f \<longrightarrow> f < length (r_futures (c_dedup c)))"

lemma caller_segment_calm:
  assumes "caller_segment ev p c = Some (p', c')"
  shows "(\<forall>f. target p' = Some f \<longrightarrow> target p = Some f) \<and> c_workers c' = c_workers c \<and> c_dedup c' = c_dedup c \<and> c_callers c' = c_callers c
     \<and> requests_succeeded (c_metrics c') = requests_succeeded (c_metrics c) \<and> (\<forall>r. p' = CReturned r \<longrightarrow> (\<exists>f. target p = Some f \<and> fut_state (c_dedup c) f = Result r))"
  using assms by (cases p) (auto simp: caller_persist_def caller_enqueue_def caller_wake_def split: sum.splits option.splits future.splits)

lemma get_or_create_target:
  assumes "reg_ok reg" and "get_or_create reg key = ((f, owner), reg')"
  shows "f < length (r_futures reg') \<and> set (r_futures reg') \<subseteq> insert Pending (set (r_futures reg))"
proof (cases "pending_for reg key")
  case None
  with assms(2) show ?thesis by (auto simp: get_or_create_miss)
next
  case (Some g)
  then have "dget (r_inflight reg) key = Some g" by (auto simp: pending_for_def split: option.splits if_splits)
  then have "g < length (r_futures reg)" using assms(1) by (simp add: reg_ok_def)
  with Some assms(2) show ?thesis by (auto simp: get_or_create_hit)
qed

lemma targets_kept:
  assumes "targets_ok c" and "length (r_futures (c_dedup c)) \<le> length (r_futures (c_dedup c'))" and "c_callers c' = c_callers c"
  shows "targets_ok c'"
  using assms by (fastforce simp: targets_ok_def)

lemma client_step_targets:
  assumes "client_step c c'" and reg: "reg_ok (c_dedup c)" and tgt: "targets_ok c"
  shows "targets_ok c'"
proof -
  have len: "length (r_futures (c_dedup c)) \<le> length (r_futures (c_dedup c'))"
    using client_step_grows [OF assms(1)] by (simp add: reg_grows_def)
  note plain = targets_kept [OF tgt len]
  from assms(1) show ?thesis
  proof cases
    case (request req)
    show ?thesis
    proof (cases "c_session c")
      case True
      obtain f owner d where g: "get_or_create (c_dedup c) (idempotency_key req) = ((f, owner), d)" by (metis prod.exhaust)
      then have "c' = c\<lparr>c_dedup := d, c_callers := c_callers c @ [if owner then CUpsert req f else CAwait f]\<rparr>"
        using True request by (simp add: request_begin_def)
      then show ?thesis using get_or_create_target [OF reg g] tgt len by (fastforce simp: targets_ok_def)
    next
      case False
      then show ?thesis using request tgt by (auto simp: request_begin_def targets_ok_def)
    qed
  next
    case (caller_moves j ev p d)
    note k = caller_segment_calm [OF caller_moves(3)]
    have at: "c_callers c ! j \<in> set (c_callers c)" using caller_moves(2) by simp
    have sub: "set (c_callers c') \<subseteq> insert p (set (c_callers c))"
      using caller_moves(1) k set_update_subset_insert [of "c_callers c" j p] by simp
    show ?thesis
      unfolding targets_ok_def
    proof (intro ballI allI impI)
      fix q f assume q: "q \<in> set (c_callers c')" "target q = Some f"
      then have "target (c_callers c ! j) = Some f \<or> q \<in> set (c_callers c)" using sub k by auto
      then have "f < length (r_futures (c_dedup c))" using tgt at q(2) unfolding targets_ok_def by blast
      then show "f < length (r_futures (c_dedup c'))" using len by simp
    qed
  next
    case (worker_moves j ev w d)
    then show ?thesis using worker_segment_grows [OF worker_moves(3)] by (intro plain) simp
  next
    case (reschedule k)
    then show ?thesis by (intro plain) (auto simp: reschedule_fires_def Let_def split: if_splits option.splits)
  next
    case (starting fid t)
    then show ?thesis by (intro plain) (auto simp: start_begin_def Let_def split: sum.splits)
  next
    case start_moves
    then show ?thesis using start_segment_grows by (intro plain) simp
  next
    case stop_moves
    then show ?thesis by (intro plain) (auto simp: stop_segment_def stop_finish_def split: phase.splits if_splits)
  qed (intro plain; auto simp: stop_begin_def client_metrics_def set_response_hook_def Let_def)+
qed

section \<open>Every client\<close>

text \<open>The registry of any client, on a file or in memory, is well formed.\<close>

definition client_fresh :: "Client \<Rightarrow> bool" where
  "client_fresh c \<longleftrightarrow> (\<exists>cfg db. new_Client cfg db = Inr c)"

interpretation cls: invariant_system client_fresh client_step "\<lambda>c. reg_ok (c_dedup c) \<and> targets_ok c"
proof unfold_locales
  fix c assume "client_fresh c"
  then obtain cfg db where "new_Client cfg db = Inr c" by (auto simp: client_fresh_def)
  then have "c_dedup c = new_InFlightRegistry" "c_callers c = []" by (auto simp: new_Client_def split: sum.splits)
  then show "reg_ok (c_dedup c) \<and> targets_ok c" by (simp add: reg_ok_new targets_ok_def)
next
  show "reg_ok (c_dedup c) \<and> targets_ok c \<Longrightarrow> client_step c c' \<Longrightarrow> reg_ok (c_dedup c') \<and> targets_ok c'" for c c'
    using client_step_grows [of c c'] client_step_targets [of c c'] by (simp add: reg_grows_def)
qed

end
