(* ===== verification/Mock_Server.thy ===== *)
theory Mock_Server
  imports Client
begin

text \<open>
  \<open>mock_server/app.py\<close>: the failure simulator the client is tested against. The random source
  (\<open>random.Random\<close>) is a parameter: how it is seeded, its next number and its choice among so many.
  A request to \<open>/flaky\<close> is a handler in segments, cut where the source sleeps or awaits the body;
  what runs under the lock never awaits. The web framework (routing, encoding, the bytes of a body)
  is not modelled: a body is its text.
\<close>

section \<open>Profile and state\<close>

record FailureProfile =
  p_429 :: real
  p_500 :: real
  latency_seconds :: real
  enforce_rate_per_second :: "real option"
  enforce_burst :: int
  seed :: pyval
  succeed_first :: int

definition default_FailureProfile :: FailureProfile where
  "default_FailureProfile =
     \<lparr>p_429 = 0, p_500 = 0, latency_seconds = 0, enforce_rate_per_second = None, enforce_burst = 5,
      seed = PyInt 0, succeed_first = 0\<rparr>"

record 'g random_ops =
  r_seed :: "pyval \<Rightarrow> 'g res"
  r_random :: "'g \<Rightarrow> real \<times> 'g"
  r_choice :: "nat \<Rightarrow> 'g \<Rightarrow> nat \<times> 'g"

text \<open>What Python documents of the source: numbers of the half-open unit interval, indices in range.\<close>

definition random_ok :: "'g random_ops \<Rightarrow> bool" where
  "random_ok ops \<longleftrightarrow> (\<forall>g. 0 \<le> fst (r_random ops g) \<and> fst (r_random ops g) < 1)
     \<and> (\<forall>g n. 0 < n \<longrightarrow> fst (r_choice ops n g) < n)"

record 'g ServerState =
  sv_profile :: FailureProfile
  sv_rng :: 'g
  sv_counters :: "(int, int) dict"
  sv_request_count :: int
  sv_bucket_tokens :: real
  sv_bucket_last_refill :: real

text \<open>\<open>reset_for_profile\<close>; a seed the source refuses leaves the new profile with the old counters.\<close>

definition reset_for_profile ::
  "'g random_ops \<Rightarrow> FailureProfile \<Rightarrow> real \<Rightarrow> 'g ServerState \<Rightarrow> pyerr option \<times> 'g ServerState" where
  "reset_for_profile ops profile now st =
     (case r_seed ops (seed profile) of
        Inl e \<Rightarrow> (Some e, st\<lparr>sv_profile := profile\<rparr>)
      | Inr g \<Rightarrow>
          (None, st\<lparr>sv_profile := profile, sv_rng := g, sv_counters := [], sv_request_count := 0,
                    sv_bucket_tokens := of_int (enforce_burst profile), sv_bucket_last_refill := now\<rparr>))"

text \<open>\<open>build_app\<close>; \<open>g\<close> is the unseeded source of the fresh state.\<close>

definition build_app ::
  "'g random_ops \<Rightarrow> FailureProfile option \<Rightarrow> real \<Rightarrow> 'g \<Rightarrow> pyerr option \<times> 'g ServerState" where
  "build_app ops profile now g =
     reset_for_profile ops (case profile of Some p \<Rightarrow> p | None \<Rightarrow> default_FailureProfile) now
       \<lparr>sv_profile = default_FailureProfile, sv_rng = g, sv_counters = [], sv_request_count = 0,
        sv_bucket_tokens = 0, sv_bucket_last_refill = 0\<rparr>"

definition bump :: "int \<Rightarrow> 'g ServerState \<Rightarrow> 'g ServerState" where
  "bump status st =
     st\<lparr>sv_counters := dset (sv_counters st) status
          ((case dget (sv_counters st) status of Some n \<Rightarrow> n | None \<Rightarrow> 0) + 1)\<rparr>"

section \<open>The quota\<close>

datatype gate = Pass | Throttled real | GateError pyerr

definition check_rate_limit :: "real \<Rightarrow> 'g ServerState \<Rightarrow> gate \<times> 'g ServerState" where
  "check_rate_limit now st =
     (case enforce_rate_per_second (sv_profile st) of
        None \<Rightarrow> (Pass, st)
      | Some rate \<Rightarrow>
          (let elapsed = now - sv_bucket_last_refill st;
               tokens = min (of_int (enforce_burst (sv_profile st))) (sv_bucket_tokens st + elapsed * rate);
               st1 = st\<lparr>sv_bucket_tokens := tokens, sv_bucket_last_refill := now\<rparr> in
           if tokens < 1 then
             (if rate = 0 then (GateError (ZeroDivisionError ''float division by zero''), st1)
              else let deficit = 1 - tokens; wait = deficit / rate in (Throttled wait, bump 429 st1))
           else (Pass, st1\<lparr>sv_bucket_tokens := tokens - 1\<rparr>)))"

section \<open>The flaky endpoint\<close>

record web_request =
  wr_method :: string
  wr_path :: string
  wr_query :: "(string, string) dict"
  wr_body :: string

record web_response =
  rs_status :: int
  rs_headers :: "(string, string) dict"
  rs_content :: pyval

definition detail :: "string \<Rightarrow> pyval" where
  "detail s = PyDict [(''detail'', PyStr s)]"

definition query_value :: "web_request \<Rightarrow> pyval" where
  "query_value w = PyDict (map (\<lambda>(k, v). (k, PyStr v)) (wr_query w))"

text \<open>
  Where a handler is: not started, in the injected latency with its two rolls, awaiting the body,
  answered, or left by an exception.
\<close>

datatype handler =
    HNew web_request
  | HSleep web_request real real
  | HBody web_request
  | HDone web_response
  | HCrash pyerr

definition finish :: "web_request \<Rightarrow> pyval \<Rightarrow> 'g ServerState \<Rightarrow> handler \<times> 'g ServerState" where
  "finish w body st =
     (HDone \<lparr>rs_status = 200, rs_headers = [],
             rs_content = PyDict [(''ok'', PyBool True), (''method'', PyStr (wr_method w)), (''path'', PyStr (wr_path w)),
                                  (''query'', query_value w), (''body'', body), (''n'', PyInt (sv_request_count st))]\<rparr>,
      bump 200 st)"

definition accept :: "web_request \<Rightarrow> 'g ServerState \<Rightarrow> handler \<times> 'g ServerState" where
  "accept w st = (if wr_method w \<in> {''POST'', ''PUT''} then (HBody w, st) else finish w PyNone st)"

text \<open>The rest of \<open>_maybe_random_failure\<close> once the latency is over; the profile is read again.\<close>

definition decide :: "'g random_ops \<Rightarrow> web_request \<Rightarrow> real \<Rightarrow> real \<Rightarrow> 'g ServerState \<Rightarrow> handler \<times> 'g ServerState" where
  "decide ops w roll_429 roll_500 st =
     (if roll_429 < p_429 (sv_profile st) then
        (HDone \<lparr>rs_status = 429, rs_headers = [], rs_content = detail ''throttled''\<rparr>, bump 429 st)
      else if roll_500 < p_500 (sv_profile st) then
        (let (i, g) = r_choice ops 3 (sv_rng st); status = [500, 502, 503] ! i in
         (HDone \<lparr>rs_status = status, rs_headers = [], rs_content = detail ''server error''\<rparr>, bump status (st\<lparr>sv_rng := g\<rparr>)))
      else accept w st)"

definition draw :: "'g random_ops \<Rightarrow> web_request \<Rightarrow> 'g ServerState \<Rightarrow> handler \<times> 'g ServerState" where
  "draw ops w st0 =
     (let st = st0\<lparr>sv_request_count := sv_request_count st0 + 1\<rparr> in
      if sv_request_count st \<le> succeed_first (sv_profile st) then accept w st
      else let (roll_429, g1) = r_random ops (sv_rng st); (roll_500, g2) = r_random ops g1;
               st' = st\<lparr>sv_rng := g2\<rparr> in
           if latency_seconds (sv_profile st) > 0 then (HSleep w roll_429 roll_500, st')
           else decide ops w roll_429 roll_500 st')"

definition rate_limited :: "real \<Rightarrow> web_response" where
  "rate_limited wait =
     \<lparr>rs_status = 429, rs_headers = [(''Retry-After'', fmt_3f wait)], rs_content = detail ''rate limited''\<rparr>"

definition read_body :: "web_request \<Rightarrow> pyval" where
  "read_body w = (case loads (wr_body w) of Inr v \<Rightarrow> v | Inl _ \<Rightarrow> PyStr (wr_body w))"

fun flaky :: "'g random_ops \<Rightarrow> real \<Rightarrow> handler \<Rightarrow> 'g ServerState \<Rightarrow> (handler \<times> 'g ServerState) option" where
  "flaky ops now (HNew w) st =
     Some (case check_rate_limit now st of
             (Throttled wait, st') \<Rightarrow> (HDone (rate_limited wait), st')
           | (GateError e, st') \<Rightarrow> (HCrash e, st')
           | (Pass, st') \<Rightarrow> draw ops w st')"
| "flaky ops now (HSleep w r1 r2) st = Some (decide ops w r1 r2 st)"
| "flaky ops now (HBody w) st = Some (finish w (read_body w) st)"
| "flaky ops now (HDone _) st = None"
| "flaky ops now (HCrash _) st = None"

section \<open>The other endpoints\<close>

definition healthz :: pyval where
  "healthz = PyDict [(''status'', PyStr ''ok'')]"

definition echo :: "web_request \<Rightarrow> pyval" where
  "echo w = PyDict [(''path'', PyStr (wr_path w)), (''query'', query_value w)]"

definition server_metrics :: "'g ServerState \<Rightarrow> (int, int) dict \<times> int" where
  "server_metrics st = (sv_counters st, sv_request_count st)"

text \<open>
  The conversions of \<open>/admin/profile\<close>. A number that is not finite would be stored by the server; the
  model refuses it.
\<close>

definition float_arg :: "pyval \<Rightarrow> real res" where
  "float_arg v =
     (let of_text = (\<lambda>s. case float_of_str s of
                            Inl e \<Rightarrow> Inl e
                          | Inr (Fin x) \<Rightarrow> Inr x
                          | Inr _ \<Rightarrow> Inl (ValueError ''not finite'')) in
      case v of
        PyInt n \<Rightarrow> Inr (of_int n)
      | PyBool b \<Rightarrow> Inr (if b then 1 else 0)
      | PyFloat s \<Rightarrow> of_text s
      | PyStr s \<Rightarrow> of_text s
      | _ \<Rightarrow> Inl (TypeError ''float() argument must be a string or a real number''))"

definition int_of_str :: "string \<Rightarrow> int res" where
  "int_of_str s0 =
     (let (sg, s) = scan_sign (strip s0); (ds, r) = scan_digits False s in
      if ds = [] \<or> r \<noteq> [] then Inl (ValueError ''invalid literal for int()'') else Inr (sg * int (digits_val ds)))"

definition int_arg :: "pyval \<Rightarrow> int res" where
  "int_arg v =
     (case v of
        PyInt n \<Rightarrow> Inr n
      | PyBool b \<Rightarrow> Inr (if b then 1 else 0)
      | PyFloat s \<Rightarrow> (case float_arg v of Inl e \<Rightarrow> Inl e | Inr x \<Rightarrow> Inr (if x < 0 then - \<lfloor>- x\<rfloor> else \<lfloor>x\<rfloor>))
      | PyStr s \<Rightarrow> int_of_str s
      | _ \<Rightarrow> Inl (TypeError ''int() argument must be a string or a real number''))"

definition field :: "(string, pyval) dict \<Rightarrow> string \<Rightarrow> pyval \<Rightarrow> pyval" where
  "field d k def = (case dget d k of Some v \<Rightarrow> v | None \<Rightarrow> def)"

definition profile_of :: "(string, pyval) dict \<Rightarrow> FailureProfile res" where
  "profile_of d =
     (case float_arg (field d ''p_429'' (PyFloat ''0.0'')) of Inl e \<Rightarrow> Inl e | Inr p4 \<Rightarrow>
      case float_arg (field d ''p_500'' (PyFloat ''0.0'')) of Inl e \<Rightarrow> Inl e | Inr p5 \<Rightarrow>
      case float_arg (field d ''latency_seconds'' (PyFloat ''0.0'')) of Inl e \<Rightarrow> Inl e | Inr lat \<Rightarrow>
      case (if field d ''enforce_rate_per_second'' PyNone = PyNone then Inr None
            else (case float_arg (field d ''enforce_rate_per_second'' PyNone) of Inl e \<Rightarrow> Inl e | Inr x \<Rightarrow> Inr (Some x))) of
        Inl e \<Rightarrow> Inl e | Inr rate \<Rightarrow>
      case int_arg (field d ''enforce_burst'' (PyInt 5)) of Inl e \<Rightarrow> Inl e | Inr brst \<Rightarrow>
      case int_arg (field d ''succeed_first'' (PyInt 0)) of Inl e \<Rightarrow> Inl e | Inr first \<Rightarrow>
      Inr \<lparr>p_429 = p4, p_500 = p5, latency_seconds = lat, enforce_rate_per_second = rate, enforce_burst = brst,
           seed = field d ''seed'' (PyInt 0), succeed_first = first\<rparr>)"

definition set_profile ::
  "'g random_ops \<Rightarrow> (string, pyval) dict \<Rightarrow> real \<Rightarrow> 'g ServerState \<Rightarrow> pyval res \<times> 'g ServerState" where
  "set_profile ops d now st =
     (case profile_of d of
        Inl e \<Rightarrow> (Inl e, st)
      | Inr p \<Rightarrow>
          (case reset_for_profile ops p now st of
             (Some e, st') \<Rightarrow> (Inl e, st')
           | (None, st') \<Rightarrow> (Inr (PyDict [(''status'', PyStr ''applied'')]), st')))"

definition reset :: "'g random_ops \<Rightarrow> real \<Rightarrow> 'g ServerState \<Rightarrow> pyval res \<times> 'g ServerState" where
  "reset ops now st =
     (case reset_for_profile ops (sv_profile st) now st of
        (Some e, st') \<Rightarrow> (Inl e, st')
      | (None, st') \<Rightarrow> (Inr (PyDict [(''status'', PyStr ''reset'')]), st'))"

section \<open>What the counters count\<close>

text \<open>Requests arrive and their handlers move in any order.\<close>

inductive server_step :: "'g random_ops \<Rightarrow> handler list \<times> 'g ServerState \<Rightarrow> handler list \<times> 'g ServerState \<Rightarrow> bool" for ops where
  arrives: "server_step ops (hs, st) (hs @ [HNew w], st)"
| moves: "i < length hs \<Longrightarrow> flaky ops now (hs ! i) st = Some (h, st') \<Longrightarrow> server_step ops (hs, st) (hs[i := h], st')"

inductive_cases server_stepE: "server_step ops x y"

definition counted :: "'g ServerState \<Rightarrow> int \<Rightarrow> int" where
  "counted st k = (case dget (sv_counters st) k of Some n \<Rightarrow> n | None \<Rightarrow> 0)"

fun answered :: "int \<Rightarrow> handler \<Rightarrow> int" where
  "answered k (HDone r) = (if rs_status r = k then 1 else 0)"
| "answered k _ = 0"

text \<open>Whether a handler got past the quota.\<close>

fun passed :: "handler \<Rightarrow> int" where
  "passed (HDone r) = (if rs_content r = detail ''rate limited'' then 0 else 1)"
| "passed (HSleep _ _ _) = 1"
| "passed (HBody _) = 1"
| "passed _ = 0"

lemma counted_bump [simp]: "counted (bump k st) j = counted st j + (if j = k then 1 else 0)"
  by (auto simp: counted_def bump_def dget_dset)

lemma bump_fields [simp]:
  "sv_request_count (bump k st) = sv_request_count st" "sv_profile (bump k st) = sv_profile st"
  "sv_bucket_tokens (bump k st) = sv_bucket_tokens st" "sv_bucket_last_refill (bump k st) = sv_bucket_last_refill st"
  by (simp_all add: bump_def)

lemma counted_cong: "sv_counters st' = sv_counters st \<Longrightarrow> counted st' = counted st"
  by (simp add: counted_def fun_eq_iff)

text \<open>How one segment changes the counters: \<open>h\<close> and \<open>h'\<close> are the handler before and after.\<close>

definition tallied :: "handler \<Rightarrow> 'g ServerState \<Rightarrow> handler \<Rightarrow> 'g ServerState \<Rightarrow> bool" where
  "tallied h st h' st' \<longleftrightarrow> (\<forall>k. counted st' k = counted st k - answered k h + answered k h')
     \<and> sv_request_count st' = sv_request_count st - passed h + passed h'"

lemma detail_inject [simp]: "detail s = detail t \<longleftrightarrow> s = t"
  by (simp add: detail_def)

lemma finish_tallied: "finish w b st = (h', st') \<Longrightarrow> passed h = 1 \<Longrightarrow> \<forall>k. answered k h = 0 \<Longrightarrow> tallied h st h' st'"
  by (auto simp: finish_def tallied_def detail_def)

lemma accept_tallied: "accept w st = (h', st') \<Longrightarrow> passed h = 1 \<Longrightarrow> \<forall>k. answered k h = 0 \<Longrightarrow> tallied h st h' st'"
  by (auto simp: accept_def finish_tallied split: if_splits) (simp_all add: tallied_def)

lemma decide_tallied:
  assumes "decide ops w r1 r2 st = (h', st')" and "passed h = 1" and "\<forall>k. answered k h = 0"
  shows "tallied h st h' st'"
proof (cases "\<not> r1 < p_429 (sv_profile st) \<and> \<not> r2 < p_500 (sv_profile st)")
  case True
  then show ?thesis using assms accept_tallied by (simp add: decide_def)
next
  case False
  have "counted (st\<lparr>sv_rng := g\<rparr>) = counted st" for g by (rule counted_cong) simp
  with False assms show ?thesis by (auto simp: decide_def tallied_def Let_def split: if_splits prod.splits)
qed

lemma draw_tallied:
  assumes "draw ops w st = (h', st')"
  shows "tallied (HNew w) st h' st'"
proof -
  have new: "tallied (HNew w) st h' st'" if "tallied (HBody w) (st\<lparr>sv_request_count := sv_request_count st + 1, sv_rng := g\<rparr>) h' st'" for g
    using that by (simp add: tallied_def counted_def)
  obtain r1 g1 r2 g2 where r: "r_random ops (sv_rng st) = (r1, g1)" "r_random ops g1 = (r2, g2)" by fastforce
  let ?st = "st\<lparr>sv_request_count := sv_request_count st + 1\<rparr>"
  have "tallied (HBody w) (?st\<lparr>sv_rng := sv_rng st\<rparr>) h' st' \<or> tallied (HBody w) (?st\<lparr>sv_rng := g2\<rparr>) h' st'"
    using assms accept_tallied [of w ?st h' st' "HBody w"] decide_tallied [of ops w r1 r2 "?st\<lparr>sv_rng := g2\<rparr>" h' st' "HBody w"]
    by (auto simp: draw_def r Let_def split: if_splits) (auto simp: tallied_def counted_def)
  then show ?thesis using new [of "sv_rng st"] new [of g2] by (elim disjE)
qed

lemma check_rate_limit_counts:
  assumes "check_rate_limit now st = (r, st')"
  shows "sv_request_count st' = sv_request_count st
     \<and> counted st' k = counted st k + (case r of Throttled _ \<Rightarrow> (if k = 429 then 1 else 0) | _ \<Rightarrow> 0)"
proof -
  have "counted (st\<lparr>sv_bucket_tokens := x, sv_bucket_last_refill := y\<rparr>) = counted st" for x y by (rule counted_cong) simp
  moreover have "counted (st\<lparr>sv_bucket_last_refill := y, sv_bucket_tokens := x\<rparr>) = counted st" for x y by (rule counted_cong) simp
  ultimately show ?thesis
    using assms by (auto simp: check_rate_limit_def Let_def split: option.splits if_splits)
qed

lemma flaky_tallied:
  assumes "flaky ops now h st = Some (h', st')"
  shows "tallied h st h' st'"
proof (cases h)
  case (HNew w)
  obtain r st1 where g: "check_rate_limit now st = (r, st1)" by fastforce
  have c: "counted st1 k = counted st k + (case r of Throttled _ \<Rightarrow> (if k = 429 then 1 else 0) | _ \<Rightarrow> 0)"
    "sv_request_count st1 = sv_request_count st" for k using check_rate_limit_counts [OF g] by auto
  show ?thesis
  proof (cases r)
    case Pass
    with HNew g assms have "draw ops w st1 = (h', st')" by simp
    from draw_tallied [OF this] c Pass HNew show ?thesis by (simp add: tallied_def)
  qed (use HNew g assms c in \<open>auto simp: tallied_def rate_limited_def\<close>)
next
  case (HSleep w r1 r2)
  with assms show ?thesis using decide_tallied [of ops w r1 r2 st h' st' h] by simp
next
  case (HBody w)
  with assms show ?thesis using finish_tallied [of w "read_body w" st h' st' h] by simp
qed (use assms in simp_all)

definition counts_exact :: "handler list \<times> 'g ServerState \<Rightarrow> bool" where
  "counts_exact x \<longleftrightarrow> (\<forall>k. counted (snd x) k = sum_list (map (answered k) (fst x)))
     \<and> sv_request_count (snd x) = sum_list (map passed (fst x))"

lemma server_step_exact: "server_step ops x y \<Longrightarrow> counts_exact x \<Longrightarrow> counts_exact y"
proof (induction rule: server_step.induct)
  case (moves i hs now st h st')
  from flaky_tallied [OF moves.hyps(2)] show ?case
    using moves.prems by (simp add: counts_exact_def tallied_def sum_list_update_int [OF moves.hyps(1)])
qed (simp add: counts_exact_def)

definition server_init :: "'g random_ops \<Rightarrow> handler list \<times> 'g ServerState \<Rightarrow> bool" where
  "server_init ops x \<longleftrightarrow> fst x = [] \<and> (\<exists>p now g. build_app ops p now g = (None, snd x))"

lemma reset_fields:
  assumes "reset_for_profile ops p now st = (None, st')"
  shows "sv_counters st' = [] \<and> sv_request_count st' = 0 \<and> sv_profile st' = p
     \<and> sv_bucket_tokens st' = of_int (enforce_burst p) \<and> sv_bucket_last_refill st' = now"
  using assms by (auto simp: reset_for_profile_def split: sum.splits)

lemma server_init_exact: "server_init ops x \<Longrightarrow> counts_exact x"
  by (auto simp: server_init_def build_app_def counts_exact_def counted_def dget_def dest!: reset_fields)

text \<open>Every answer has one of the five statuses, as the source chooses among three server errors.\<close>

definition statuses :: "int list" where
  "statuses = [200, 429, 500, 502, 503]"

fun status_ok :: "handler \<Rightarrow> bool" where
  "status_ok (HDone r) \<longleftrightarrow> rs_status r \<in> set statuses"
| "status_ok _ \<longleftrightarrow> True"

fun has_answer :: "handler \<Rightarrow> bool" where
  "has_answer (HDone _) \<longleftrightarrow> True"
| "has_answer _ \<longleftrightarrow> False"

lemma accept_status: "status_ok (fst (accept w st))"
  by (simp add: accept_def finish_def statuses_def)

lemma decide_status:
  assumes "random_ok ops"
  shows "status_ok (fst (decide ops w r1 r2 st))"
proof -
  obtain i g where c: "r_choice ops 3 (sv_rng st) = (i, g)" by fastforce
  have "fst (r_choice ops 3 (sv_rng st)) < 3" using assms by (simp add: random_ok_def)
  then have "i < length [500, 502, 503::int]" by (simp add: c)
  then have "[500, 502, 503::int] ! i \<in> set [500, 502, 503]" by (rule nth_mem)
  then have "[500, 502, 503::int] ! i \<in> set statuses" by (auto simp: statuses_def)
  then show ?thesis by (auto simp: decide_def c Let_def accept_status) (simp add: statuses_def)
qed

lemma flaky_status:
  assumes "random_ok ops" and "flaky ops now h st = Some (h', st')"
  shows "status_ok h'"
proof (cases h)
  case (HNew w)
  have "status_ok (fst (draw ops w st1))" for st1
    by (simp add: draw_def Let_def accept_status decide_status [OF assms(1)] split: prod.split)
  with HNew assms(2) show ?thesis
    by (auto simp: rate_limited_def statuses_def split: prod.splits gate.splits) (metis fst_conv)+
next
  case (HSleep w r1 r2)
  with assms(2) decide_status [OF assms(1), of w r1 r2 st] show ?thesis by simp
qed (use assms(2) in \<open>auto simp: finish_def statuses_def\<close>)

lemma answers_total:
  "\<forall>h \<in> set hs. status_ok h \<Longrightarrow> (\<Sum>k\<leftarrow>statuses. sum_list (map (answered k) hs)) = int (length (filter has_answer hs))"
proof (induction hs)
  case (Cons h hs)
  then show ?case by (cases h) (auto simp: statuses_def)
qed (simp add: statuses_def)

definition server_inv :: "'g random_ops \<Rightarrow> handler list \<times> 'g ServerState \<Rightarrow> bool" where
  "server_inv ops x \<longleftrightarrow> counts_exact x \<and> (random_ok ops \<longrightarrow> (\<forall>h \<in> set (fst x). status_ok h))"

lemma server_step_inv:
  assumes "server_step ops x y" and "server_inv ops x"
  shows "server_inv ops y"
proof -
  have "\<forall>h \<in> set (fst y). status_ok h" if "random_ok ops" "\<forall>h \<in> set (fst x). status_ok h"
    using assms(1) that
    by (induction rule: server_step.induct) (auto dest!: set_update_subset_insert [THEN subsetD] intro: flaky_status)
  with assms server_step_exact [OF assms(1)] show ?thesis by (simp add: server_inv_def)
qed

lemma server_init_inv: "server_init ops x \<Longrightarrow> server_inv ops x"
  by (simp add: server_inv_def server_init_exact) (simp add: server_init_def)

interpretation srv: invariant_system "server_init ops" "server_step ops" "server_inv ops" for ops
  by unfold_locales (auto intro: server_step_inv server_init_inv)

section \<open>The quota is a token bucket\<close>

definition bucket_of :: "real \<Rightarrow> 'g ServerState \<Rightarrow> TokenBucket" where
  "bucket_of rate st =
     \<lparr>b_rate = rate, b_capacity = of_int (enforce_burst (sv_profile st)), b_tokens = sv_bucket_tokens st,
      b_last = sv_bucket_last_refill st\<rparr>"

lemma bucket_of_bump [simp]: "bucket_of rate (bump k st) = bucket_of rate st"
  by (simp add: bucket_of_def)

text \<open>On a clock that does not go back, a check is a round of the client's own bucket for one token.\<close>

lemma check_is_round:
  assumes rate: "enforce_rate_per_second (sv_profile st) = Some rate" and ok: "bucket_ok (bucket_of rate st)"
    and now: "sv_bucket_last_refill st \<le> now" and c: "check_rate_limit now st = (r, st')"
  shows "acquire_step 1 now (bucket_of rate st) = (case r of Throttled w \<Rightarrow> MustWait w | _ \<Rightarrow> Acquired, bucket_of rate st')
     \<and> (\<forall>e. r \<noteq> GateError e) \<and> sv_profile st' = sv_profile st"
proof -
  define tk where "tk = min (of_int (enforce_burst (sv_profile st))) (sv_bucket_tokens st + (now - sv_bucket_last_refill st) * rate)"
  have "refill now (bucket_of rate st) = (bucket_of rate st)\<lparr>b_tokens := tk, b_last := now\<rparr>"
    using ok now by (auto simp: refill_def bucket_of_def tk_def bucket_ok_def Let_def)
  then have step: "acquire_step 1 now (bucket_of rate st) =
      (if 1 \<le> tk then (Acquired, (bucket_of rate st)\<lparr>b_tokens := tk - 1, b_last := now\<rparr>)
       else (MustWait ((1 - tk) / rate), (bucket_of rate st)\<lparr>b_tokens := tk, b_last := now\<rparr>))"
    by (simp add: acquire_step_def Let_def bucket_of_def)
  have "0 < rate" using ok by (simp add: bucket_ok_def bucket_of_def)
  with c rate show ?thesis
    unfolding step by (auto simp: check_rate_limit_def Let_def bucket_of_def simp flip: tk_def split: if_splits)
qed

fun gate_run :: "real list \<Rightarrow> 'g ServerState \<Rightarrow> 'g ServerState" where
  "gate_run [] st = st"
| "gate_run (t # ts) st = gate_run ts (snd (check_rate_limit t st))"

fun passes :: "real list \<Rightarrow> 'g ServerState \<Rightarrow> nat" where
  "passes [] st = 0"
| "passes (t # ts) st = (if fst (check_rate_limit t st) = Pass then 1 else 0) + passes ts (snd (check_rate_limit t st))"

lemma gate_simulates:
  assumes "enforce_rate_per_second (sv_profile st) = Some rate" and "bucket_ok (bucket_of rate st)"
    and "sorted ts" and "\<forall>t \<in> set ts. sv_bucket_last_refill st \<le> t"
  shows "real (passes ts st) = granted (bucket_of rate st) (map (Pair 1) ts)
     \<and> bucket_of rate (gate_run ts st) = bucket_run (bucket_of rate st) (map (Pair 1) ts)
     \<and> sv_profile (gate_run ts st) = sv_profile st"
  using assms
proof (induction ts arbitrary: st)
  case (Cons t ts)
  obtain r st1 where c: "check_rate_limit t st = (r, st1)" by fastforce
  from check_is_round [OF Cons.prems(1,2) _ c] Cons.prems(4) have step:
    "acquire_step 1 t (bucket_of rate st) = (case r of Throttled w \<Rightarrow> MustWait w | _ \<Rightarrow> Acquired, bucket_of rate st1)"
    "\<And>e. r \<noteq> GateError e" "sv_profile st1 = sv_profile st" by auto
  have ok: "bucket_ok (bucket_of rate st1)" using acquire_step_ok [OF Cons.prems(2), of 1 t] step(1) by simp
  have "b_last (bucket_of rate st1) = max (b_last (bucket_of rate st)) t"
    using acquire_step_fields(3) [of 1 t "bucket_of rate st"] step(1) by simp
  then have "sv_bucket_last_refill st1 = t" using Cons.prems(4) by (simp add: bucket_of_def)
  then have "\<forall>u \<in> set ts. sv_bucket_last_refill st1 \<le> u" using Cons.prems(3) by simp
  from Cons.IH [OF _ ok _ this] Cons.prems(1,3) step show ?case by (cases r) (auto simp: c)
qed simp

text \<open>A small random source for examples.\<close>

definition half_source :: "nat random_ops" where
  "half_source = \<lparr>r_seed = (\<lambda>_. Inr 0), r_random = (\<lambda>g. (1 / 2, Suc g)), r_choice = (\<lambda>n g. (g mod n, Suc g))\<rparr>"

lemma half_source_ok: "random_ok half_source"
  by (simp add: random_ok_def half_source_def)

definition get_flaky :: web_request where
  "get_flaky = \<lparr>wr_method = ''GET'', wr_path = ''/flaky'', wr_query = [], wr_body = []\<rparr>"

lemma demo_server:
  "\<exists>st h. reach (server_init half_source) (server_step half_source) ([HDone h], st) \<and> rs_status h = 200"
proof -
  obtain st where st: "build_app half_source None 0 0 = (None, st)"
    by (simp add: build_app_def reset_for_profile_def half_source_def default_FailureProfile_def)
  let ?P = "reach (server_init half_source) (server_step half_source)"
  have "server_init half_source ([], st)" using st by (auto simp: server_init_def)
  then have "?P ([], st)" by (rule reach_start)
  from this arrives have "?P ([] @ [HNew get_flaky], st)" by (rule reach_next)
  then have 1: "?P ([HNew get_flaky], st)" by simp
  have p: "sv_profile st = default_FailureProfile" "sv_request_count st = 0" using st by (auto simp: build_app_def dest!: reset_fields)
  obtain h st' where h: "flaky half_source 1 (HNew get_flaky) st = Some (HDone h, st')" "rs_status h = 200"
    by (simp add: check_rate_limit_def p default_FailureProfile_def draw_def decide_def accept_def finish_def half_source_def
        get_flaky_def Let_def)
  from 1 have "?P ([HNew get_flaky][0 := HDone h], st')" by (rule reach_next) (rule moves, use h(1) in auto)
  with h(2) show ?thesis by auto
qed

definition strict_profile :: FailureProfile where
  "strict_profile = default_FailureProfile\<lparr>enforce_rate_per_second := Some 10, enforce_burst := 1\<rparr>"

definition strict_server :: "nat ServerState" where
  "strict_server = snd (build_app half_source (Some strict_profile) 0 0)"

lemma strict_server_build: "build_app half_source (Some strict_profile) 0 0 = (None, strict_server)"
  by (simp add: strict_server_def build_app_def reset_for_profile_def half_source_def)

lemma int_str_429: "int_str 429 = ''429''"
  by code_simp

lemma fmt_3f_strip:
  assumes "0 < x"
  shows "strip (fmt_3f x) = fmt_3f x \<and> fmt_3f x \<noteq> []"
proof -
  have "is_digit (hd (nat_str n))" "is_digit (last (nat_str n))" for n
    using nat_str_digits [of n] nat_str_nonempty [of n] by (metis hd_in_set, metis last_in_set)
  then have "is_digit (hd (fmt_3f x)) \<and> is_digit (last (fmt_3f x))" using assms by (simp add: fmt_3f_def Let_def)
  moreover have "fmt_3f x \<noteq> []" by (simp add: fmt_3f_def Let_def)
  ultimately show ?thesis by (simp add: strip_ends not_space_digit)
qed

section \<open>Properties\<close>

text \<open>C38: The server's metrics are exact, however requests arrive and their handlers interleave: each
  counter is the number of answers given with that status, the request count is the number of requests
  that got past the quota, and the five counters together are all answers. The random source is
  assumed to choose an index in range.\<close>

theorem server_counts:
  assumes "reach (server_init ops) (server_step ops) (hs, st)" and "random_ok ops"
  shows "counted st k = sum_list (map (answered k) hs) \<and> sv_request_count st = sum_list (map passed hs)
     \<and> (\<Sum>k\<leftarrow>statuses. counted st k) = int (length (filter has_answer hs))"
  using srv.reach_inv [OF assms(1)] assms(2) answers_total [of hs] by (simp add: server_inv_def counts_exact_def)

theorem server_counts_witness:
  "\<exists>hs st. reach (server_init half_source) (server_step half_source) (hs, st) \<and> length hs = 1 \<and> counted st 200 = 1"
  using demo_server server_counts [OF _ half_source_ok, of _ _ 200] by fastforce

text \<open>C39: In any window of time, whatever was asked before, the simulator lets at most its burst plus
  the refill of the window past its quota.\<close>

theorem server_quota:
  assumes "build_app ops (Some p) start g = (None, st)" and "enforce_rate_per_second p = Some rate" and "0 < rate"
    and "1 \<le> enforce_burst p" and "sorted (before @ inside)" and "start \<le> t0" and "t0 \<le> t1"
    and "\<forall>t \<in> set before. start \<le> t \<and> t \<le> t0" and "\<forall>t \<in> set inside. t0 \<le> t \<and> t \<le> t1"
  shows "real (passes inside (gate_run before st)) \<le> of_int (enforce_burst p) + rate * (t1 - t0)"
proof -
  have st: "sv_profile st = p" "sv_bucket_tokens st = of_int (enforce_burst p)" "sv_bucket_last_refill st = start"
    using assms(1) by (auto simp: build_app_def dest!: reset_fields)
  have ok: "bucket_ok (bucket_of rate st)" using assms(3,4) st by (simp add: bucket_ok_def bucket_of_def)
  let ?st = "gate_run before st"
  have b: "bucket_of rate ?st = bucket_run (bucket_of rate st) (map (Pair 1) before)" "sv_profile ?st = p"
    using gate_simulates [of st rate before] st ok assms(2,5,8) by (auto simp: sorted_append)
  have ok': "bucket_ok (bucket_of rate ?st)" unfolding b(1) using ok by (intro bucket_run_ok) auto
  have last: "b_last (bucket_of rate ?st) \<le> t0"
    unfolding b(1) by (rule bucket_run_last_le) (use st assms(6,8) in \<open>auto simp: bucket_of_def\<close>)
  have "real (passes inside ?st) = granted (bucket_of rate ?st) (map (Pair 1) inside)"
    using gate_simulates [of ?st rate inside] b(2) ok' last assms(2,5,9) by (force simp: sorted_append bucket_of_def)
  also have "\<dots> \<le> b_capacity (bucket_of rate ?st) + b_rate (bucket_of rate ?st) * (t1 - t0)"
    using assms(9) by (intro window_bound [OF ok' last assms(7)]) auto
  finally show ?thesis by (simp add: bucket_of_def b(2))
qed

theorem server_quota_witness: "real (passes [1, 1, 3 / 2, 2] (gate_run [1 / 2] strict_server)) \<le> 11"
  using server_quota [OF strict_server_build, of 10 "[1 / 2]" "[1, 1, 3 / 2, 2]" 1 2]
  by (simp add: strict_profile_def)



end
