(* ===== verification/Run_Demo.thy ===== *)
theory Run_Demo
  imports Client_Share Mock_Server
begin

text \<open>
  \<open>examples/run_demo.py\<close>: \<open>main\<close> up to the block of the client, the two workloads handed to
  \<open>asyncio.gather\<close>, and the assertion on the second. Starting \<open>uvicorn\<close>, the free port and printing are
  input and output only.
\<close>

section \<open>The script\<close>

definition demo_profile_body :: "(string, pyval) dict" where
  "demo_profile_body = [(''p_500'', PyFloat ''0.3''), (''p_429'', PyFloat ''0.1''), (''seed'', PyInt 7)]"

definition demo_config :: ClientConfig where
  "demo_config = default_ClientConfig
     \<lparr>db_path := '':memory:'',
      rate_limit := \<lparr>rate_per_second = 100, burst = 10\<rparr>,
      circuit_breaker := default_CircuitBreakerConfig\<lparr>failure_threshold := 20, failure_rate := 99 / 100\<rparr>,
      retry := default_RetryPolicy\<lparr>max_retries := 8, base_delay := 1 / 100, max_delay := 1 / 2\<rparr>,
      queue_cfg := \<lparr>max_size = 200, worker_count = 16\<rparr>\<rparr>"

definition demo_urls :: "string \<Rightarrow> string list" where
  "demo_urls base = map (\<lambda>i. base @ ''/flaky?i='' @ int_str (int i)) [0..<50]"

text \<open>
  \<open>main\<close> up to the block of the client: logging, the simulator on its default profile, the request that sets
  the profile, whose answer nobody looks at, and \<open>async with\<close> on a new client. \<open>g\<close> is the source of random
  numbers of the fresh simulator, \<open>now\<close> and \<open>now'\<close> are the times it and the request are handled.
\<close>

definition demo_open ::
  "'g random_ops \<Rightarrow> 'g \<Rightarrow> real \<Rightarrow> real \<Rightarrow> string \<Rightarrow> string \<Rightarrow> database \<Rightarrow> log_config option
   \<Rightarrow> log_config option \<times> ('g ServerState \<times> Client) res" where
  "demo_open ops g now now' fid t db conf =
     (configure_logging DEFAULT_LEVEL False conf,
      case build_app ops None now g of
        (Some e, _) \<Rightarrow> Inl e
      | (None, app) \<Rightarrow>
          (let app' = snd (set_profile ops demo_profile_body now' app) in
           case new_Client demo_config db of
             Inl e \<Rightarrow> Inl e
           | Inr c \<Rightarrow> (case aenter fid t c of (Some e, _) \<Rightarrow> Inl e | (None, c') \<Rightarrow> Inr (app', c'))))"

text \<open>The requests of both workloads; identifiers and times are those \<open>Request\<close> draws.\<close>

definition demo_first :: "string \<Rightarrow> (string \<times> string) list \<Rightarrow> Request list" where
  "demo_first base ids =
     map (\<lambda>(u, rid, t). mk_request ''GET'' u None None PyNone 0 rid t) (zip (demo_urls base) ids)"

definition demo_second :: "string \<Rightarrow> (string \<times> string) list \<Rightarrow> Request list" where
  "demo_second base ids =
     map (\<lambda>(rid, t). mk_request ''GET'' (base @ ''/flaky'') (Some [(''unique'', PyStr ''x'')]) None PyNone 0 rid t) ids"

text \<open>
  \<open>asyncio.gather\<close> starts the calls in order, each up to its first suspension; its result is there when
  all of them have returned.
\<close>

definition gather_begin :: "Request list \<Rightarrow> Client \<Rightarrow> Client" where
  "gather_begin reqs c = fold request_begin reqs c"

fun returned :: "caller \<Rightarrow> Response option" where
  "returned (CReturned r) = Some r"
| "returned _ = None"

definition gathered :: "nat \<Rightarrow> nat \<Rightarrow> Client \<Rightarrow> Response list option" where
  "gathered start n c =
     (let rs = map returned (take n (drop start (c_callers c))) in
      if length rs = n \<and> None \<notin> set rs then Some (map the rs) else None)"

text \<open>\<open>assert all(r is dedup_results[0] for r in dedup_results)\<close>\<close>

definition demo_assertion :: "Response list \<Rightarrow> bool" where
  "demo_assertion results \<longleftrightarrow> (\<forall>r \<in> set results. r = results ! 0)"

section \<open>Facts\<close>

lemma demo_literals:
  "float_of_str ''0.0'' = Inr (Fin 0)" "float_of_str ''0.1'' = Inr (Fin (1 / 10))" "float_of_str ''0.3'' = Inr (Fin (3 / 10))"
proof -
  have "(1::real) < float_overflow" by (simp add: float_overflow_def)
  then have small: "mk_float 1 x = Fin x" if "x \<le> 1" for x using that by (simp add: mk_float_def)
  have d: "is_digit CHR ''0''" "is_digit CHR ''1''" "is_digit CHR ''3''" "digits_val ''0'' = 0" "digits_val ''1'' = 1" "digits_val ''3'' = 3"
    by code_simp+
  show "float_of_str ''0.0'' = Inr (Fin 0)" "float_of_str ''0.1'' = Inr (Fin (1 / 10))" "float_of_str ''0.3'' = Inr (Fin (3 / 10))"
    using float_of_str_point [of "''0''" "''0''"] float_of_str_point [of "''0''" "''1''"] float_of_str_point [of "''0''" "''3''"]
    by (simp_all add: d small)
qed

lemma demo_profile_applied:
  "profile_of demo_profile_body =
     Inr (default_FailureProfile\<lparr>p_500 := 3 / 10, p_429 := 1 / 10, seed := PyInt 7\<rparr>)"
  by (simp add: profile_of_def demo_profile_body_def field_def dget_def float_arg_def int_arg_def demo_literals
      default_FailureProfile_def)

lemma demo_profile_set:
  "r_seed ops (PyInt 7) = Inr g \<Longrightarrow> snd (set_profile ops demo_profile_body now st) =
     st\<lparr>sv_profile := default_FailureProfile\<lparr>p_500 := 3 / 10, p_429 := 1 / 10, seed := PyInt 7\<rparr>, sv_rng := g,
        sv_counters := [], sv_request_count := 0, sv_bucket_tokens := 5, sv_bucket_last_refill := now\<rparr>"
  unfolding set_profile_def demo_profile_applied by (simp add: reset_for_profile_def default_FailureProfile_def)

lemma demo_app_built:
  "r_seed ops (PyInt 0) = Inr g0 \<Longrightarrow> \<exists>app. build_app ops None now g = (None, app)"
  by (simp add: build_app_def reset_for_profile_def default_FailureProfile_def)

text \<open>
  The script comes up on whatever the two seeds give: the simulator on the profile of the script with its counters at zero,
  the client, after one segment of \<open>start\<close>, running with sixteen idle workers and every key free.
\<close>

lemma demo_opens:
  assumes "r_seed ops (PyInt 0) = Inr g0" and "r_seed ops (PyInt 7) = Inr g7"
  shows "\<exists>app c c'. demo_open ops g now now' fid t db conf = (configure_logging DEFAULT_LEVEL False conf, Inr (app, c))
     \<and> sv_profile app = default_FailureProfile\<lparr>p_500 := 3 / 10, p_429 := 1 / 10, seed := PyInt 7\<rparr>
     \<and> sv_rng app = g7 \<and> sv_counters app = [] \<and> sv_request_count app = 0
     \<and> start_segment c = Some c' \<and> reach client_fresh client_step c' \<and> c_session c' \<and> c_phase c' = PIdle
     \<and> c_workers c' = replicate 16 WIdle \<and> c_callers c' = [] \<and> (\<forall>k. pending_for (c_dedup c') k = None)"
proof -
  obtain c0 where c0: "new_Client demo_config db = Inr c0" "\<not> c_session c0" "c_dedup c0 = new_InFlightRegistry"
    "c_callers c0 = []" "c_cfg c0 = demo_config"
    "c_storage c0 = \<lparr>st_path = '':memory:'', st_db = db, st_open = False\<rparr>"
    by (auto simp: new_Client_def demo_config_def new_RequestQueue_def)
  let ?s = "\<lparr>st_path = '':memory:'', st_db = empty_db, st_open = True\<rparr>"
  let ?c = "c0\<lparr>c_storage := ?s, c_session := True, c_phase := PRecover []\<rparr>"
  have "list_inflight fid t ?s = Inr []"
    using collect_map_Inr [of "[]"] by (simp add: list_inflight_def empty_db_def)
  then have a: "aenter fid t c0 = (None, ?c)"
    using c0 by (simp add: aenter_def start_begin_def st_open_conn_def)
  have s: "start_segment ?c = Some (start_finish ?c)" by (simp add: start_segment_def)
  have "client_step c0 ?c" using client_step.starting [of c0 fid t] a by (simp add: aenter_def)
  moreover have "client_fresh c0" using c0(1) by (auto simp: client_fresh_def)
  ultimately have "reach client_fresh client_step (start_finish ?c)"
    using client_step.start_moves [OF s] by (meson reach_start reach_next)
  moreover have "pending_for (c_dedup (start_finish ?c)) k = None" for k
    using c0(3) by (simp add: start_finish_def)
  moreover have "c_workers (start_finish ?c) = replicate 16 WIdle"
    using c0(5) by (simp add: start_finish_def demo_config_def)
  moreover obtain app where "demo_open ops g now now' fid t db conf = (configure_logging DEFAULT_LEVEL False conf, Inr (app, ?c))"
    "sv_profile app = default_FailureProfile\<lparr>p_500 := 3 / 10, p_429 := 1 / 10, seed := PyInt 7\<rparr>"
    "sv_rng app = g7" "sv_counters app = []" "sv_request_count app = 0"
    using demo_app_built [OF assms(1), of now g] demo_profile_set [OF assms(2), of now'] c0(1) a
    by (auto simp: demo_open_def Let_def)
  ultimately show ?thesis
    using s c0(4) by (intro exI [of _ app] exI [of _ ?c] exI [of _ "start_finish ?c"]) (simp add: start_finish_def)
qed

text \<open>Identical requests in a row on a running client with a free key: one owner, the others attach.\<close>

lemma attach_rest:
  assumes "c_session c" and "pending_for (c_dedup c) k = Some f" and "\<forall>q \<in> set qs. idempotency_key q = k"
  shows "c_callers (gather_begin qs c) = c_callers c @ replicate (length qs) (CAwait f)
     \<and> dedup_hits (c_dedup (gather_begin qs c)) = dedup_hits (c_dedup c) + int (length qs)
     \<and> unique_requests (c_dedup (gather_begin qs c)) = unique_requests (c_dedup c)
     \<and> r_futures (c_dedup (gather_begin qs c)) = r_futures (c_dedup c)"
  using assms
proof (induction qs arbitrary: c)
  case Nil
  then show ?case by (simp add: gather_begin_def)
next
  case (Cons q qs)
  let ?c = "c\<lparr>c_dedup := (c_dedup c)\<lparr>dedup_hits := dedup_hits (c_dedup c) + 1\<rparr>, c_callers := c_callers c @ [CAwait f]\<rparr>"
  have "request_begin q c = ?c" using Cons.prems by (simp add: request_begin_def get_or_create_hit)
  moreover have "pending_for (c_dedup ?c) k = Some f" using Cons.prems(2) by (simp add: pending_for_def fut_done_def)
  ultimately show ?case using Cons.IH [of ?c] Cons.prems by (simp add: gather_begin_def)
qed

lemma gather_same:
  assumes "c_session c" and "reg_ok (c_dedup c)" and "pending_for (c_dedup c) k = None" and "\<forall>q \<in> set (q # qs). idempotency_key q = k"
  shows "let f = length (r_futures (c_dedup c)); c' = gather_begin (q # qs) c in
       c_callers c' = c_callers c @ CUpsert q f # replicate (length qs) (CAwait f) \<and> f < length (r_futures (c_dedup c'))
       \<and> dedup_hits (c_dedup c') = dedup_hits (c_dedup c) + int (length qs)
       \<and> unique_requests (c_dedup c') = unique_requests (c_dedup c) + 1"
proof -
  let ?f = "length (r_futures (c_dedup c))" and ?d = "snd (get_or_create (c_dedup c) k)"
  let ?c = "c\<lparr>c_dedup := ?d, c_callers := c_callers c @ [CUpsert q ?f]\<rparr>"
  note miss = get_or_create_miss [OF assms(3)]
  have "request_begin q c = ?c" using assms(1,4) by (simp add: request_begin_def miss)
  then have g: "gather_begin (q # qs) c = gather_begin qs ?c" by (simp add: gather_begin_def)
  have "pending_for (c_dedup ?c) k = Some ?f" using pending_for_attach_miss [OF assms(2,3)] by simp
  then have "c_callers (gather_begin qs ?c) = c_callers ?c @ replicate (length qs) (CAwait ?f)
     \<and> dedup_hits (c_dedup (gather_begin qs ?c)) = dedup_hits ?d + int (length qs)
     \<and> unique_requests (c_dedup (gather_begin qs ?c)) = unique_requests ?d
     \<and> r_futures (c_dedup (gather_begin qs ?c)) = r_futures ?d"
    using attach_rest [of ?c k ?f qs] assms(1,4) by simp
  then show ?thesis unfolding Let_def g by (simp add: miss)
qed

lemma demo_second_key:
  "q \<in> set (demo_second base ids) \<Longrightarrow> q' \<in> set (demo_second base ids') \<Longrightarrow> idempotency_key q = idempotency_key q'"
  by (auto simp: demo_second_def mk_request_def idempotency_key_def key_payload_def Let_def)

lemma gathered_follow:
  assumes "\<forall>i < n. follows f (start + i) d" and "gathered start n d = Some results"
  shows "\<forall>r \<in> set results. fut_state (c_dedup d) f = Result r"
proof
  fix r assume "r \<in> set results"
  with assms(2) obtain p where p: "p \<in> set (take n (drop start (c_callers d)))" "r = the (returned p)" "returned p \<noteq> None"
    by (force simp: gathered_def Let_def split: if_splits)
  from p(1) obtain i where i: "i < n" "start + i < length (c_callers d)" "c_callers d ! (start + i) = p"
    by (auto simp: in_set_conv_nth)
  have "p = CReturned r" using p(2,3) by (cases p) auto
  then show "fut_state (c_dedup d) f = Result r" using assms(1) i by (auto simp: follows_def)
qed

section \<open>Properties\<close>

text \<open>C21: The second workload of the demo collapses to one unit of work: of the identical requests handed
  to \<open>gather\<close> on a running client with a free key one becomes the owner and all others are counted as
  deduplicated; and whatever runs until \<open>gather\<close> has its results, the script's assertion that they
  are all the same response holds.\<close>

theorem gathered_agree:
  assumes "reach client_fresh client_step c" and "c_session c" and "0 < length ids"
    and "\<forall>q \<in> set (demo_second base ids). pending_for (c_dedup c) (idempotency_key q) = None"
    and "c' = gather_begin (demo_second base ids) c"
  shows "unique_requests (c_dedup c') = unique_requests (c_dedup c) + 1
     \<and> dedup_hits (c_dedup c') = dedup_hits (c_dedup c) + int (length ids) - 1
     \<and> (\<forall>d results. client_step\<^sup>*\<^sup>* c' d \<longrightarrow> gathered (length (c_callers c)) (length ids) d = Some results \<longrightarrow> demo_assertion results)"
proof -
  obtain q qs where qs: "demo_second base ids = q # qs" using assms(3) by (cases ids) (auto simp: demo_second_def)
  have len: "length ids = Suc (length qs)" using arg_cong [OF qs, of length] by (simp add: demo_second_def)
  have keys: "\<forall>q' \<in> set (q # qs). idempotency_key q' = idempotency_key q"
    using demo_second_key [where base = base and ids = ids and ids' = ids] qs by (metis list.set_intros(1))
  have free: "pending_for (c_dedup c) (idempotency_key q) = None" using assms(4) qs by simp
  let ?f = "length (r_futures (c_dedup c))" and ?n = "length (c_callers c)"
  have c': "c_callers c' = c_callers c @ CUpsert q ?f # replicate (length qs) (CAwait ?f)" "?f < length (r_futures (c_dedup c'))"
    "dedup_hits (c_dedup c') = dedup_hits (c_dedup c) + int (length qs)" "unique_requests (c_dedup c') = unique_requests (c_dedup c) + 1"
    using gather_same [OF assms(2) conjunct1 [OF cls.reach_inv [OF assms(1)]] free keys]
    unfolding Let_def qs [symmetric] assms(5) [symmetric] by blast+
  have start: "follows ?f (?n + i) c'" if "i < length ids" for i
    using that len by (cases i) (auto simp: follows_def c'(1) nth_append)
  have "demo_assertion results"
    if d: "client_step\<^sup>*\<^sup>* c' d" "gathered ?n (length ids) d = Some results" for d results
  proof -
    have "\<forall>i < length ids. follows ?f (?n + i) d" using client_steps_follow [OF d(1) start c'(2)] by blast
    from gathered_follow [OF this d(2)] have r: "\<forall>r \<in> set results. fut_state (c_dedup d) ?f = Result r" .
    then show ?thesis by (cases results) (auto simp: demo_assertion_def)
  qed
  then show ?thesis using c'(3,4) len by auto
qed

text \<open>Two calls of the workload, from \<open>gather\<close> to its results.\<close>

definition demo_pair :: "Request list" where
  "demo_pair = demo_second ''http://127.0.0.1:8080'' [(''a'', ''1.5''), (''b'', ''1.5'')]"

lemma demo_started_fresh: "reach client_fresh client_step demo_started"
proof -
  have "client_fresh demo_new" using demo_new_Client by (auto simp: client_fresh_def)
  then show ?thesis using demo_new_steps by (intro reach_steps [OF reach_start])
qed

definition demo_call :: "string \<Rightarrow> Request" where
  "demo_call rid =
     mk_request ''GET'' ''http://127.0.0.1:8080/flaky'' (Some [(''unique'', PyStr ''x'')]) None PyNone 0 rid ''1.5''"

lemma demo_call_payload: "\<not> isl (request_payload (demo_call ''a''))"
  by code_simp

lemma demo_pair_run:
  "\<exists>d results. client_step\<^sup>*\<^sup>* (gather_begin demo_pair demo_started) d \<and> gathered 0 2 d = Some results \<and> length results = 2"
proof -
  obtain q q' where pair: "demo_pair = [q, q']" "idempotency_key q' = idempotency_key q" "req_url q = ''http://127.0.0.1:8080/flaky''"
    and q: "q = demo_call ''a''"
    by (simp add: demo_pair_def demo_second_def demo_call_def mk_request_def idempotency_key_def key_payload_def Let_def)
  have "\<not> isl (request_payload q)" unfolding q by (rule demo_call_payload)
  then obtain payload where payload: "request_payload q = Inr payload" by (cases "request_payload q") auto
  let ?c = "gather_begin [q, q'] demo_started" and ?k = "idempotency_key q" and ?ev = "\<lparr>e_now = 1, e_rand = 0, e_http = HttpResponse 200 [] []\<rparr>"
  have f0: "length (r_futures (c_dedup demo_started)) = 0" by (simp add: demo_started_def demo_new_def new_InFlightRegistry_def)
  obtain d0 where d0: "get_or_create (c_dedup demo_started) ?k = ((0, True), d0)"
    using get_or_create_miss [OF demo_started_facts(5)] f0 by simp
  have b: "request_begin q demo_started = demo_started\<lparr>c_dedup := d0, c_callers := [CUpsert q 0]\<rparr>"
    using demo_started_facts(1,6) by (simp add: request_begin_def d0)
  have p0: "reg_ok d0" "pending_for d0 ?k = Some 0"
    using reg_ok_get_or_create [OF demo_started_facts(3), of ?k] pending_for_attach_miss [OF demo_started_facts(3,5), of ?k] f0 d0 by simp_all
  let ?d1 = "d0\<lparr>dedup_hits := dedup_hits d0 + 1\<rparr>"
  have c: "?c = demo_started\<lparr>c_dedup := ?d1, c_callers := [CUpsert q 0, CAwait 0]\<rparr>"
  proof -
    have "?c = request_begin q' (request_begin q demo_started)" by (simp add: gather_begin_def)
    then show ?thesis unfolding b using demo_started_facts(1) p0(2) pair(2) by (simp add: request_begin_def get_or_create_hit)
  qed
  have p1: "reg_ok ?d1" "pending_for ?d1 ?k = Some 0" using p0 by (simp_all add: reg_ok_def pending_for_def fut_done_def)
  obtain s where s: "upsert_inflight q STATUS_PENDING 0 None 1 (c_storage demo_started) = Inr ((), s)" "st_open s"
    using upsert_open [OF demo_started_facts(2) payload] by blast
  define c2 where "c2 = ?c\<lparr>c_storage := s, c_metrics := (c_metrics ?c)\<lparr>requests_started := requests_started (c_metrics ?c) + 1\<rparr>,
      c_queue := put (c_queue demo_started) \<lparr>qi_request = q, qi_attempt = 0\<rparr>, c_callers := [CAwait 0, CAwait 0]\<rparr>"
  have "caller_run [?ev, ?ev] (CUpsert q 0) ?c = Some (CAwait 0, c2\<lparr>c_callers := c_callers ?c\<rparr>)"
    using s demo_started_facts(4) by (simp add: c c2_def caller_persist_def caller_enqueue_def enqueue_def)
  from caller_run_steps [OF this, of 0 "c_callers ?c"] have s1: "client_step\<^sup>*\<^sup>* ?c c2" by (simp add: c c2_def)
  have host: "host_of ''http://127.0.0.1:8080/flaky'' = Inr ''127.0.0.1:8080''" by code_simp
  have same: "c_breakers c2 = c_breakers demo_started" "c_rate_limiter c2 = c_rate_limiter demo_started"
    "c_workers c2 = c_workers demo_started" "c_queue c2 = put (c_queue demo_started) \<lparr>qi_request = q, qi_attempt = 0\<rparr>"
    by (simp_all add: c2_def c)
  have "admitted 1 (req_url q) c2"
    by (rule fresh_admitted) (use host pair(3) in \<open>simp_all add: same\<close>, simp_all add: demo_started_def demo_new_def)
  moreover obtain resp where "execute_request q 0 (HttpResponse 200 [] []) = Inr resp" by (simp add: execute_request_def)
  moreover have "q_items (c_queue c2) = [\<lparr>qi_request = q, qi_attempt = 0\<rparr>]" "0 < q_unfinished (c_queue c2)" "st_open (c_storage c2)"
    "0 < length (c_workers c2)" "c_workers c2 ! 0 = WIdle"
    using s(2) replicate_idle by (simp_all add: same) (simp_all add: c2_def demo_started_def demo_new_def put_def)
  ultimately obtain c3 where c3: "client_step\<^sup>*\<^sup>* c2 c3" "c_dedup c3 = resolve (c_dedup c2) ?k resp" "c_callers c3 = [CAwait 0, CAwait 0]"
    using serve_steps [of c2 "\<lparr>qi_request = q, qi_attempt = 0\<rparr>" "[]" 1 _ resp 0] by (auto simp: item_key_def c2_def)
  have "c_dedup c2 = ?d1" by (simp add: c2_def c)
  then have w: "caller_segment ?ev (CAwait 0) (c3\<lparr>c_callers := ps\<rparr>) = Some (CReturned resp, c3\<lparr>c_callers := ps\<rparr>)" for ps
    using resolved_wakes [of "c2" ?k 0 "c3\<lparr>c_callers := ps\<rparr>" resp ?ev] p1 c3(2) by simp
  let ?c4 = "c3\<lparr>c_callers := [CReturned resp, CAwait 0]\<rparr>" and ?c5 = "c3\<lparr>c_callers := [CReturned resp, CReturned resp]\<rparr>"
  let ?b = "c3\<lparr>c_callers := [CAwait 0, CAwait 0]\<rparr>"
  have "?b = c3" by (simp flip: c3(3))
  moreover have "client_step ?b ?c4" using client_step.caller_moves [of 0 ?b ?ev] w [of "[CAwait 0, CAwait 0]"] by simp
  ultimately have "client_step c3 ?c4" by simp
  moreover have "client_step ?c4 ?c5" using client_step.caller_moves [of 1 ?c4 ?ev] w [of "[CReturned resp, CAwait 0]"] by simp
  ultimately have "client_step\<^sup>*\<^sup>* ?c ?c5" using s1 c3(1) by (meson rtranclp.rtrancl_into_rtrancl rtranclp_trans)
  moreover have "gathered 0 2 ?c5 = Some [resp, resp]" by (simp add: gathered_def)
  ultimately show ?thesis using pair(1) by (intro exI [of _ ?c5] exI [of _ "[resp, resp]"]) simp
qed

theorem gathered_agree_witness:
  "\<exists>d results. client_step\<^sup>*\<^sup>* (gather_begin demo_pair demo_started) d \<and> gathered 0 2 d = Some results \<and> length results = 2
     \<and> demo_assertion results \<and> unique_requests (c_dedup (gather_begin demo_pair demo_started)) = 1"
proof -
  have len: "0 < length [(''a'', ''1.5''), (''b'', ''1.5'')]" by simp
  have free: "\<forall>q \<in> set (demo_second ''http://127.0.0.1:8080'' [(''a'', ''1.5''), (''b'', ''1.5'')]).
      pending_for (c_dedup demo_started) (idempotency_key q) = None" using demo_started_facts(5) by simp
  have u: "unique_requests (c_dedup demo_started) = 0" "length (c_callers demo_started) = 0"
    by (simp_all add: demo_started_def demo_new_def new_InFlightRegistry_def)
  show ?thesis
    using gathered_agree [OF demo_started_fresh demo_started_facts(1) len free refl, folded demo_pair_def] demo_pair_run u
    by (auto simp: numeral_2_eq_2)
qed

end
