(* ===== verification/System.thy ===== *)
theory System
  imports Client_Share Mock_Server
begin

text \<open>
  The client against the simulator, as the tests and the demo run them. A worker that executes sends
  its request, a handler of the simulator works on it, and the answer comes back as the outcome of the
  exchange, or is lost; everything else the client and the simulator do interleaves freely. What the
  HTTP libraries do is a parameter: \<open>wire\<close> makes a request of the server from the call, \<open>render\<close>
  encodes the content of an answer, \<open>deliver\<close> its headers.
\<close>

section \<open>Composition\<close>

record 'g system =
  sy_client :: Client
  sy_handlers :: "handler list"
  sy_requests :: "Request list"
  sy_server :: "'g ServerState"
  sy_open :: "nat \<Rightarrow> nat option"
  sy_received :: "nat list"

text \<open>
  \<open>sy_requests\<close> remembers what each handler was sent, \<open>sy_open\<close> gives the handler that works on the
  exchange of a worker, \<open>sy_received\<close> collects the handlers whose answer arrived. A step of the client
  is internal when it ends no exchange, unless it drops all workers.
\<close>

definition ends_none :: "Client \<Rightarrow> Client \<Rightarrow> bool" where
  "ends_none c c' \<longleftrightarrow> c_workers c' = []
     \<or> (\<forall>i item host. i < length (c_workers c) \<longrightarrow> c_workers c ! i = WExecute item host \<longrightarrow>
          i < length (c_workers c') \<and> c_workers c' ! i = WExecute item host)"

definition exchange :: "env \<Rightarrow> nat \<Rightarrow> Client \<Rightarrow> Client" where
  "exchange ev i c =
     (case worker_segment ev (c_workers c ! i) c of
        None \<Rightarrow> c
      | Some (w, c') \<Rightarrow> c'\<lparr>c_workers := (c_workers c')[i := w]\<rparr>)"

fun executing :: "worker \<Rightarrow> bool" where
  "executing (WExecute _ _) \<longleftrightarrow> True"
| "executing _ \<longleftrightarrow> False"

fun request_of :: "worker \<Rightarrow> Request option" where
  "request_of (WExecute item _) = Some (qi_request item)"
| "request_of _ = None"

inductive system_step ::
  "'g random_ops \<Rightarrow> (http_call \<Rightarrow> web_request) \<Rightarrow> (pyval \<Rightarrow> string) \<Rightarrow> ((string, string) dict \<Rightarrow> (string, string) dict)
   \<Rightarrow> 'g system \<Rightarrow> 'g system \<Rightarrow> bool" for ops wire render deliver where
  internal: "client_step (sy_client y) c' \<Longrightarrow> ends_none (sy_client y) c' \<Longrightarrow>
     system_step ops wire render deliver y
       (y\<lparr>sy_client := c', sy_open := (if c_workers c' = [] then (\<lambda>_. None) else sy_open y)\<rparr>)"
| send: "i < length (c_workers (sy_client y)) \<Longrightarrow> request_of (c_workers (sy_client y) ! i) = Some req \<Longrightarrow> sy_open y i = None \<Longrightarrow>
     system_step ops wire render deliver y
       (y\<lparr>sy_handlers := sy_handlers y @ [HNew (wire (outgoing req))], sy_requests := sy_requests y @ [req],
          sy_open := (sy_open y)(i := Some (length (sy_handlers y)))\<rparr>)"
| serve: "j < length (sy_handlers y) \<Longrightarrow> flaky ops now (sy_handlers y ! j) (sy_server y) = Some (h, st) \<Longrightarrow>
     system_step ops wire render deliver y (y\<lparr>sy_handlers := (sy_handlers y)[j := h], sy_server := st\<rparr>)"
| receive: "i < length (c_workers (sy_client y)) \<Longrightarrow> executing (c_workers (sy_client y) ! i) \<Longrightarrow> sy_open y i = Some j \<Longrightarrow>
     sy_handlers y ! j = HDone r \<Longrightarrow> e_http ev = HttpResponse (rs_status r) (render (rs_content r)) (deliver (rs_headers r)) \<Longrightarrow>
     system_step ops wire render deliver y
       (y\<lparr>sy_client := exchange ev i (sy_client y), sy_open := (sy_open y)(i := None), sy_received := sy_received y @ [j]\<rparr>)"
| crash: "i < length (c_workers (sy_client y)) \<Longrightarrow> executing (c_workers (sy_client y) ! i) \<Longrightarrow> sy_open y i = Some j \<Longrightarrow>
     sy_handlers y ! j = HCrash e \<Longrightarrow> e_http ev = HttpResponse 500 txt hs \<Longrightarrow>
     system_step ops wire render deliver y
       (y\<lparr>sy_client := exchange ev i (sy_client y), sy_open := (sy_open y)(i := None)\<rparr>)"
| lose: "i < length (c_workers (sy_client y)) \<Longrightarrow> executing (c_workers (sy_client y) ! i) \<Longrightarrow> e_http ev = HttpRaises e \<Longrightarrow>
     system_step ops wire render deliver y
       (y\<lparr>sy_client := exchange ev i (sy_client y), sy_open := (sy_open y)(i := None)\<rparr>)"

definition system_init :: "'g random_ops \<Rightarrow> 'g system \<Rightarrow> bool" where
  "system_init ops y \<longleftrightarrow> client_fresh (sy_client y) \<and> server_init ops (sy_handlers y, sy_server y)
     \<and> sy_requests y = [] \<and> sy_open y = (\<lambda>_. None) \<and> sy_received y = []"

section \<open>Responses inside the client\<close>

fun held_response :: "worker \<Rightarrow> Response set" where
  "held_response (WDelOk _ r) = {r}"
| "held_response (WHook _ r) = {r}"
| "held_response _ = {}"

definition responses :: "Client \<Rightarrow> Response set" where
  "responses c = (\<Union>w \<in> set (c_workers c). held_response w) \<union> {r. Result r \<in> set (r_futures (c_dedup c))}
     \<union> {r. CReturned r \<in> set (c_callers c)}"

text \<open>What a segment that is no exchange leaves: nothing new, and no success counted.\<close>

definition calm :: "worker \<Rightarrow> Client \<Rightarrow> worker \<Rightarrow> Client \<Rightarrow> bool" where
  "calm w c w' c' \<longleftrightarrow> held_response w' \<subseteq> held_response w \<and> c_callers c' = c_callers c
     \<and> set (r_futures (c_dedup c')) \<subseteq> set (r_futures (c_dedup c)) \<union> Result ` held_response w \<union> {Pending} \<union> range Failed
     \<and> requests_succeeded (c_metrics c') = requests_succeeded (c_metrics c)"

lemma item_done_calm: "item_done c = (w, c') \<Longrightarrow> c_dedup c' = c_dedup c \<and> c_callers c' = c_callers c \<and> c_metrics c' = c_metrics c \<and> held_response w = {}"
  by (auto simp: item_done_def split: sum.splits)

lemma worker_dies_calm: "worker_dies e c = (w, c') \<Longrightarrow> c_dedup c' = c_dedup c \<and> c_callers c' = c_callers c \<and> c_metrics c' = c_metrics c \<and> held_response w = {}"
  by (auto simp: worker_dies_def split: sum.splits)

lemma retry_or_dlq_calm:
  assumes "retry_or_dlq ev item e ra c = (w, c')"
  shows "c_dedup c' = c_dedup c \<and> c_callers c' = c_callers c \<and> requests_succeeded (c_metrics c') = requests_succeeded (c_metrics c) \<and> held_response w = {}"
  using assms by (auto simp: retry_or_dlq_def Let_def split: sum.splits if_splits dest!: worker_dies_calm)

lemma handle_gate_calm:
  assumes "handle_gate ev item c = (w, c')"
  shows "c_dedup c' = c_dedup c \<and> c_callers c' = c_callers c \<and> requests_succeeded (c_metrics c') = requests_succeeded (c_metrics c) \<and> held_response w = {}"
  using assms by (auto simp: handle_gate_def Let_def split: sum.splits prod.splits option.splits dest!: worker_dies_calm retry_or_dlq_calm)

lemma settle_futures: "set (r_futures (settle reg key out)) \<subseteq> insert out (set (r_futures reg))"
  using set_update_subset_insert [of "r_futures reg"] by (auto simp: settle_def Let_def split: option.splits)

lemma resolve_futures: "set (r_futures (resolve reg key r)) \<subseteq> insert (Result r) (set (r_futures reg))"
  using settle_futures by (simp add: resolve_def)

lemma fail_futures: "set (r_futures (fail reg key e)) \<subseteq> set (r_futures reg) \<union> range Failed"
  using settle_futures [of reg key "Failed e"] by (auto simp: fail_def)

lemma worker_segment_calm:
  assumes "worker_segment ev w c = Some (w', c')" and "\<not> executing w"
  shows "calm w c w' c'"
proof (cases w)
  case WIdle
  with assms show ?thesis by (auto simp: calm_def split: option.splits dest!: handle_gate_calm)
next
  case (WHook item r)
  with assms show ?thesis
    using resolve_futures [of "c_dedup c" "item_key item" r] by (auto simp: calm_def step_hook_def dest!: item_done_calm)
next
  case (WDelOk item r)
  with assms have k: "held_response w' \<subseteq> {r}" "c_callers c' = c_callers c" "c_metrics c' = c_metrics c"
    "c_dedup c' = c_dedup c \<or> c_dedup c' = resolve (c_dedup c) (item_key item) r"
    by (auto simp: step_del_ok_def step_hook_def split: sum.splits if_splits dest!: item_done_calm worker_dies_calm)
  have "set (r_futures (c_dedup c')) \<subseteq> insert (Result r) (set (r_futures (c_dedup c)))"
    using k(4) resolve_futures [of "c_dedup c" "item_key item" r] by auto
  with k WDelOk show ?thesis by (auto simp: calm_def)
next
  case (WDelFail item e)
  with assms have k: "held_response w' = {}" "c_callers c' = c_callers c" "c_metrics c' = c_metrics c"
    "c_dedup c' = c_dedup c \<or> c_dedup c' = fail (c_dedup c) (item_key item) (terminal_exc e)"
    by (auto simp: step_del_fail_def split: sum.splits dest!: item_done_calm worker_dies_calm)
  have "set (r_futures (c_dedup c')) \<subseteq> set (r_futures (c_dedup c)) \<union> range Failed"
    using k(4) fail_futures [of "c_dedup c" "item_key item" "terminal_exc e"] by auto
  with k WDelFail show ?thesis by (auto simp: calm_def)
next
  case (WAcquire item host i wait)
  with assms show ?thesis by (auto simp: calm_def step_acquire_def Let_def split: prod.splits acquire_result.splits if_splits)
next
  case (WIncr item e d)
  with assms show ?thesis by (auto simp: calm_def step_incr_def split: sum.splits dest!: item_done_calm worker_dies_calm)
next
  case (WPush item e)
  with assms show ?thesis by (auto simp: calm_def step_push_def split: sum.splits dest!: worker_dies_calm)
qed (use assms in auto)

section \<open>Steps of the client\<close>

lemma same_responses:
  assumes "c_workers c' = c_workers c" and "set (r_futures (c_dedup c')) \<subseteq> insert Pending (set (r_futures (c_dedup c)))"
    and "set (c_callers c') \<subseteq> set (c_callers c) \<union> {p. \<forall>r. p \<noteq> CReturned r}"
  shows "responses c' \<subseteq> responses c"
  using assms by (auto simp: responses_def)

lemma start_segment_futures:
  assumes "start_segment c = Some c'" and "reg_ok (c_dedup c)"
  shows "(\<Union>w \<in> set (c_workers c'). held_response w) \<subseteq> (\<Union>w \<in> set (c_workers c). held_response w) \<and> c_callers c' = c_callers c
     \<and> set (r_futures (c_dedup c')) \<subseteq> insert Pending (set (r_futures (c_dedup c)))
     \<and> requests_succeeded (c_metrics c') = requests_succeeded (c_metrics c)"
proof -
  have "c_workers (recover_row row rows c) = c_workers c \<and> c_callers (recover_row row rows c) = c_callers c
     \<and> set (r_futures (c_dedup (recover_row row rows c))) \<subseteq> insert Pending (set (r_futures (c_dedup c)))
     \<and> requests_succeeded (c_metrics (recover_row row rows c)) = requests_succeeded (c_metrics c)" for row rows
    by (auto simp: recover_row_def Let_def split: prod.splits option.splits dest!: get_or_create_target [OF assms(2)])
  with assms(1) show ?thesis
    by (auto simp: start_segment_def start_finish_def split: phase.splits list.splits option.splits)
qed

lemma execute_leaves: "step_execute ev item host c = (w, c') \<Longrightarrow> \<not> executing w"
  by (auto simp: step_execute_def retry_or_dlq_def worker_dies_def Let_def split: sum.splits prod.splits if_splits)

lemma client_internal:
  assumes "client_step c c'" and "ends_none c c'" and reg: "reg_ok (c_dedup c)" and tgt: "targets_ok c"
  shows "responses c' \<subseteq> responses c \<and> requests_succeeded (c_metrics c') = requests_succeeded (c_metrics c)"
proof -
  have plain: ?thesis
    if "c_workers c' = c_workers c" "set (r_futures (c_dedup c')) \<subseteq> insert Pending (set (r_futures (c_dedup c)))"
      "c_callers c' = c_callers c" "requests_succeeded (c_metrics c') = requests_succeeded (c_metrics c)"
    using that same_responses [of c' c] by simp
  from assms(1) show ?thesis
  proof cases
    case (request req)
    show ?thesis
    proof (cases "c_session c")
      case True
      obtain f owner d where g: "get_or_create (c_dedup c) (idempotency_key req) = ((f, owner), d)" by (metis prod.exhaust)
      then have c': "c' = c\<lparr>c_dedup := d, c_callers := c_callers c @ [if owner then CUpsert req f else CAwait f]\<rparr>"
        using True request by (simp add: request_begin_def)
      note t = get_or_create_target [OF reg g]
      have "responses c' \<subseteq> responses c" using t by (intro same_responses) (auto simp: c')
      then show ?thesis by (simp add: c')
    next
      case False
      then have c': "c' = c\<lparr>c_callers := c_callers c @ [CFailed (PyRaised (RuntimeError ''client not started''))]\<rparr>"
        using request by (simp add: request_begin_def)
      have "responses c' \<subseteq> responses c" by (intro same_responses) (auto simp: c')
      then show ?thesis by (simp add: c')
    qed
  next
    case (caller_moves j ev p d)
    note k = caller_segment_calm [OF caller_moves(3)]
    have at: "c_callers c ! j \<in> set (c_callers c)" using caller_moves(2) by simp
    have sub: "set (c_callers c') \<subseteq> insert p (set (c_callers c))"
      using caller_moves(1) k set_update_subset_insert [of "c_callers c" j p] by simp
    have "r \<in> responses c" if "p = CReturned r" for r
    proof -
      have "\<forall>r. p = CReturned r \<longrightarrow> (\<exists>f. target (c_callers c ! j) = Some f \<and> fut_state (c_dedup c) f = Result r)" using k by simp
      with that have "\<exists>f. target (c_callers c ! j) = Some f \<and> fut_state (c_dedup c) f = Result r" by simp
      then obtain f where f: "target (c_callers c ! j) = Some f" "fut_state (c_dedup c) f = Result r" by blast
      then have "Result r \<in> set (r_futures (c_dedup c))" using tgt at nth_mem by (fastforce simp: targets_ok_def fut_state_def)
      then show ?thesis by (simp add: responses_def)
    qed
    then have "responses c' \<subseteq> responses c" using sub caller_moves(1) k by (auto simp: responses_def)
    then show ?thesis using k caller_moves(1) by simp
  next
    case (worker_moves j ev w d)
    have nex: "\<not> executing (c_workers c ! j)"
    proof
      assume "executing (c_workers c ! j)"
      then obtain item host where e: "c_workers c ! j = WExecute item host" by (cases "c_workers c ! j") auto
      then have "\<not> executing w" using worker_moves(3) execute_leaves by fastforce
      moreover have "c_workers c' = (c_workers c)[j := w]"
        using worker_moves(1) worker_segment_workers [OF worker_moves(3)] by simp
      ultimately show False using assms(2) worker_moves(2) e by (auto simp: ends_none_def)
    qed
    have k: "calm (c_workers c ! j) c w d" by (rule worker_segment_calm [OF worker_moves(3) nex])
    have at: "c_workers c ! j \<in> set (c_workers c)" using worker_moves(2) by simp
    have sub: "set (c_workers c') \<subseteq> insert w (set (c_workers c))"
      using worker_moves(1) worker_segment_workers [OF worker_moves(3)] set_update_subset_insert [of "c_workers c" j w] by simp
    have "responses c' \<subseteq> responses c"
      using k at sub worker_moves(1) by (auto simp: responses_def calm_def)
    then show ?thesis using k worker_moves(1) by (simp add: calm_def)
  next
    case start_moves
    then show ?thesis
      using start_segment_futures [OF start_moves reg] by (auto simp: responses_def)
  next
    case stop_moves
    then have "c_callers c' = c_callers c" "set (c_workers c') \<subseteq> set (c_workers c)" "c_dedup c' = c_dedup c" "c_metrics c' = c_metrics c"
      by (auto simp: stop_segment_def stop_finish_def split: phase.splits if_splits)
    then show ?thesis by (auto simp: responses_def)
  next
    case (reschedule k)
    then show ?thesis by (intro plain) (auto simp: reschedule_fires_def Let_def split: if_splits option.splits)
  next
    case (starting fid t)
    then show ?thesis by (intro plain) (auto simp: start_begin_def Let_def split: sum.splits)
  qed (intro plain; auto simp: stop_begin_def client_metrics_def set_response_hook_def Let_def)+
qed

definition exchanged :: "exc + Response \<Rightarrow> Client \<Rightarrow> Client \<Rightarrow> bool" where
  "exchanged out c c' \<longleftrightarrow>
     (case out of
        Inl _ \<Rightarrow> responses c' \<subseteq> responses c \<and> requests_succeeded (c_metrics c') = requests_succeeded (c_metrics c)
      | Inr resp \<Rightarrow> responses c' \<subseteq> insert resp (responses c)
          \<and> requests_succeeded (c_metrics c') = requests_succeeded (c_metrics c) + 1)"

lemma exchange_effect:
  assumes "i < length (c_workers c)" and "executing (c_workers c ! i)"
  shows "\<exists>item host w. c_workers c ! i = WExecute item host \<and> c_workers (exchange ev i c) = (c_workers c)[i := w] \<and> c_dedup (exchange ev i c) = c_dedup c \<and> c_callers (exchange ev i c) = c_callers c
     \<and> exchanged (execute_request (qi_request item) (qi_attempt item) (e_http ev)) c (exchange ev i c)"
proof -
  obtain item host where w: "c_workers c ! i = WExecute item host" using assms(2) by (cases "c_workers c ! i") auto
  obtain w' c' where e: "step_execute ev item host c = (w', c')" by fastforce
  have seg: "worker_segment ev (WExecute item host) c = Some (w', c')" using e by simp
  have x: "exchange ev i c = c'\<lparr>c_workers := (c_workers c)[i := w']\<rparr>"
    using w seg worker_segment_workers [OF seg] by (simp add: exchange_def)
  have sub: "set ((c_workers c)[i := w']) \<subseteq> insert w' (set (c_workers c))" by (rule set_update_subset_insert)
  show ?thesis
  proof (cases "execute_request (qi_request item) (qi_attempt item) (e_http ev)")
    case (Inl e0)
    obtain tell ex where t: "classify e0 = (tell, ex)" by fastforce
    have "c_dedup c' = c_dedup c \<and> c_callers c' = c_callers c \<and> requests_succeeded (c_metrics c') = requests_succeeded (c_metrics c) \<and> held_response w' = {}"
      using e Inl t by (auto simp: step_execute_def Let_def dest!: retry_or_dlq_calm)
    then show ?thesis using w Inl sub by (intro exI [of _ item] exI [of _ host] exI [of _ w']) (auto simp: x responses_def exchanged_def)
  next
    case (Inr resp)
    then have "c_dedup c' = c_dedup c" "c_callers c' = c_callers c" "w' = WDelOk item resp"
      "requests_succeeded (c_metrics c') = requests_succeeded (c_metrics c) + 1"
      using e by (auto simp: step_execute_def Let_def)
    then show ?thesis using w Inr sub by (intro exI [of _ item] exI [of _ host] exI [of _ w']) (auto simp: x responses_def exchanged_def)
  qed
qed

section \<open>The invariant of the system\<close>

definition is_ok :: "handler \<Rightarrow> bool" where
  "is_ok h \<longleftrightarrow> answered 200 h = 1"

text \<open>What the simulator says to a request it accepts, and what a handler of \<open>w\<close> may become.\<close>

definition accepted :: "web_request \<Rightarrow> pyval \<Rightarrow> bool" where
  "accepted w content \<longleftrightarrow> (\<exists>body n. content =
     PyDict [(''ok'', PyBool True), (''method'', PyStr (wr_method w)), (''path'', PyStr (wr_path w)),
             (''query'', query_value w), (''body'', body), (''n'', PyInt n)])"

fun serves :: "web_request \<Rightarrow> handler \<Rightarrow> bool" where
  "serves w (HNew v) \<longleftrightarrow> v = w"
| "serves w (HSleep v _ _) \<longleftrightarrow> v = w"
| "serves w (HBody v) \<longleftrightarrow> v = w"
| "serves w (HDone r) \<longleftrightarrow> (rs_status r = 200 \<longrightarrow> accepted w (rs_content r))"
| "serves w (HCrash _) \<longleftrightarrow> True"

lemma finish_serves: "serves w (fst (finish w b st))"
  by (auto simp: finish_def accepted_def)

lemma accept_serves: "serves w (fst (accept w st))"
  by (simp add: accept_def finish_serves)

lemma decide_serves:
  assumes "random_ok ops"
  shows "serves w (fst (decide ops w r1 r2 st))"
proof -
  obtain i g where c: "r_choice ops 3 (sv_rng st) = (i, g)" by fastforce
  have "fst (r_choice ops 3 (sv_rng st)) < 3" using assms by (simp add: random_ok_def)
  then have "i < length [500, 502, 503::int]" by (simp add: c)
  then have "[500, 502, 503::int] ! i \<in> set [500, 502, 503]" by (rule nth_mem)
  then have "[500, 502, 503::int] ! i \<noteq> 200" by auto
  then show ?thesis by (auto simp: decide_def c Let_def accept_serves)
qed

lemma flaky_serves:
  assumes "random_ok ops" and "flaky ops now h st = Some (h', st')" and "serves w h"
  shows "serves w h'"
proof -
  have "serves w (fst (draw ops w st1))" for st1
    by (simp add: draw_def Let_def accept_serves decide_serves [OF assms(1)] split: prod.split)
  then have seg: "draw ops w st1 = (h', st') \<Longrightarrow> serves w h'" "decide ops w r1 r2 st1 = (h', st') \<Longrightarrow> serves w h'"
    "finish w b st1 = (h', st') \<Longrightarrow> serves w h'" for st1 r1 r2 b
    using decide_serves [OF assms(1), of w r1 r2 st1] finish_serves [of w b st1] by (metis fst_conv)+
  then show ?thesis
    using assms(2,3) by (cases h) (auto simp: rate_limited_def split: prod.splits gate.splits)
qed

text \<open>A response of the client that is an answer of the simulator to the request it names.\<close>

definition sent_by :: "(pyval \<Rightarrow> string) \<Rightarrow> handler list \<Rightarrow> Request list \<Rightarrow> Response \<Rightarrow> bool" where
  "sent_by render hs reqs resp \<longleftrightarrow>
     (\<exists>j r. j < length hs \<and> hs ! j = HDone r \<and> rs_status r = 200 \<and> status_code resp = 200
        \<and> resp_data resp = read_response (render (rs_content r)) \<and> resp_request_id resp = req_request_id (reqs ! j))"

definition wired :: "'g system \<Rightarrow> bool" where
  "wired y \<longleftrightarrow> length (sy_requests y) = length (sy_handlers y)
     \<and> distinct (sy_received y) \<and> (\<forall>j \<in> set (sy_received y). j < length (sy_handlers y) \<and> (\<exists>r. sy_handlers y ! j = HDone r))
     \<and> (\<forall>i j. sy_open y i = Some j \<longrightarrow> j < length (sy_handlers y) \<and> j \<notin> set (sy_received y)
          \<and> i < length (c_workers (sy_client y)) \<and> request_of (c_workers (sy_client y) ! i) = Some (sy_requests y ! j))
     \<and> (\<forall>i i' j. sy_open y i = Some j \<longrightarrow> sy_open y i' = Some j \<longrightarrow> i = i')"

definition agree :: "(http_call \<Rightarrow> web_request) \<Rightarrow> (pyval \<Rightarrow> string) \<Rightarrow> 'g system \<Rightarrow> bool" where
  "agree wire render y \<longleftrightarrow>
     requests_succeeded (c_metrics (sy_client y)) = int (length (filter (\<lambda>j. is_ok (sy_handlers y ! j)) (sy_received y)))
     \<and> (\<forall>resp \<in> responses (sy_client y). sent_by render (sy_handlers y) (sy_requests y) resp)
     \<and> (\<forall>j < length (sy_handlers y). serves (wire (outgoing (sy_requests y ! j))) (sy_handlers y ! j))"

definition system_ok :: "'g random_ops \<Rightarrow> (http_call \<Rightarrow> web_request) \<Rightarrow> (pyval \<Rightarrow> string) \<Rightarrow> 'g system \<Rightarrow> bool" where
  "system_ok ops wire render y \<longleftrightarrow>
     reg_ok (c_dedup (sy_client y)) \<and> targets_ok (sy_client y) \<and> server_inv ops (sy_handlers y, sy_server y)
     \<and> wired y \<and> (random_ok ops \<longrightarrow> agree wire render y)"

lemma system_okD:
  assumes "system_ok ops wire render y"
  shows "reg_ok (c_dedup (sy_client y))" "targets_ok (sy_client y)" "server_inv ops (sy_handlers y, sy_server y)"
    "wired y" "random_ok ops \<Longrightarrow> agree wire render y"
  using assms by (simp_all add: system_ok_def)

lemma count_received:
  assumes "distinct js" and "\<forall>j \<in> set js. j < length hs"
  shows "int (length (filter (\<lambda>j. is_ok (hs ! j)) js)) \<le> sum_list (map (answered 200) hs)"
proof -
  have "sum_list (map (answered 200) hs) = int (length (filter is_ok hs))"
  proof (induction hs)
    case (Cons h hs)
    then show ?case by (cases h) (auto simp: is_ok_def)
  qed simp
  moreover have "length (filter (\<lambda>j. is_ok (hs ! j)) js) = card {j \<in> set js. is_ok (hs ! j)}"
    using distinct_card [of "filter (\<lambda>j. is_ok (hs ! j)) js"] assms(1) by simp
  moreover have "card {j \<in> set js. is_ok (hs ! j)} \<le> card {j. j < length hs \<and> is_ok (hs ! j)}"
    using assms(2) by (intro card_mono) auto
  ultimately show ?thesis by (simp add: length_filter_conv_card)
qed

lemma sent_by_later:
  assumes "sent_by render hs reqs resp" and "\<And>j r. j < length hs \<Longrightarrow> hs ! j = HDone r \<Longrightarrow>
      j < length hs' \<and> hs' ! j = HDone r \<and> reqs' ! j = reqs ! j"
  shows "sent_by render hs' reqs' resp"
  using assms unfolding sent_by_def by metis

lemma failed_exchange: "e_http ev = HttpRaises e \<Longrightarrow> isl (execute_request req n (e_http ev))"
  "e_http ev = HttpResponse 500 txt hs \<Longrightarrow> isl (execute_request req n (e_http ev))"
  by (simp_all add: execute_request_def is_retryable_status_def Let_def)

text \<open>The client moves, and some exchanges may be over.\<close>

lemma drop_open:
  assumes ok: "system_ok ops wire render y" and "responses c' \<subseteq> responses (sy_client y)" and "targets_ok c'" and "reg_ok (c_dedup c')"
    and "requests_succeeded (c_metrics c') = requests_succeeded (c_metrics (sy_client y))"
    and op: "\<And>i j. op i = Some j \<Longrightarrow> sy_open y i = Some j \<and> i < length (c_workers c')
        \<and> request_of (c_workers c' ! i) = request_of (c_workers (sy_client y) ! i)"
  shows "system_ok ops wire render (y\<lparr>sy_client := c', sy_open := op\<rparr>)"
proof -
  note w = system_okD(4) [OF ok, unfolded wired_def]
  have "\<forall>i j. op i = Some j \<longrightarrow> j < length (sy_handlers y) \<and> j \<notin> set (sy_received y)
      \<and> i < length (c_workers c') \<and> request_of (c_workers c' ! i) = Some (sy_requests y ! j)"
    using w op by metis
  moreover have "\<forall>i i' j. op i = Some j \<longrightarrow> op i' = Some j \<longrightarrow> i = i'" using w op by metis
  ultimately have "wired (y\<lparr>sy_client := c', sy_open := op\<rparr>)" using w by (simp add: wired_def)
  moreover have "random_ok ops \<Longrightarrow> agree wire render (y\<lparr>sy_client := c', sy_open := op\<rparr>)"
    using system_okD(5) [OF ok] assms(2,5) by (auto simp: agree_def)
  ultimately show ?thesis using ok assms(3,4) by (simp add: system_ok_def)
qed

text \<open>A handler that moves was not done, so the answers that arrived stay as they are.\<close>

lemma serve_ok:
  assumes ok: "system_ok ops wire render y" and j: "j < length (sy_handlers y)"
    and f: "flaky ops now (sy_handlers y ! j) (sy_server y) = Some (h, st)"
  shows "system_ok ops wire render (y\<lparr>sy_handlers := (sy_handlers y)[j := h], sy_server := st\<rparr>)" (is "system_ok _ _ _ ?y")
proof -
  note w = system_okD(4) [OF ok, unfolded wired_def]
  have nd: "sy_handlers y ! j \<noteq> HDone r" for r using f by auto
  have rec: "k \<noteq> j" if "k \<in> set (sy_received y)" for k using that w nd by blast
  have "server_step ops (sy_handlers y, sy_server y) ((sy_handlers y)[j := h], st)" using server_step.moves [OF j f] .
  then have "server_inv ops ((sy_handlers y)[j := h], st)" using server_step_inv system_okD(3) [OF ok] by blast
  moreover have same: "(sy_handlers y)[j := h] ! k = sy_handlers y ! k" if "k \<in> set (sy_received y)" for k
    using rec [OF that] by simp
  then have "wired ?y" using w by (simp add: wired_def)
  moreover have "agree wire render ?y" if rnd: "random_ok ops"
  proof -
    note a = system_okD(5) [OF ok rnd, unfolded agree_def]
    have "filter (\<lambda>k. is_ok ((sy_handlers y)[j := h] ! k)) (sy_received y) = filter (\<lambda>k. is_ok (sy_handlers y ! k)) (sy_received y)"
      using same by (intro filter_cong) auto
    moreover have "sent_by render ((sy_handlers y)[j := h]) (sy_requests y) resp" if "resp \<in> responses (sy_client y)" for resp
    proof (rule sent_by_later [of _ "sy_handlers y" "sy_requests y"])
      show "sent_by render (sy_handlers y) (sy_requests y) resp" using a that by blast
      show "k < length ((sy_handlers y)[j := h]) \<and> (sy_handlers y)[j := h] ! k = HDone r \<and> sy_requests y ! k = sy_requests y ! k"
        if "k < length (sy_handlers y)" "sy_handlers y ! k = HDone r" for k r using that nd by (cases "k = j") auto
    qed
    moreover have "serves (wire (outgoing (sy_requests y ! k))) ((sy_handlers y)[j := h] ! k)" if "k < length (sy_handlers y)" for k
      using a that flaky_serves [OF rnd f] by (cases "k = j") auto
    ultimately show ?thesis using a by (simp add: agree_def)
  qed
  ultimately show ?thesis using ok by (simp add: system_ok_def)
qed

lemma send_ok:
  assumes ok: "system_ok ops wire render y" and i: "i < length (c_workers (sy_client y))" "request_of (c_workers (sy_client y) ! i) = Some req"
  shows "system_ok ops wire render (y\<lparr>sy_handlers := sy_handlers y @ [HNew (wire (outgoing req))], sy_requests := sy_requests y @ [req],
      sy_open := (sy_open y)(i := Some (length (sy_handlers y)))\<rparr>)" (is "system_ok _ _ _ ?y")
proof -
  note w = system_okD(4) [OF ok, unfolded wired_def]
  have "server_step ops (sy_handlers y, sy_server y) (sy_handlers y @ [HNew (wire (outgoing req))], sy_server y)" by (rule server_step.arrives)
  then have "server_inv ops (sy_handlers y @ [HNew (wire (outgoing req))], sy_server y)"
    using server_step_inv system_okD(3) [OF ok] by blast
  moreover have "wired ?y"
  proof -
    have "length (sy_handlers y) \<notin> set (sy_received y)" "\<And>k. sy_open y k \<noteq> Some (length (sy_handlers y))"
      using w by force+
    then show ?thesis using w i by (auto simp: wired_def nth_append less_Suc_eq)
  qed
  moreover have "agree wire render ?y" if rnd: "random_ok ops"
  proof -
    note a = system_okD(5) [OF ok rnd, unfolded agree_def]
    have "filter (\<lambda>k. is_ok ((sy_handlers y @ [h]) ! k)) (sy_received y) = filter (\<lambda>k. is_ok (sy_handlers y ! k)) (sy_received y)" for h
      using w by (intro filter_cong) (auto simp: nth_append)
    moreover have "sent_by render (sy_handlers y @ [h]) (sy_requests y @ [req]) resp" if "resp \<in> responses (sy_client y)" for resp h
      by (rule sent_by_later [of _ "sy_handlers y" "sy_requests y"]) (use a that w in \<open>auto simp: nth_append\<close>)
    ultimately show ?thesis using a w by (simp add: agree_def nth_append less_Suc_eq)
  qed
  ultimately show ?thesis using ok by (simp add: system_ok_def)
qed

lemma exchange_keeps:
  assumes "system_ok ops wire render y" and i: "i < length (c_workers (sy_client y))" "executing (c_workers (sy_client y) ! i)"
  shows "reg_ok (c_dedup (exchange ev i (sy_client y))) \<and> targets_ok (exchange ev i (sy_client y))
     \<and> length (c_workers (exchange ev i (sy_client y))) = length (c_workers (sy_client y))
     \<and> (\<forall>k. k \<noteq> i \<longrightarrow> c_workers (exchange ev i (sy_client y)) ! k = c_workers (sy_client y) ! k)"
  using system_okD(1,2) [OF assms(1)] exchange_effect [OF i, of ev] by (auto simp: targets_ok_def)

lemma fail_ok:
  assumes ok: "system_ok ops wire render y" and i: "i < length (c_workers (sy_client y))" "executing (c_workers (sy_client y) ! i)"
    and isl: "\<And>req n. isl (execute_request req n (e_http ev))"
  shows "system_ok ops wire render (y\<lparr>sy_client := exchange ev i (sy_client y), sy_open := (sy_open y)(i := None)\<rparr>)"
proof -
  obtain item :: QueueItem where k: "exchanged (execute_request (qi_request item) (qi_attempt item) (e_http ev)) (sy_client y) (exchange ev i (sy_client y))"
    using exchange_effect [OF i, of ev] by blast
  note keeps = exchange_keeps [OF ok i, of ev]
  have "\<And>k j. ((sy_open y)(i := None)) k = Some j \<Longrightarrow> sy_open y k = Some j \<and> k < length (c_workers (exchange ev i (sy_client y)))
      \<and> request_of (c_workers (exchange ev i (sy_client y)) ! k) = request_of (c_workers (sy_client y) ! k)"
    using system_okD(4) [OF ok] keeps by (auto simp: wired_def split: if_splits)
  moreover have "responses (exchange ev i (sy_client y)) \<subseteq> responses (sy_client y)
      \<and> requests_succeeded (c_metrics (exchange ev i (sy_client y))) = requests_succeeded (c_metrics (sy_client y))"
    using k isl [of "qi_request item" "qi_attempt item"] by (auto simp: isl_def exchanged_def)
  ultimately show ?thesis using keeps by (intro drop_open [OF ok]) blast+
qed

lemma receive_ok:
  assumes ok: "system_ok ops wire render y" and i: "i < length (c_workers (sy_client y))" "executing (c_workers (sy_client y) ! i)"
    and j: "sy_open y i = Some j" "sy_handlers y ! j = HDone r"
    and ev: "e_http ev = HttpResponse (rs_status r) (render (rs_content r)) hs"
  shows "system_ok ops wire render
    (y\<lparr>sy_client := exchange ev i (sy_client y), sy_open := (sy_open y)(i := None), sy_received := sy_received y @ [j]\<rparr>)"
    (is "system_ok _ _ _ ?y")
proof -
  let ?c = "exchange ev i (sy_client y)"
  note w = system_okD(4) [OF ok, unfolded wired_def] and keeps = exchange_keeps [OF ok i, of ev]
  have jl: "j < length (sy_handlers y)" "j \<notin> set (sy_received y)" "\<And>k. sy_open y k = Some j \<Longrightarrow> k = i" using w j(1) by blast+
  have "wired ?y" using w jl j keeps by (auto simp: wired_def split: if_splits)
  moreover have "agree wire render ?y" if rnd: "random_ok ops"
  proof -
    note a = system_okD(5) [OF ok rnd, unfolded agree_def]
    have "status_ok (sy_handlers y ! j)" using system_okD(3) [OF ok] rnd jl(1) by (auto simp: server_inv_def)
    then have st: "rs_status r \<in> set statuses" using j(2) by simp
    obtain item :: QueueItem and host where wk: "c_workers (sy_client y) ! i = WExecute item host"
      and k: "exchanged (execute_request (qi_request item) (qi_attempt item) (e_http ev)) (sy_client y) ?c"
      using exchange_effect [OF i, of ev] by blast
    have req: "qi_request item = sy_requests y ! j" using w j(1) wk by fastforce
    show ?thesis
    proof (cases "rs_status r = 200")
      case True
      then obtain resp where x: "execute_request (qi_request item) (qi_attempt item) (e_http ev) = Inr resp"
        "status_code resp = 200" "resp_data resp = read_response (render (rs_content r))" "resp_request_id resp = req_request_id (qi_request item)"
        using ev by (simp add: execute_request_def Let_def)
      then have "sent_by render (sy_handlers y) (sy_requests y) resp" using True jl(1) j(2) req by (auto simp: sent_by_def)
      then show ?thesis using k x(1) a True j(2) by (auto simp: is_ok_def agree_def exchanged_def)
    next
      case False
      then have "isl (execute_request (qi_request item) (qi_attempt item) (e_http ev))"
        using ev st by (auto simp: execute_request_def Let_def statuses_def)
      then show ?thesis using k a False j(2) by (auto simp: is_ok_def isl_def agree_def exchanged_def subset_eq)
    qed
  qed
  ultimately show ?thesis using ok keeps by (simp add: system_ok_def)
qed

lemma internal_open:
  assumes "ends_none c c'" and "i < length (c_workers c)" and "request_of (c_workers c ! i) = Some req" and "c_workers c' \<noteq> []"
  shows "i < length (c_workers c') \<and> request_of (c_workers c' ! i) = request_of (c_workers c ! i)"
  using assms by (cases "c_workers c ! i") (auto simp: ends_none_def)

lemma system_step_ok:
  assumes "system_step ops wire render deliver y y'" and ok: "system_ok ops wire render y"
  shows "system_ok ops wire render y'"
  using assms(1)
proof cases
  case (internal c')
  note reg = system_okD(1,2) [OF ok] and w = system_okD(4) [OF ok, unfolded wired_def]
  have "reg_ok (c_dedup c') \<and> targets_ok c'" using cls.inv_step [OF _ internal(2)] reg by simp
  then show ?thesis
    unfolding internal(1) using client_internal [OF internal(2,3) reg] w internal_open [OF internal(3)]
    by (intro drop_open [OF ok]) (auto split: if_splits)
next
  case (crash i j e ev body hs)
  show ?thesis unfolding crash(1) by (rule fail_ok [OF ok crash(2,3)]) (rule failed_exchange(2) [OF crash(6)])
next
  case (lose i ev e)
  show ?thesis unfolding lose(1) by (rule fail_ok [OF ok lose(2,3)]) (rule failed_exchange(1) [OF lose(4)])
qed (use serve_ok [OF ok] send_ok [OF ok] receive_ok [OF ok] in blast)+

lemma new_Client_empty:
  assumes "new_Client cfg db = Inr c"
  shows "c_workers c = [] \<and> r_futures (c_dedup c) = [] \<and> c_callers c = [] \<and> requests_succeeded (c_metrics c) = 0"
  using assms by (auto simp: new_Client_def new_InFlightRegistry_def new_Metrics_def split: sum.splits)

lemma system_init_ok:
  assumes "system_init ops y"
  shows "system_ok ops wire render y"
proof -
  have f: "client_fresh (sy_client y)" "server_init ops (sy_handlers y, sy_server y)" "sy_open y = (\<lambda>_. None)" "sy_received y = []"
    "sy_requests y = []"
    using assms by (auto simp: system_init_def)
  then obtain cfg db where "new_Client cfg db = Inr (sy_client y)" by (auto simp: client_fresh_def)
  then have "c_workers (sy_client y) = [] \<and> r_futures (c_dedup (sy_client y)) = [] \<and> c_callers (sy_client y) = []
      \<and> requests_succeeded (c_metrics (sy_client y)) = 0"
    by (intro new_Client_empty)
  then have "responses (sy_client y) = {}" "requests_succeeded (c_metrics (sy_client y)) = 0"
    by (simp_all add: responses_def)
  moreover have "sy_handlers y = []" using f(2) by (simp add: server_init_def)
  ultimately show ?thesis
    using cls.inv_init [OF f(1)] server_init_inv [OF f(2)] f by (simp add: system_ok_def wired_def agree_def)
qed

interpretation sys: invariant_system "system_init ops" "system_step ops wire render deliver" "system_ok ops wire render"
  for ops wire render deliver
  by unfold_locales (auto intro: system_step_ok system_init_ok)

section \<open>One exchange from end to end\<close>

text \<open>Steps of a client none of whose workers executes.\<close>

definition resting :: "Client \<Rightarrow> bool" where
  "resting c \<longleftrightarrow> (\<forall>w \<in> set (c_workers c). \<not> executing w)"

definition rest_step :: "Client \<Rightarrow> Client \<Rightarrow> bool" where
  "rest_step c c' \<longleftrightarrow> client_step c c' \<and> resting c"

lemma rest_steps_internal:
  assumes "rest_step\<^sup>*\<^sup>* (sy_client y) c'" and "sy_open y = (\<lambda>_. None)"
  shows "(system_step ops wire render deliver)\<^sup>*\<^sup>* y (y\<lparr>sy_client := c'\<rparr>)"
  using assms(1)
proof (induction rule: rtranclp_induct)
  case (step c c')
  have "c_workers c ! i \<noteq> WExecute item host" if "i < length (c_workers c)" for i item host
    using step(2) nth_mem [OF that] by (auto simp: rest_step_def resting_def)
  then have "ends_none c c'" by (simp add: ends_none_def)
  with step(2) internal [of "y\<lparr>sy_client := c\<rparr>" c' ops wire render deliver]
  have "system_step ops wire render deliver (y\<lparr>sy_client := c\<rparr>)
      (y\<lparr>sy_client := c', sy_open := if c_workers c' = [] then (\<lambda>_. None) else sy_open (y\<lparr>sy_client := c\<rparr>)\<rparr>)"
    by (simp add: rest_step_def)
  moreover have "y\<lparr>sy_client := c', sy_open := if b then (\<lambda>_. None) else sy_open (y\<lparr>sy_client := c\<rparr>)\<rparr> = y\<lparr>sy_client := c'\<rparr>" for b
    using assms(2) by (cases y) simp
  ultimately have "system_step ops wire render deliver (y\<lparr>sy_client := c\<rparr>) (y\<lparr>sy_client := c'\<rparr>)" by metis
  with step.IH show ?case by (rule rtranclp.rtrancl_into_rtrancl)
qed simp

lemma resting_update: "resting c \<Longrightarrow> \<not> executing w \<Longrightarrow> c_workers d = (c_workers c)[i := w] \<Longrightarrow> resting d"
  by (auto simp: resting_def dest!: set_update_subset_insert [THEN subsetD])

lemma rest_worker:
  assumes "worker_segment ev w c = Some (w', c')" and "i < length (c_workers c)" and "c_workers c ! i = w" and "resting c"
  shows "rest_step c (c'\<lparr>c_workers := (c_workers c)[i := w']\<rparr>)"
  using client_step.worker_moves [OF assms(2), of ev w' c'] worker_segment_workers [OF assms(1)] assms(1,3,4) by (simp add: rest_step_def)

text \<open>An idle worker takes an item and gets through the gates.\<close>

lemma rest_dequeue:
  fixes ev :: env
  assumes "q_items (c_queue c) = item # items" and "admitted (e_now ev) (req_url (qi_request item)) c"
    and i: "i < length (c_workers c)" "c_workers c ! i = WIdle" and rest: "resting c"
  shows "\<exists>host d. rest_step\<^sup>*\<^sup>* c d \<and> c_workers d = (c_workers c)[i := WExecute item host] \<and> c_dedup d = c_dedup c
     \<and> c_callers d = c_callers c \<and> c_storage d = c_storage c \<and> q_unfinished (c_queue d) = q_unfinished (c_queue c)
     \<and> c_hook d = c_hook c \<and> c_metrics d = c_metrics c"
proof -
  obtain host l brs b where d: "worker_segment ev WIdle c = Some (WAcquire item host b 0,
      c\<lparr>c_queue := (c_queue c)\<lparr>q_items := items\<rparr>, c_breakers := brs, c_rate_limiter := l\<rparr>)"
    "fst (bucket_step b (e_now ev) l) = Acquired"
    using dequeue_admitted [OF assms(1,2)] by blast
  let ?d = "c\<lparr>c_queue := (c_queue c)\<lparr>q_items := items\<rparr>, c_breakers := brs, c_rate_limiter := l,
    c_workers := (c_workers c)[i := WAcquire item host b 0]\<rparr>"
  have 1: "rest_step c ?d" using rest_worker [OF d(1) i rest] by simp
  obtain l' where e: "worker_segment ev (WAcquire item host b 0) ?d = Some (WExecute item host, ?d\<lparr>c_rate_limiter := l'\<rparr>)"
    using acquired_executes [of b ev ?d item host] d(2) by auto
  have "resting ?d" by (rule resting_update [OF rest, of "WAcquire item host b 0" _ i]) simp_all
  from rest_worker [OF e _ _ this, of i] i
  have "rest_step ?d (?d\<lparr>c_rate_limiter := l', c_workers := (c_workers c)[i := WExecute item host]\<rparr>)" by simp
  with 1 have "rest_step\<^sup>*\<^sup>* c (?d\<lparr>c_rate_limiter := l', c_workers := (c_workers c)[i := WExecute item host]\<rparr>)"
    by (meson r_into_rtranclp rtranclp.rtrancl_into_rtrancl)
  then show ?thesis by (intro exI [of _ host] exI conjI, assumption) simp_all
qed

lemma rest_caller:
  assumes "caller_segment ev (c_callers c ! i) c = Some (p, c')" and "i < length (c_callers c)" and "resting c"
  shows "rest_step c (c'\<lparr>c_callers := (c_callers c)[i := p]\<rparr>)"
  using client_step.caller_moves [OF assms(2,1)] caller_segment_dedup [OF assms(1)] assms(3) by (simp add: rest_step_def)

lemma rest_idle:
  assumes "idle_step\<^sup>*\<^sup>* c c'" and "resting c"
  shows "rest_step\<^sup>*\<^sup>* c c'"
proof -
  from assms(1) have "rest_step\<^sup>*\<^sup>* c c' \<and> resting c'"
    by (induction rule: rtranclp_induct)
      (use assms(2) in \<open>auto simp: idle_step_def rest_step_def resting_def intro: rtranclp.rtrancl_into_rtrancl\<close>)
  then show ?thesis ..
qed

definition demo_wire :: "http_call \<Rightarrow> web_request" where
  "demo_wire call = \<lparr>wr_method = hc_method call, wr_path = ''/flaky'', wr_query = [], wr_body = ''{}''\<rparr>"

abbreviation demo_step :: "nat system \<Rightarrow> nat system \<Rightarrow> bool" where
  "demo_step \<equiv> system_step half_source demo_wire (\<lambda>_. []) (\<lambda>hs. hs)"

abbreviation demo_system_init :: "nat system \<Rightarrow> bool" where
  "demo_system_init \<equiv> \<lambda>y. system_init half_source y \<and> client_init (sy_client y)"

text \<open>A client with a request on its way: a worker executes it, a caller waits.\<close>

lemma demo_executing:
  "\<exists>c f host. rest_step\<^sup>*\<^sup>* demo_new c \<and> c_callers c = [CAwait f] \<and> pending_for (c_dedup c) (item_key demo_item) = Some f
     \<and> reg_ok (c_dedup c) \<and> c_workers c = (replicate 16 WIdle)[0 := WExecute demo_item host] \<and> st_open (c_storage c)
     \<and> 0 < q_unfinished (c_queue c) \<and> \<not> c_hook c"
proof -
  obtain c0 where "client_step demo_new c0" "client_step c0 demo_started" "c_workers c0 = []"
    using demo_up_path [of empty_db] by (auto simp: demo_on_def demo_up_def demo_started_def demo_new_def empty_db_def)
  then have "rest_step demo_new c0" "rest_step c0 demo_started" by (simp_all add: rest_step_def resting_def demo_new_def)
  then have up: "rest_step\<^sup>*\<^sup>* demo_new demo_started" by (meson r_into_rtranclp rtranclp.rtrancl_into_rtrancl)
  obtain p where p: "request_payload sample_request = Inr p" using sample_payload by blast
  let ?b = "request_begin sample_request demo_started"
  obtain f c where c: "c_callers ?b = [CUpsert sample_request f]"
      "caller_run [env404, env404] (CUpsert sample_request f) ?b = Some (CAwait f, c)"
      "pending_for (c_dedup c) (idempotency_key sample_request) = Some f" "reg_ok (c_dedup c)"
      "c_queue c = put (c_queue demo_started) demo_item" "st_open (c_storage c)"
      "c_breakers c = c_breakers demo_started" "c_rate_limiter c = c_rate_limiter demo_started"
      "c_workers c = replicate 16 WIdle" "c_hook c = c_hook demo_started"
    using owner_submits [OF demo_started_facts(1-5) p, of env404 env404] by (auto simp: demo_started_facts)
  let ?c = "c\<lparr>c_callers := [CAwait f]\<rparr>"
  have rest: "resting demo_started" "resting ?b" "resting ?c"
    using c(9) by (auto simp: resting_def request_begin_def demo_started_facts split: prod.splits)
  have "rest_step demo_started ?b" using client_step.request [OF sample_request_ok] rest(1) by (simp add: rest_step_def)
  moreover have "rest_step\<^sup>*\<^sup>* ?b ?c"
  proof (rule rest_idle [OF _ rest(2)])
    have same: "?b\<lparr>c_callers := [CUpsert sample_request f]\<rparr> = ?b" by (simp flip: c(1))
    have "idle_step\<^sup>*\<^sup>* (?b\<lparr>c_callers := [CUpsert sample_request f]\<rparr>) ?c" using caller_run_idle [OF c(2), of 0 "c_callers ?b"] by (simp add: c(1))
    then show "idle_step\<^sup>*\<^sup>* ?b ?c" unfolding same .
  qed
  ultimately have 1: "rest_step\<^sup>*\<^sup>* demo_new ?c" using up by (meson rtranclp.rtrancl_into_rtrancl rtranclp_trans)
  have adm: "admitted (e_now env404) (req_url (qi_request demo_item)) ?c"
    using c(7,8) sample_host by (intro fresh_admitted) (simp_all add: demo_started_def demo_new_def)
  have q: "q_items (c_queue ?c) = [demo_item]" using c(5) by (simp add: put_def demo_started_facts)
  have "c_workers ?c ! 0 = WIdle" "0 < length (c_workers ?c)" using c(9) replicate_idle by simp_all
  then obtain host d where d: "rest_step\<^sup>*\<^sup>* ?c d" "c_workers d = (c_workers ?c)[0 := WExecute demo_item host]" "c_dedup d = c_dedup ?c"
     "c_callers d = c_callers ?c" "c_storage d = c_storage ?c" "q_unfinished (c_queue d) = q_unfinished (c_queue ?c)"
     "c_hook d = c_hook ?c"
    using rest_dequeue [OF q adm _ _ rest(3), of 0] by blast
  have "0 < q_unfinished (c_queue c)" "\<not> c_hook c" using c(5,10) by (simp_all add: put_def demo_started_def demo_new_def)
  then show ?thesis
    using rtranclp_trans [OF 1 d(1)] d(2-7) c(3,4,6,9) by (intro exI [of _ d] exI [of _ f] exI [of _ host]) (simp add: item_key_def)
qed

lemma finished_plain:
  assumes "st_open (c_storage c)" and "0 < q_unfinished (c_queue c)" and "\<not> c_hook c"
  shows "\<exists>c'. worker_segment ev (WDelOk item resp) c = Some (WIdle, c')
     \<and> c_dedup c' = resolve (c_dedup c) (item_key item) resp \<and> c_callers c' = c_callers c"
  using assms delete_open [OF assms(1), of "item_key item"] by (auto simp: step_del_ok_def step_hook_def item_done_eq)

text \<open>The simulator works on a request of the demo in two segments.\<close>

lemma demo_served:
  fixes st :: "nat ServerState"
  assumes "build_app half_source None 0 0 = (None, st)"
  shows "\<exists>s1 r s2. flaky half_source 1 (HNew (demo_wire (outgoing sample_request))) st = Some (HBody (demo_wire (outgoing sample_request)), s1)
     \<and> flaky half_source 1 (HBody (demo_wire (outgoing sample_request))) s1 = Some (HDone r, s2) \<and> rs_status r = 200"
proof -
  have "sv_profile st = default_FailureProfile" "sv_request_count st = 0" using assms by (auto simp: build_app_def dest!: reset_fields)
  then show ?thesis
    by (simp add: check_rate_limit_def default_FailureProfile_def draw_def decide_def accept_def half_source_def demo_wire_def
        outgoing_def sample_request_def finish_def Let_def)
qed

text \<open>From the answer to the return of the caller.\<close>

lemma rest_returns:
  assumes "c_workers c ! i = WDelOk item resp" and "i < length (c_workers c)" and "resting c" and "st_open (c_storage c)"
    and "0 < q_unfinished (c_queue c)" and "\<not> c_hook c" and "c_callers c = [CAwait f]"
    and "pending_for (c_dedup c) (item_key item) = Some f" and "reg_ok (c_dedup c)"
  shows "\<exists>d. rest_step\<^sup>*\<^sup>* c d \<and> c_callers d = [CReturned resp]"
proof -
  fix ev :: env
  obtain c1 where c1: "worker_segment ev (WDelOk item resp) c = Some (WIdle, c1)"
    "c_dedup c1 = resolve (c_dedup c) (item_key item) resp" "c_callers c1 = [CAwait f]"
    using finished_plain [OF assms(4-6), of ev item resp] assms(7) by auto
  let ?c1 = "c1\<lparr>c_workers := (c_workers c)[i := WIdle]\<rparr>"
  have a: "rest_step c ?c1" by (rule rest_worker [OF c1(1) assms(2,1,3)])
  have rest: "resting ?c1" by (rule resting_update [OF assms(3), of WIdle _ i]) simp_all
  have "caller_segment ev (CAwait f) ?c1 = Some (CReturned resp, ?c1)"
    using resolved_wakes [OF assms(9,8), of ?c1 resp ev] c1(2) by simp
  then have b: "rest_step ?c1 (?c1\<lparr>c_callers := [CReturned resp]\<rparr>)" using rest_caller [OF _ _ rest, of ev 0] c1(3) by simp
  from a b have "rest_step\<^sup>*\<^sup>* c (?c1\<lparr>c_callers := [CReturned resp]\<rparr>)" by (meson r_into_rtranclp rtranclp.rtrancl_into_rtrancl)
  then show ?thesis by (intro exI [of _ "?c1\<lparr>c_callers := [CReturned resp]\<rparr>"]) simp
qed

text \<open>The simulator answers the request of that worker, and the caller gets the answer.\<close>

lemma demo_exchange:
  "\<exists>y resp. reach demo_system_init demo_step y \<and> CReturned resp \<in> set (c_callers (sy_client y)) \<and> sy_received y = [0]
     \<and> length (sy_handlers y) = 1"
proof -
  obtain c f host where c: "rest_step\<^sup>*\<^sup>* demo_new c" "c_callers c = [CAwait f]" "pending_for (c_dedup c) (item_key demo_item) = Some f"
    "reg_ok (c_dedup c)" "c_workers c = (replicate 16 WIdle)[0 := WExecute demo_item host]" "st_open (c_storage c)"
    "0 < q_unfinished (c_queue c)" "\<not> c_hook c"
    using demo_executing by blast
  define st where "st = snd (build_app half_source None 0 0)"
  have st: "build_app half_source None 0 0 = (None, st)"
    by (simp add: st_def build_app_def reset_for_profile_def half_source_def default_FailureProfile_def)
  let ?y0 = "\<lparr>sy_client = demo_new, sy_handlers = [], sy_requests = [], sy_server = st, sy_open = \<lambda>_. None, sy_received = []\<rparr>"
  have "client_fresh demo_new" unfolding client_fresh_def using demo_new_Client by blast
  then have 0: "reach demo_system_init demo_step ?y0"
    using st demo_init by (intro reach_start) (auto simp: system_init_def server_init_def)
  let ?y1 = "?y0\<lparr>sy_client := c\<rparr>"
  have "demo_step\<^sup>*\<^sup>* ?y0 ?y1" using c(1) by (intro rest_steps_internal) simp_all
  then have 1: "reach demo_system_init demo_step ?y1" by (rule reach_steps [OF 0])
  let ?w = "demo_wire (outgoing sample_request)" and ?op = "(\<lambda>_. None)(0 := Some 0) :: nat \<Rightarrow> nat option"
  let ?y2 = "\<lambda>h s. \<lparr>sy_client = c, sy_handlers = [h], sy_requests = [sample_request], sy_server = s, sy_open = ?op, sy_received = []\<rparr>"
  have i: "0 < length (c_workers c)" "c_workers c ! 0 = WExecute demo_item host" using c(5) by (simp_all add: numeral_eq_Suc)
  have "demo_step ?y1 (?y2 (HNew ?w) st)"
    using send [of 0 ?y1 sample_request half_source demo_wire "\<lambda>_. []" "\<lambda>hs. hs"] i by simp
  then have 2: "reach demo_system_init demo_step (?y2 (HNew ?w) st)" by (rule reach_next [OF 1])
  obtain s1 r s2 where s1: "flaky half_source 1 (HNew ?w) st = Some (HBody ?w, s1)"
    and s2: "flaky half_source 1 (HBody ?w) s1 = Some (HDone r, s2)" "rs_status r = 200"
    using demo_served [OF st] by blast
  have move: "demo_step (?y2 h s) (?y2 h' s')" if "flaky half_source 1 h s = Some (h', s')" for h s h' s'
    using serve [of 0 "?y2 h s" half_source 1 h' s' demo_wire "\<lambda>_. []" "\<lambda>hs. hs"] that by simp
  have 3: "reach demo_system_init demo_step (?y2 (HDone r) s2)"
    using reach_next [OF reach_next [OF 2 move [OF s1]] move [OF s2(1)]] .
  define ev where "ev = \<lparr>e_now = 1, e_rand = 0, e_http = HttpResponse (rs_status r) [] (rs_headers r)\<rparr>"
  obtain resp where "execute_request (qi_request demo_item) (qi_attempt demo_item) (e_http ev) = Inr resp"
    using s2(2) by (simp add: ev_def execute_request_def Let_def)
  then obtain brs m where x: "worker_segment ev (c_workers c ! 0) c = Some (WDelOk demo_item resp, c\<lparr>c_breakers := brs, c_metrics := m\<rparr>)"
    using executed_ok [of demo_item ev resp host c] i(2) by auto
  let ?c3 = "c\<lparr>c_breakers := brs, c_metrics := m, c_workers := (c_workers c)[0 := WDelOk demo_item resp]\<rparr>"
  let ?y3 = "\<lparr>sy_client = ?c3, sy_handlers = [HDone r], sy_requests = [sample_request], sy_server = s2, sy_open = \<lambda>_. None, sy_received = [0]\<rparr>"
  have "demo_step (?y2 (HDone r) s2) ?y3"
    using receive [of 0 "?y2 (HDone r) s2" 0 r ev "\<lambda>_. []" "\<lambda>hs. hs" half_source demo_wire] i x by (simp add: ev_def exchange_def)
  then have 4: "reach demo_system_init demo_step ?y3" by (rule reach_next [OF 3])
  have "resting ?c3" using c(5) by (auto simp: resting_def dest!: set_update_subset_insert [THEN subsetD])
  then obtain d where d: "rest_step\<^sup>*\<^sup>* ?c3 d" "c_callers d = [CReturned resp]"
    using rest_returns [of ?c3 0 demo_item resp f] i(1) c(2-4,6-8) by auto
  then have "rest_step\<^sup>*\<^sup>* (sy_client ?y3) d" by simp
  from reach_steps [OF 4 rest_steps_internal [OF this]] have "reach demo_system_init demo_step (?y3\<lparr>sy_client := d\<rparr>)" by simp
  then show ?thesis using d(2) by (intro exI [of _ "?y3\<lparr>sy_client := d\<rparr>"] exI [of _ resp]) simp
qed

section \<open>Agreement\<close>



end
