(* ===== verification/System_Load.thy ===== *)
theory System_Load
  imports System
begin

text \<open>
  How much the simulator is asked. Every request a worker sends is paid for by a request the client
  counts as started or by a retry it counts as performed: the units of work that may still be sent are
  what the budget holds.
\<close>

section \<open>Steps of the client\<close>

lemma retry_or_dlq_counts:
  assumes "retry_or_dlq ev item e ra c = (w, c')"
  shows "settled (c_metrics c) \<le> settled (c_metrics c') \<and> retries_performed (c_metrics c) \<le> retries_performed (c_metrics c')
     \<and> requests_started (c_metrics c') = requests_started (c_metrics c) \<and> stock c' = stock c
     \<and> live_worker w \<le> retries_performed (c_metrics c') - retries_performed (c_metrics c)"
  using assms by (auto simp: retry_or_dlq_def Let_def settled_def stock_def depth_def split: sum.splits if_splits dest!: worker_dies_acct)

lemma step_execute_counts:
  assumes "step_execute ev item host c = (w, c')"
  shows "settled (c_metrics c) \<le> settled (c_metrics c') \<and> retries_performed (c_metrics c) \<le> retries_performed (c_metrics c')
     \<and> requests_started (c_metrics c') = requests_started (c_metrics c) \<and> stock c' = stock c
     \<and> live_worker w \<le> retries_performed (c_metrics c') - retries_performed (c_metrics c)"
  using assms by (auto simp: step_execute_def Let_def settled_def stock_def split: sum.splits prod.splits dest!: retry_or_dlq_counts)

lemma worker_segment_counts:
  assumes "worker_segment ev w c = Some (w', c')"
  shows "settled (c_metrics c) \<le> settled (c_metrics c') \<and> retries_performed (c_metrics c) \<le> retries_performed (c_metrics c')"
  using assms
  by (cases w)
    (auto simp: handle_gate_def step_acquire_def step_incr_def step_push_def step_del_fail_def step_del_ok_def step_hook_def Let_def settled_def
      split: option.splits sum.splits prod.splits acquire_result.splits if_splits
      dest!: item_done_acct worker_dies_acct retry_or_dlq_counts step_execute_counts)

lemma client_step_counts:
  assumes "client_step c c'"
  shows "settled (c_metrics c) \<le> settled (c_metrics c') \<and> retries_performed (c_metrics c) \<le> retries_performed (c_metrics c')"
  using assms
proof cases
  case (worker_moves j ev w d)
  then show ?thesis using worker_segment_counts [OF worker_moves(3)] by simp
next
  case (caller_moves j ev p d)
  then show ?thesis
    by (cases "c_callers c ! j") (auto simp: caller_persist_def caller_enqueue_def caller_wake_def settled_def split: sum.splits option.splits future.splits)
next
  case (starting fid t)
  then show ?thesis by (auto simp: start_begin_def Let_def split: sum.splits)
next
  case start_moves
  then show ?thesis
    by (auto simp: start_segment_def start_finish_def recover_row_def Let_def settled_def split: phase.splits list.splits option.splits prod.splits if_splits)
next
  case stop_moves
  then show ?thesis by (auto simp: stop_segment_def stop_finish_def split: phase.splits if_splits)
qed (auto simp: request_begin_def reschedule_fires_def stop_begin_def client_metrics_def set_response_hook_def settled_def Let_def
    split: prod.splits if_splits option.splits)

text \<open>A step makes no more live work than it starts or retries.\<close>

definition granted :: "Client \<Rightarrow> int" where
  "granted c = requests_started (c_metrics c) + retries_performed (c_metrics c)"

lemma client_step_granted: "client_ok c \<Longrightarrow> client_step c c' \<Longrightarrow> live c' - granted c' \<le> live c - granted c"
  using client_step_acct [of c c'] client_step_counts [of c c'] by (auto simp: granted_def)

lemma exchange_granted:
  assumes i: "i < length (c_workers c)" and "executing (c_workers c ! i)"
  shows "live (exchange ev i c) - granted (exchange ev i c) \<le> live c - granted c - 1"
proof -
  obtain item host where w: "c_workers c ! i = WExecute item host" using assms(2) by (cases "c_workers c ! i") auto
  obtain w' c' where e: "step_execute ev item host c = (w', c')" by fastforce
  have seg: "worker_segment ev (WExecute item host) c = Some (w', c')" using e by simp
  have x: "exchange ev i c = c'\<lparr>c_workers := (c_workers c)[i := w']\<rparr>"
    using w seg worker_segment_workers [OF seg] by (simp add: exchange_def)
  have "c_callers c' = c_callers c" using worker_segment_grows [OF seg] by simp
  moreover have "c_phase c' = c_phase c"
    using e by (auto simp: step_execute_def retry_or_dlq_def worker_dies_def Let_def split: sum.splits prod.splits if_splits)
  ultimately show ?thesis
    using step_execute_counts [OF e] sum_list_update_int [OF i, of live_worker w'] w
    by (simp add: x live_def granted_def stock_def)
qed

text \<open>A step that leaves no worker had none, or is the end of \<open>stop\<close>.\<close>

lemma no_workers_left:
  assumes "client_ok c" and "client_step c c'" and "c_workers c' = []"
  shows "c_workers c = [] \<or> c' = stop_finish c"
  using assms(2)
proof cases
  case (worker_moves j ev w d)
  then show ?thesis using assms(3) worker_segment_workers [OF worker_moves(3)] by simp
next
  case (caller_moves j ev p d)
  then show ?thesis using assms(3) caller_segment_workers [OF caller_moves(3)] by simp
next
  case (starting fid t)
  then show ?thesis using assms(3) by (auto simp: start_begin_def Let_def split: sum.splits if_splits)
next
  case start_moves
  then show ?thesis using client_okD(7) [OF assms(1)] assms(3)
    by (auto simp: phase_ok_def start_segment_def start_finish_def recover_row_def Let_def
        split: phase.splits list.splits option.splits prod.splits if_splits)
next
  case stop_moves
  then show ?thesis using assms(3) by (auto simp: stop_segment_def split: phase.splits if_splits)
qed (use assms(3) in \<open>auto simp: request_begin_def reschedule_fires_def stop_begin_def client_metrics_def set_response_hook_def Let_def
    split: prod.splits if_splits option.splits\<close>)

section \<open>Exchanges in the air\<close>

fun flag :: "nat option \<Rightarrow> int" where
  "flag None = 0"
| "flag (Some _) = 1"

definition flags :: "(nat \<Rightarrow> nat option) \<Rightarrow> nat \<Rightarrow> int" where
  "flags op n = (\<Sum>i < n. flag (op i))"

lemma flag_nonneg: "0 \<le> flag x"
  by (cases x) auto

lemma flags_update: "i < n \<Longrightarrow> flags (op(i := x)) n = flags op n - flag (op i) + flag x"
  by (simp add: flags_def sum.remove [of "{..<n}" i])

lemma flags_none [simp]: "flags (\<lambda>_. None) n = 0"
  by (simp add: flags_def)

text \<open>What may still be sent: live work that is not being sent already.\<close>

definition unsent :: "'g system \<Rightarrow> int" where
  "unsent y = live (sy_client y) - flags (sy_open y) (length (c_workers (sy_client y)))"

lemma flags_live:
  assumes "\<And>i j. op i = Some j \<Longrightarrow> i < length ws \<and> request_of (ws ! i) \<noteq> None"
  shows "flags op (length ws) \<le> sum_list (map live_worker ws)"
proof -
  have "flag (op i) \<le> live_worker (ws ! i)" if "i < length ws" for i
    using assms [of i] live_worker_nonneg [of "ws ! i"] by (cases "op i"; cases "ws ! i") auto
  then have "flags op (length ws) \<le> (\<Sum>i < length ws. live_worker (ws ! i))" unfolding flags_def by (intro sum_mono) auto
  then show ?thesis by (simp add: sum_list_sum_nth atLeast0LessThan)
qed

lemma wired_flags: "wired y \<Longrightarrow> flags (sy_open y) (length (c_workers (sy_client y))) \<le> sum_list (map live_worker (c_workers (sy_client y)))"
  by (rule flags_live) (auto simp: wired_def)

lemma unsent_nonneg:
  assumes "wired y"
  shows "0 \<le> unsent y"
proof -
  have "0 \<le> sum_list (map live_caller (c_callers (sy_client y)))" by (auto intro!: sum_list_nonneg live_nonneg)
  then show ?thesis
    using wired_flags [OF assms] live_nonneg(2) [of "c_phase (sy_client y)"] by (simp add: unsent_def live_def stock_def depth_def)
qed

lemma flags_support:
  assumes "\<And>i j. op i = Some j \<Longrightarrow> i < n \<and> i < m"
  shows "flags op n = flags op m"
proof -
  have out: "flag (op i) = 0" if "\<not> (i < n \<and> i < m)" for i using assms [of i] that by (cases "op i") auto
  have "flags op (min n m) = flags op n" "flags op (min n m) = flags op m"
    unfolding flags_def by (rule sum.mono_neutral_left; use out in auto)+
  then show ?thesis by simp
qed

section \<open>The budget of the system\<close>

abbreviation sends :: "'g system \<Rightarrow> int" where
  "sends y \<equiv> int (length (sy_handlers y))"

lemma exchange_unsent:
  assumes w: "wired y" and i: "i < length (c_workers (sy_client y))" "executing (c_workers (sy_client y) ! i)"
    and y': "sy_client y' = exchange ev i (sy_client y)" "sy_open y' = (sy_open y)(i := None)" "sy_handlers y' = sy_handlers y"
  shows "sends y' + unsent y' - granted (sy_client y') \<le> sends y + unsent y - granted (sy_client y)"
proof -
  have "length (c_workers (exchange ev i (sy_client y))) = length (c_workers (sy_client y))"
    using exchange_effect [OF i, of ev] by auto
  moreover have "flag (sy_open y i) \<le> 1" by (cases "sy_open y i") auto
  ultimately show ?thesis
    using exchange_granted [OF i, of ev] flags_update [OF i(1), of "sy_open y" None] y' by (simp add: unsent_def)
qed

lemma system_step_budget:
  assumes "system_step ops wire render deliver y y'" and w: "wired y" and ok: "client_ok (sy_client y)"
  shows "sends y' + unsent y' - granted (sy_client y') \<le> sends y + unsent y - granted (sy_client y)"
  using assms(1)
proof cases
  case (internal c')
  have g: "live c' - granted c' \<le> live (sy_client y) - granted (sy_client y)" by (rule client_step_granted [OF ok internal(2)])
  have sup: "\<And>i j. sy_open y i = Some j \<Longrightarrow> i < length (c_workers (sy_client y)) \<and> (\<exists>req. request_of (c_workers (sy_client y) ! i) = Some req)"
    using w by (auto simp: wired_def)
  show ?thesis
  proof (cases "c_workers c' = []")
    case True
    from no_workers_left [OF ok internal(2) True] show ?thesis
    proof
      assume "c_workers (sy_client y) = []"
      then show ?thesis using True g internal(1) by (simp add: unsent_def flags_def)
    next
      assume c': "c' = stop_finish (sy_client y)"
      have "depth (c_queue (stop_finish (sy_client y))) = depth (c_queue (sy_client y))"
        using client_okD(8) [OF ok] cancel_workers_eq [of "c_workers (sy_client y)" "c_queue (sy_client y)"]
        by (simp add: stop_finish_def unfinished_ok_def depth_def)
      then have "live c' + sum_list (map live_worker (c_workers (sy_client y))) \<le> live (sy_client y)" "granted c' = granted (sy_client y)"
        using live_nonneg(2) [of "c_phase (sy_client y)"] by (simp_all add: c' live_def stock_def granted_def stop_finish_def)
      then show ?thesis using wired_flags [OF w] internal(1) True by (simp add: unsent_def)
    qed
  next
    case False
    have "flags (sy_open y) (length (c_workers c')) = flags (sy_open y) (length (c_workers (sy_client y)))"
      by (rule flags_support) (use sup internal_open [OF internal(3)] False in blast)
    then show ?thesis using g internal(1) False by (simp add: unsent_def)
  qed
next
  case (send i req)
  then show ?thesis using flags_update [OF send(2), of "sy_open y" "Some (length (sy_handlers y))"] by (simp add: unsent_def)
next
  case (serve j now h st)
  then show ?thesis by (simp add: unsent_def)
next
  case (receive i j r ev)
  show ?thesis by (rule exchange_unsent [OF w receive(2,3)]) (simp_all add: receive(1))
next
  case (crash i j e ev body hs)
  show ?thesis by (rule exchange_unsent [OF w crash(2,3)]) (simp_all add: crash(1))
next
  case (lose i ev e)
  show ?thesis by (rule exchange_unsent [OF w lose(2,3)]) (simp_all add: lose(1))
qed

text \<open>The client of a step of the system takes a step or none.\<close>

lemma system_step_client:
  assumes "system_step ops wire render deliver y y'"
  shows "sy_client y' = sy_client y \<or> client_step (sy_client y) (sy_client y')"
proof -
  have ex: "client_step c (exchange ev i c)" if i: "i < length (c_workers c)" "executing (c_workers c ! i)" for ev i c
  proof -
    obtain item host where w: "c_workers c ! i = WExecute item host" using i(2) by (cases "c_workers c ! i") auto
    obtain w' c' where "worker_segment ev (c_workers c ! i) c = Some (w', c')" by (simp add: w) fastforce
    with client_step.worker_moves [OF i(1) this] show ?thesis by (simp add: exchange_def)
  qed
  from assms show ?thesis by cases (auto intro: ex)
qed

interpretation ld: budget_system "\<lambda>y. system_init ops y \<and> client_init (sy_client y)" "system_step ops wire render deliver"
  "\<lambda>y. system_ok ops wire render y \<and> client_ok (sy_client y)" sends unsent "\<lambda>y. granted (sy_client y)"
  for ops wire render deliver
proof unfold_locales
  fix y :: "'a system" assume i: "system_init ops y \<and> client_init (sy_client y)"
  then show "system_ok ops wire render y \<and> client_ok (sy_client y)" by (simp add: system_init_ok client_init_ok)
  from i show "sends y + unsent y \<le> granted (sy_client y)"
    using init_live [of "sy_client y"] by (auto simp: system_init_def server_init_def unsent_def granted_def)
next
  fix y y' :: "'a system" assume ok: "system_ok ops wire render y \<and> client_ok (sy_client y)" and s: "system_step ops wire render deliver y y'"
  show "system_ok ops wire render y' \<and> client_ok (sy_client y')"
    using ok system_step_ok [OF s] system_step_client [OF s] client_step_both by (metis)
  show "sends y' + unsent y' - granted (sy_client y') \<le> sends y + unsent y - granted (sy_client y)"
    using ok by (intro system_step_budget [OF s]) (auto dest: system_okD(4))
next
  fix y :: "'a system" assume "system_ok ops wire render y \<and> client_ok (sy_client y)"
  then show "0 \<le> unsent y" by (intro unsent_nonneg) (auto dest: system_okD(4))
qed

section \<open>Properties\<close>

text \<open>C8: The simulator is never asked more often than the client accounts for: in every interleaving, with
  losses, restarts and shared requests, the requests that reached it, together with the work that may still
  be sent, are at most the requests the client counts as started plus the retries it counts.\<close>

theorem sends_bounded:
  assumes "reach (\<lambda>y. system_init ops y \<and> client_init (sy_client y)) (system_step ops wire render deliver) y"
  shows "int (length (sy_handlers y)) \<le> requests_started (c_metrics (sy_client y)) + retries_performed (c_metrics (sy_client y))"
  using ld.spent_within [OF assms] by (simp add: granted_def)

theorem sends_bounded_witness:
  "\<exists>y :: nat system. length (sy_handlers y) = 1 \<and> 1 \<le> requests_started (c_metrics (sy_client y)) + retries_performed (c_metrics (sy_client y))"
proof -
  obtain y :: "nat system" where "reach demo_system_init demo_step y" "length (sy_handlers y) = 1" using demo_exchange by blast
  with sends_bounded [of half_source demo_wire "\<lambda>_. []" "\<lambda>hs. hs" y] show ?thesis by auto
qed

end
