(* ===== verification/Client_Session.thy ===== *)
theory Client_Session
  imports Client_Demo
begin

text \<open>
  One client from entering its context manager to leaving it: how \<open>stop\<close> ends when nothing is left to
  drain, and a whole session around one request.
\<close>

section \<open>Leaving\<close>

text \<open>The segments of \<open>stop\<close>, one after the other with nothing in between.\<close>

fun stop_run :: "nat \<Rightarrow> Client \<Rightarrow> Client option" where
  "stop_run 0 c = Some c"
| "stop_run (Suc n) c = (case stop_segment c of None \<Rightarrow> None | Some c' \<Rightarrow> stop_run n c')"

lemma stop_run_steps: "stop_run n c = Some c' \<Longrightarrow> client_step\<^sup>*\<^sup>* c c'"
  by (induction n arbitrary: c)
    (auto split: option.splits intro: converse_rtranclp_into_rtranclp client_step.stop_moves)

lemma cancel_idle: "filter busy ws = [] \<Longrightarrow> cancel_workers ws q = q"
  by (induction ws) (auto split: if_splits)

lemma idle_workers:
  assumes "client_ok c" and "join_returns (c_queue c)"
  shows "q_items (c_queue c) = []" and "filter busy (c_workers c) = []"
  using client_okD(8) [OF assms(1)] assms(2)
  by (simp_all add: unfinished_ok_def join_returns_def depth_def busy_count_def flip: length_0_conv)

text \<open>The client after a clean stop.\<close>

definition stopped :: "Client \<Rightarrow> Client" where
  "stopped c = c\<lparr>c_stopping := True, c_workers := [], c_session := False, c_storage := st_close (c_storage c), c_phase := PIdle\<rparr>"

lemma quiet_exit:
  assumes "client_ok c" and "c_session c" and "join_returns (c_queue c)" and "c_reschedules c = []"
  shows "stop_run 2 (aexit c) = Some (stopped c)"
  using assms(2-4) cancel_idle [OF idle_workers(2) [OF assms(1,3)]]
  by (simp add: numeral_2_eq_2 aexit_def stop_begin_def stop_segment_def stop_finish_def stopped_def)

text \<open>C14: Leaving the context manager with no unfinished item and no sleeping retry always ends, in two
  segments after \<open>stop\<close> was called: the workers are gone, the session and the storage are
  closed, no item was in the queue, and the database, the futures and the metrics are as they were. A second \<open>stop\<close>
  changes nothing.\<close>

theorem graceful_exit:
  assumes "reach client_init client_step c" and "c_session c" and "c_phase c = PIdle"
    and "join_returns (c_queue c)" and "c_reschedules c = []"
  shows "\<exists>c'. stop_run 2 (aexit c) = Some c' \<and> client_step\<^sup>*\<^sup>* c c' \<and> \<not> c_session c' \<and> \<not> st_open (c_storage c')
     \<and> c_workers c' = [] \<and> c_phase c' = PIdle \<and> q_items (c_queue c') = [] \<and> aexit c' = c'
     \<and> st_db (c_storage c') = st_db (c_storage c) \<and> c_dedup c' = c_dedup c \<and> c_metrics c' = c_metrics c"
proof -
  have ok: "client_ok c" by (rule cl.reach_inv [OF assms(1)])
  have s: "stop_run 2 (aexit c) = Some (stopped c)" by (rule quiet_exit [OF ok assms(2,4,5)])
  have "client_step c (aexit c)" unfolding aexit_def by (rule client_step.stopping [OF assms(3)])
  then have "client_step\<^sup>*\<^sup>* c (stopped c)" using stop_run_steps [OF s] by (rule converse_rtranclp_into_rtranclp)
  with s show ?thesis
    using idle_workers(1) [OF ok assms(4)]
    by (intro exI [of _ "stopped c"]) (simp add: stopped_def st_close_def aexit_def stop_begin_def)
qed

theorem graceful_exit_witness: "\<exists>c'. stop_run 2 (aexit demo_started) = Some c' \<and> \<not> c_session c'"
  using graceful_exit [OF demo_started_reach]
  by (fastforce simp: demo_started_def demo_new_def join_returns_def)

section \<open>A whole session\<close>

lemma entered:
  assumes "hardened_client fid t (Some cfg) db = Inr c" and "inflight_requests db = []" and "db_path cfg \<noteq> '':memory:''"
  shows "\<exists>c0. new_Client cfg db = Inr c0 \<and> c = c0\<lparr>c_session := True, c_phase := PRecover [],
      c_storage := \<lparr>st_path = db_path cfg, st_db = db, st_open = True\<rparr>\<rparr> \<and> client_step c0 c"
proof -
  let ?s = "\<lparr>st_path = db_path cfg, st_db = db, st_open = True\<rparr>"
  obtain c0 where c0: "new_Client cfg db = Inr c0" "start_begin fid t c0 = (None, c)"
    using assms(1) by (auto simp: hardened_client_def split: sum.splits option.splits prod.splits)
  have "list_inflight fid t ?s = Inr []"
    using collect_map_Inr [of "[]"] assms(2) by (simp add: list_inflight_def)
  moreover from c0(1) have "\<not> c_session c0" "c_storage c0 = ?s\<lparr>st_open := False\<rparr>" "c_phase c0 = PIdle"
    by (auto simp: new_Client_def split: sum.splits)
  moreover from this c0(2) have "client_step c0 c"
    using client_step.starting [of c0 fid t] by simp
  ultimately show ?thesis using c0 assms(3) by (auto simp: start_begin_def st_open_conn_def)
qed

text \<open>C10: A script that opens the client on a log with no rows, sends one request and leaves gets its answer:
  when the server answers with success there is a run in which the call returns that response, and leaving the
  context manager then ends in two segments with the session closed, no row in the log and the dead letters
  untouched. This is for every configuration with workers and a bucket.\<close>

theorem one_off_session:
  assumes start: "hardened_client fid t (Some cfg) db = Inr c"
    and db: "log_ok db" "inflight_requests db = []" "db_path cfg \<noteq> '':memory:''"
    and cfg: "0 < worker_count (queue_cfg cfg)" "0 < rate_per_second (rate_limit cfg)" "0 < burst (rate_limit cfg)"
    and req: "req_ok req" "request_payload req = Inr payload" "host_of (req_url req) = Inr host"
    and ok: "execute_request req 0 outcome = Inr resp"
  shows "\<exists>c1 c2 c3. start_segment c = Some c1 \<and> client_step\<^sup>*\<^sup>* (request_begin req c1) c2
     \<and> c_callers c2 = [CReturned resp] \<and> stop_run 2 (aexit c2) = Some c3 \<and> \<not> c_session c3
     \<and> row_count (st_db (c_storage c3)) = (\<lambda>_. None)
     \<and> dead_letter_queue (st_db (c_storage c3)) = dead_letter_queue db"
proof -
  obtain c0 where c0: "new_Client cfg db = Inr c0" "client_step c0 c"
    and c: "c = c0\<lparr>c_session := True, c_phase := PRecover [], c_storage := \<lparr>st_path = db_path cfg, st_db = db, st_open = True\<rparr>\<rparr>"
    using entered [OF start db(2,3)] by blast
  let ?c1 = "start_finish c"
  have s1: "start_segment c = Some ?c1" by (simp add: start_segment_def c)
  have "client_init c0" using c0(1) db(1,3) by (auto simp: client_init_def)
  then have ok1: "client_ok ?c1"
    using client_step_both [OF _ client_step.start_moves [OF s1]] client_step_both [OF client_init_ok c0(2)] by blast
  have new: "c_breakers ?c1 = new_HostCircuitBreakers (circuit_breaker cfg)" "c_rate_limiter ?c1 = new_HostRateLimiter (rate_limit cfg)"
    "c_session ?c1" "c_callers ?c1 = []" "q_items (c_queue ?c1) = []" "0 < q_max (c_queue ?c1)" "c_reschedules ?c1 = []"
    "c_phase ?c1 = PIdle" "c_dedup ?c1 = new_InFlightRegistry" "c_workers ?c1 = replicate (worker_count (queue_cfg cfg)) WIdle"
    "st_db (c_storage ?c1) = db"
    using c0(1) by (auto simp: c start_finish_def new_Client_def new_RequestQueue_def split: if_splits)
  have r: "ready 0 req 0 ?c1"
    using new cfg(1) fresh_admits [OF new(1,2) req(3) cfg(2,3)] by (simp add: ready_def)
  obtain c2 where c2: "client_step\<^sup>*\<^sup>* (request_begin req ?c1) c2" "c_callers c2 = [CReturned resp]"
    "row_count (st_db (c_storage c2)) = (row_count db)(idempotency_key req := None)"
    "dead_letter_queue (st_db (c_storage c2)) = dead_letter_queue db"
    "c_workers c2 = replicate (worker_count (queue_cfg cfg)) WIdle" "q_items (c_queue c2) = []" "same_life ?c1 c2"
    using served_steps [OF ok1 r req(2) ok] new by auto
  have ok2: "client_ok c2" using client_steps_both [OF begin_steps [OF req(1) c2(1)] ok1] by blast
  have "join_returns (c_queue c2)"
    using client_okD(8) [OF ok2] c2(5,6) by (simp add: unfinished_ok_def join_returns_def depth_def busy_count_def)
  then have "stop_run 2 (aexit c2) = Some (stopped c2)"
    using quiet_exit [OF ok2] c2(7) new(3,7) by (simp add: same_life_def)
  moreover have "row_count db = (\<lambda>_. None)" by (simp add: fun_eq_iff row_count_def find_inflight_def db(2))
  ultimately show ?thesis
    using s1 c2 by (intro exI [of _ ?c1] exI [of _ c2] exI [of _ "stopped c2"]) (simp add: stopped_def st_close_def)
qed

theorem one_off_session_witness:
  "\<exists>c c2 c3 resp. hardened_client ''f'' ''1.5'' (Some default_ClientConfig) empty_db = Inr c \<and> c_callers c2 = [CReturned resp]
     \<and> status_code resp = 204 \<and> stop_run 2 (aexit c2) = Some c3 \<and> \<not> c_session c3"
proof -
  obtain p where p: "request_payload sample_request = Inr p" using sample_payload by blast
  obtain resp where resp: "execute_request sample_request 0 (HttpResponse 204 [] []) = Inr resp" "status_code resp = 204"
    by (simp add: execute_request_def read_response_def)
  have "list_inflight ''f'' ''1.5'' \<lparr>st_path = ''ahc_state.db'', st_db = empty_db, st_open = True\<rparr> = Inr []"
    using collect_map_Inr [of "[]"] by (simp add: list_inflight_def empty_db_def)
  then have "\<exists>c. hardened_client ''f'' ''1.5'' (Some default_ClientConfig) empty_db = Inr c"
    using demo_on_Client [of empty_db] by (simp add: hardened_client_def start_begin_def st_open_conn_def demo_on_def demo_new_def)
  then obtain c where c: "hardened_client ''f'' ''1.5'' (Some default_ClientConfig) empty_db = Inr c" ..
  have "log_ok empty_db" "inflight_requests empty_db = []" using log_ok_empty by (simp_all add: empty_db_def)
  from one_off_session [OF c this _ _ _ _ sample_request_ok p sample_host resp(1)] resp(2) c show ?thesis
    by (fastforce simp: default_ClientConfig_def default_QueueConfig_def default_RateLimitConfig_def)
qed

end
