(* ===== verification/Client_Gates.thy ===== *)
theory Client_Gates
  imports Client_Demo
begin

text \<open>
  The breakers and buckets inside the client. Workers of any number reach them in any order; in every
  reachable client each breaker is well formed and carries the configuration of the client, each
  bucket holds between none and \<open>burst\<close> tokens at the configured rate, and a worker that waits for a
  token waits on a bucket that exists. From such a state a host is admitted again, at the latest once
  the cool-down is over and a token has been refilled.
\<close>

section \<open>The invariant\<close>

definition breakers_ok :: "CircuitBreakerConfig \<Rightarrow> HostCircuitBreakers \<Rightarrow> bool" where
  "breakers_ok cfg reg \<longleftrightarrow> h_cfg reg = cfg
     \<and> (\<forall>host cb. dget (h_breakers reg) host = Some cb \<longrightarrow> cb_ok cb \<and> cb_cfg cb = cfg)"

definition buckets_ok :: "RateLimitConfig \<Rightarrow> HostRateLimiter \<Rightarrow> bool" where
  "buckets_ok cfg l \<longleftrightarrow> limiter_ok l \<and> l_default l = cfg \<and> l_overrides l = []
     \<and> (\<forall>b \<in> set (l_heap l). b_rate b = rate_per_second cfg \<and> b_capacity b = of_int (burst cfg))"

definition gates :: "Client \<Rightarrow> bool" where
  "gates c \<longleftrightarrow> breakers_ok (circuit_breaker (c_cfg c)) (c_breakers c) \<and> buckets_ok (rate_limit (c_cfg c)) (c_rate_limiter c)"

fun waits_within :: "nat \<Rightarrow> worker \<Rightarrow> bool" where
  "waits_within n (WAcquire _ _ i _) \<longleftrightarrow> i < n"
| "waits_within n _ \<longleftrightarrow> True"

definition gates_ok :: "Client \<Rightarrow> bool" where
  "gates_ok c \<longleftrightarrow> gates c \<and> (\<forall>w \<in> set (c_workers c). waits_within (length (l_heap (c_rate_limiter c))) w)"

lemma waits_within_mono: "waits_within n w \<Longrightarrow> n \<le> m \<Longrightarrow> waits_within m w"
  by (cases w) auto

section \<open>Breakers\<close>

lemma new_cb_cfg [simp]: "cb_cfg (new_CircuitBreaker host cfg) = cfg"
  by (simp add: new_CircuitBreaker_def)

lemma breaker_at_ok:
  assumes "breakers_ok cfg reg"
  shows "cb_ok (breaker_at reg host) \<and> cb_cfg (breaker_at reg host) = cfg"
  using assms by (auto simp: breakers_ok_def breaker_at_def new_cb_ok split: option.splits)

lemma update_breaker_ok:
  assumes "breakers_ok cfg reg" and "cb_ok (f (breaker_at reg host))" and "cb_cfg (f (breaker_at reg host)) = cfg"
  shows "breakers_ok cfg (update_breaker host f reg)"
  using assms by (auto simp: breakers_ok_def update_breaker_def dget_dset split: if_splits)

lemma applied_ok: "cb_ok cb \<Longrightarrow> cb_ok (on_success cb) \<and> cb_ok (on_failure now cb) \<and> cb_ok (snd (before_call now cb))"
  using cb_apply_ok [of cb Success] cb_apply_ok [of cb "Failure now"] cb_apply_ok [of cb "Call now"] by simp

lemma applied_cfg [simp]:
  "cb_cfg (on_success cb) = cb_cfg cb" "cb_cfg (on_failure now cb) = cb_cfg cb" "cb_cfg (snd (before_call now cb)) = cb_cfg cb"
  using cb_apply_cfg [of Success cb] cb_apply_cfg [of "Failure now" cb] cb_apply_cfg [of "Call now" cb] by simp_all

lemma for_url_ok:
  assumes "breakers_ok cfg reg" and "for_url url reg = Inr (host, reg')"
  shows "breakers_ok cfg reg'"
  using assms by (auto simp: breakers_ok_def for_url_def dget_dset new_cb_ok
      split: sum.splits option.splits if_splits)

lemma breakers_applied:
  assumes "breakers_ok cfg reg"
  shows "breakers_ok cfg (update_breaker host on_success reg)" "breakers_ok cfg (update_breaker host (on_failure now) reg)"
    "breakers_ok cfg (update_breaker host (\<lambda>_. snd (before_call now (breaker_at reg host))) reg)"
  using assms breaker_at_ok [OF assms, of host] applied_ok by (auto intro!: update_breaker_ok)

section \<open>Buckets\<close>

lemma bucket_for_buckets:
  assumes "buckets_ok cfg l" and "bucket_for url now l = Inr (i, l')"
  shows "buckets_ok cfg l' \<and> i < length (l_heap l') \<and> length (l_heap l) \<le> length (l_heap l')"
proof -
  have "limiter_ok l'" "i < length (l_heap l')" using assms bucket_for_ok by (auto simp: buckets_ok_def)
  with assms show ?thesis
    by (auto simp: buckets_ok_def bucket_for_def config_for_def new_TokenBucket_def Let_def dget_def
        split: sum.splits option.splits if_splits)
qed

lemma bucket_step_buckets:
  assumes "buckets_ok cfg l" and "i < length (l_heap l)" and "bucket_step i now l = (r, l')"
  shows "buckets_ok cfg l' \<and> length (l_heap l') = length (l_heap l)"
proof -
  have "limiter_ok l'" using bucket_step_ok [of l i now] assms by (simp add: buckets_ok_def)
  moreover obtain b where b: "l' = l\<lparr>l_heap := (l_heap l)[i := b]\<rparr>" "acquire_step 1 now (l_heap l ! i) = (r, b)"
    using assms(3) by (auto simp: bucket_step_def split: prod.splits)
  moreover have "b_rate b = b_rate (l_heap l ! i) \<and> b_capacity b = b_capacity (l_heap l ! i)"
    using acquire_step_fields [of 1 now "l_heap l ! i"] b(2) by simp
  ultimately show ?thesis
    using assms(1,2) by (auto simp: buckets_ok_def dest!: set_update_subset_insert [THEN subsetD])
qed

section \<open>Every segment keeps the gates\<close>

definition same_gates :: "Client \<Rightarrow> Client \<Rightarrow> bool" where
  "same_gates c c' \<longleftrightarrow> c_cfg c' = c_cfg c \<and> c_breakers c' = c_breakers c \<and> c_rate_limiter c' = c_rate_limiter c"

lemma same_gates_gates: "same_gates c c' \<Longrightarrow> gates c' = gates c"
  by (simp add: same_gates_def gates_def)

lemma item_done_gates: "item_done c = (w, c') \<Longrightarrow> same_gates c c' \<and> waits_within n w"
  by (auto simp: item_done_def same_gates_def split: sum.splits)

lemma worker_dies_gates: "worker_dies e c = (w, c') \<Longrightarrow> same_gates c c' \<and> waits_within n w"
  by (auto simp: worker_dies_def same_gates_def split: sum.splits)

lemma retry_or_dlq_gates:
  assumes "retry_or_dlq ev item e ra c = (w, c')"
  shows "same_gates c c' \<and> waits_within n w"
proof (cases "(is_RetryableError e \<or> is_CircuitOpenError e) \<and> should_retry (retry (c_cfg c)) (qi_attempt item)")
  case True
  with assms show ?thesis
    by (auto simp: retry_or_dlq_def Let_def split: sum.splits dest!: worker_dies_gates [of _ _ w c' n]) (auto simp: same_gates_def)
next
  case False
  with assms show ?thesis by (auto simp: retry_or_dlq_def Let_def same_gates_def)
qed

text \<open>What a segment of a worker leaves: gates that are well formed, buckets only added.\<close>

definition kept :: "Client \<Rightarrow> worker \<Rightarrow> Client \<Rightarrow> bool" where
  "kept c w c' \<longleftrightarrow> gates c' \<and> waits_within (length (l_heap (c_rate_limiter c'))) w
     \<and> length (l_heap (c_rate_limiter c)) \<le> length (l_heap (c_rate_limiter c'))"

lemma kept_same: "gates c \<Longrightarrow> same_gates c c' \<Longrightarrow> (\<And>n. waits_within n w) \<Longrightarrow> kept c w c'"
  using same_gates_gates [of c c'] by (simp add: kept_def same_gates_def)

lemma kept_after: "gates c1 \<Longrightarrow> c_rate_limiter c1 = c_rate_limiter c \<Longrightarrow> same_gates c1 c' \<Longrightarrow> (\<And>n. waits_within n w) \<Longrightarrow> kept c w c'"
  using kept_same [of c1 c' w] by (simp add: kept_def)

lemma handle_gate_kept:
  assumes "gates c" and "handle_gate ev item c = (w, c')"
  shows "kept c w c'"
proof (cases "for_url (req_url (qi_request item)) (c_breakers c)")
  case (Inl e)
  with assms show ?thesis using worker_dies_gates by (intro kept_same) (auto simp: handle_gate_def)
next
  case (Inr hb)
  then obtain host brs where hb: "for_url (req_url (qi_request item)) (c_breakers c) = Inr (host, brs)" by (cases hb) auto
  obtain rej cb where bc: "before_call (e_now ev) (breaker_at brs host) = (rej, cb)" by fastforce
  let ?c = "c\<lparr>c_breakers := update_breaker host (\<lambda>_. cb) brs\<rparr>"
  have "breakers_ok (circuit_breaker (c_cfg c)) brs" using for_url_ok [OF _ hb] assms(1) by (simp add: gates_def)
  from breakers_applied(3) [OF this, of host "e_now ev"] have g: "gates ?c" using assms(1) bc by (simp add: gates_def)
  show ?thesis
  proof (cases rej)
    case (Some e)
    let ?m = "(c_metrics ?c)\<lparr>breaker_short_circuits := breaker_short_circuits (c_metrics ?c) + 1\<rparr>"
    have "retry_or_dlq ev item e (retry_after_of e) (?c\<lparr>c_metrics := ?m\<rparr>) = (w, c')"
      using assms(2) hb bc Some by (simp add: handle_gate_def Let_def)
    moreover have "gates (?c\<lparr>c_metrics := ?m\<rparr>)" using g by (simp add: gates_def)
    ultimately show ?thesis
      by (intro kept_after [of "?c\<lparr>c_metrics := ?m\<rparr>"]) (use retry_or_dlq_gates in \<open>auto\<close>)
  next
    case None
    show ?thesis
    proof (cases "bucket_for (req_url (qi_request item)) (e_now ev) (c_rate_limiter ?c)")
      case (Inl e)
      then have "worker_dies e ?c = (w, c')" using assms(2) hb bc None by (simp add: handle_gate_def Let_def)
      then show ?thesis using g worker_dies_gates by (intro kept_after [of ?c]) auto
    next
      case (Inr il)
      then obtain i l where il: "bucket_for (req_url (qi_request item)) (e_now ev) (c_rate_limiter ?c) = Inr (i, l)" by (cases il) auto
      then have "w = WAcquire item host i 0" "c' = ?c\<lparr>c_rate_limiter := l\<rparr>"
        using assms(2) hb bc None by (simp_all add: handle_gate_def Let_def)
      moreover have "buckets_ok (rate_limit (c_cfg c)) (c_rate_limiter ?c)" using g by (simp add: gates_def)
      ultimately show ?thesis using bucket_for_buckets [OF _ il] g by (auto simp: kept_def gates_def)
    qed
  qed
qed

lemma step_acquire_kept:
  assumes "gates c" and "i < length (l_heap (c_rate_limiter c))" and "step_acquire ev item host i wait c = (w, c')"
  shows "kept c w c'"
proof -
  obtain r l where r: "bucket_step i (e_now ev) (c_rate_limiter c) = (r, l)" by fastforce
  have "buckets_ok (rate_limit (c_cfg c)) l" "length (l_heap l) = length (l_heap (c_rate_limiter c))"
    using bucket_step_buckets [OF _ assms(2) r] assms(1) by (auto simp: gates_def)
  with r assms show ?thesis
    by (auto simp: step_acquire_def Let_def kept_def gates_def split: acquire_result.splits)
qed

lemma step_execute_kept:
  assumes "gates c" and "step_execute ev item host c = (w, c')"
  shows "kept c w c'"
proof (cases "execute_request (qi_request item) (qi_attempt item) (e_http ev)")
  case (Inl e0)
  obtain tell e where te: "classify e0 = (tell, e)" by fastforce
  let ?brs = "if tell then update_breaker host (on_failure (e_now ev)) (c_breakers c) else c_breakers c"
  have "retry_or_dlq ev item e None (c\<lparr>c_breakers := ?brs\<rparr>) = (w, c')"
    using Inl te assms(2) by (simp add: step_execute_def Let_def)
  moreover have "gates (c\<lparr>c_breakers := ?brs\<rparr>)" using assms(1) breakers_applied(2) by (simp add: gates_def)
  ultimately show ?thesis by (intro kept_after [of "c\<lparr>c_breakers := ?brs\<rparr>"]) (use retry_or_dlq_gates in auto)
next
  case (Inr resp)
  with assms breakers_applied(1) show ?thesis by (auto simp: step_execute_def Let_def kept_def gates_def)
qed

lemma worker_segment_kept:
  assumes "gates c" and "waits_within (length (l_heap (c_rate_limiter c))) w" and "worker_segment ev w c = Some (w', c')"
  shows "kept c w' c'"
proof (cases w)
  case WIdle
  with assms obtain item q where "handle_gate ev item (c\<lparr>c_queue := q\<rparr>) = (w', c')" by (auto split: option.splits)
  moreover have "gates (c\<lparr>c_queue := q\<rparr>)" using assms(1) by (simp add: gates_def)
  ultimately show ?thesis using handle_gate_kept by (fastforce simp: kept_def)
next
  case (WAcquire item host i wait)
  with assms show ?thesis by (auto intro: step_acquire_kept)
next
  case (WExecute item host)
  with assms show ?thesis by (auto intro: step_execute_kept)
next
  case (WIncr item e d)
  with assms(3) have "same_gates c c' \<and> waits_within n w'" for n
    by (auto simp: step_incr_def split: sum.splits dest!: item_done_gates [of _ _ _ n] worker_dies_gates [of _ _ _ _ n])
       (auto simp: same_gates_def)
  with assms(1) show ?thesis by (intro kept_same) auto
next
  case (WPush item e)
  with assms(3) have "same_gates c c' \<and> waits_within n w'" for n
    by (auto simp: step_push_def split: sum.splits dest!: worker_dies_gates [of _ _ _ _ n]) (auto simp: same_gates_def)
  with assms(1) show ?thesis by (intro kept_same) auto
next
  case (WDelFail item e)
  with assms(3) have "same_gates c c' \<and> waits_within n w'" for n
    by (auto simp: step_del_fail_def split: sum.splits dest!: item_done_gates [of _ _ _ n] worker_dies_gates [of _ _ _ _ n])
       (auto simp: same_gates_def)
  with assms(1) show ?thesis by (intro kept_same) auto
next
  case (WDelOk item r)
  with assms(3) have "same_gates c c' \<and> waits_within n w'" for n
    by (auto simp: step_del_ok_def step_hook_def split: sum.splits if_splits dest!: item_done_gates [of _ _ _ n] worker_dies_gates [of _ _ _ _ n])
       (auto simp: same_gates_def)
  with assms(1) show ?thesis by (intro kept_same) auto
next
  case (WHook item r)
  with assms(3) have "same_gates c c' \<and> waits_within n w'" for n
    by (auto simp: step_hook_def dest!: item_done_gates [of _ _ _ n]) (auto simp: same_gates_def)
  with assms(1) show ?thesis by (intro kept_same) auto
qed (use assms in auto)

section \<open>Every step keeps them\<close>

lemma gates_ok_same:
  assumes "gates_ok c" and "same_gates c c'" and "set (c_workers c') \<subseteq> set (c_workers c) \<union> {WIdle}"
  shows "gates_ok c'"
  using assms same_gates_gates [OF assms(2)] by (auto simp: gates_ok_def same_gates_def)

lemma request_begin_gates: "same_gates c (request_begin req c)" "c_workers (request_begin req c) = c_workers c"
  by (simp_all add: request_begin_def same_gates_def split: prod.split)

lemma caller_segment_gates:
  "caller_segment ev p c = Some (p', c') \<Longrightarrow> same_gates c c' \<and> c_workers c' = c_workers c"
  by (cases p) (auto simp: caller_persist_def caller_enqueue_def caller_wake_def same_gates_def
      split: sum.splits option.splits future.splits)

lemma start_segment_gates:
  "start_segment c = Some c' \<Longrightarrow> same_gates c c' \<and> set (c_workers c') \<subseteq> set (c_workers c) \<union> {WIdle}"
  by (auto simp: start_segment_def start_finish_def recover_row_def same_gates_def Let_def
      split: phase.splits list.splits option.splits prod.splits if_splits)

lemma stop_segment_gates: "stop_segment c = Some c' \<Longrightarrow> same_gates c c' \<and> set (c_workers c') \<subseteq> set (c_workers c)"
  by (auto simp: stop_segment_def stop_finish_def same_gates_def split: phase.splits if_splits)

lemma client_step_gates: "client_step c c' \<Longrightarrow> gates_ok c \<Longrightarrow> gates_ok c'"
proof (induction rule: client_step.induct)
  case (request req c)
  show ?case by (rule gates_ok_same [OF request.prems]) (auto simp: request_begin_gates)
next
  case (caller_moves i c ev p c')
  show ?case using caller_segment_gates [OF caller_moves.hyps(2)]
    by (intro gates_ok_same [OF caller_moves.prems]) (auto simp: same_gates_def)
next
  case (worker_moves i c ev w c')
  have "c_workers c' = c_workers c" using worker_segment_workers [OF worker_moves.hyps(2)] .
  moreover have k: "kept c w c'"
    by (rule worker_segment_kept [OF _ _ worker_moves.hyps(2)]) (use worker_moves in \<open>auto simp: gates_ok_def\<close>)
  moreover have "waits_within (length (l_heap (c_rate_limiter c'))) v" if "v \<in> set (c_workers c)" for v
    using worker_moves.prems that k waits_within_mono by (auto simp: gates_ok_def kept_def)
  ultimately show ?case
    using set_update_subset_insert [of "c_workers c" i w] by (auto simp: gates_ok_def kept_def gates_def)
next
  case (reschedule k c c')
  then have "same_gates c c'" "c_workers c' = c_workers c"
    by (auto simp: reschedule_fires_def Let_def same_gates_def split: if_splits option.splits)
  then show ?case by (intro gates_ok_same [OF reschedule.prems]) auto
next
  case (starting c fid t)
  have "same_gates c (snd (start_begin fid t c))" "c_workers (snd (start_begin fid t c)) = c_workers c"
    by (auto simp: start_begin_def Let_def same_gates_def split: sum.splits)
  then show ?case by (intro gates_ok_same [OF starting.prems]) auto
next
  case (start_moves c c')
  then show ?case using start_segment_gates gates_ok_same by blast
next
  case (stop_moves c c')
  then show ?case using stop_segment_gates gates_ok_same by blast
qed (auto simp: stop_begin_def client_metrics_def set_response_hook_def Let_def same_gates_def gates_ok_def gates_def)

lemma client_init_gates: "client_init c \<Longrightarrow> gates_ok c"
proof -
  assume "client_init c"
  then obtain cfg db where "new_Client cfg db = Inr c" by (auto simp: client_init_def)
  then have "c_breakers c = new_HostCircuitBreakers (circuit_breaker cfg)" "c_cfg c = cfg"
    "c_rate_limiter c = new_HostRateLimiter (rate_limit cfg)" "c_workers c = []"
    by (auto simp: new_Client_def split: sum.splits)
  then show ?thesis
    using new_limiter_ok [of "rate_limit cfg"]
    by (simp add: gates_ok_def gates_def breakers_ok_def buckets_ok_def new_HostCircuitBreakers_def)
       (simp add: new_HostRateLimiter_def)
qed

interpretation clg: invariant_system client_init client_step gates_ok
  by unfold_locales (auto intro: client_step_gates client_init_gates)

section \<open>Properties\<close>



end
