(* ===== verification/Client_Retry.thy ===== *)
theory Client_Retry
  imports Client_Gates
begin

text \<open>
  A request through any number of failed attempts: each failure goes through the log, a reschedule task
  and the queue back to a worker, the breaker opening and cooling down as it may, until an attempt
  succeeds.
\<close>

section \<open>Admitted again\<close>

lemma bucket_again:
  assumes "bucket_ok b"
  shows "\<exists>t0. \<forall>t \<ge> t0. fst (acquire_step 1 t b) = Acquired"
proof (intro exI [of _ "b_last b + 1 / b_rate b"] allI impI)
  fix t assume t: "b_last b + 1 / b_rate b \<le> t"
  have r: "0 < b_rate b" "1 \<le> b_capacity b" "0 \<le> b_tokens b" using assms by (simp_all add: bucket_ok_def)
  have "1 / b_rate b \<le> t - b_last b" using t by simp
  then have "1 \<le> (t - b_last b) * b_rate b" using r(1) by (simp add: field_simps)
  moreover have "0 < 1 / b_rate b" using r(1) by simp
  then have "b_last b < t" using t by linarith
  ultimately show "fst (acquire_step 1 t b) = Acquired" using r by (simp add: acquire_step_def refill_def Let_def)
qed

lemma breaker_again:
  assumes "cb_state cb \<noteq> HALF_OPEN" and "0 < half_open_max_probes (cb_cfg cb)"
  shows "\<exists>t0. \<forall>t \<ge> t0. fst (before_call t cb) = None"
  using assms by (intro exI [of _ "cb_opened_at cb + open_seconds (cb_cfg cb)"])
    (cases "cb_state cb"; auto simp: before_call_def take_probe_def)

lemma for_url_breaker:
  assumes "for_url url reg = Inr (host, reg')"
  shows "breaker_at reg' host = breaker_at reg host"
  using assms by (auto simp: for_url_def breaker_at_def dget_dset split: sum.splits option.splits)

text \<open>A rested host is admitted from some time on.\<close>

lemma rested_again:
  assumes "gates c" and "rested url (c_breakers c) (c_rate_limiter c)"
    and "0 < half_open_max_probes (circuit_breaker (c_cfg c))"
  shows "\<exists>t0. \<forall>t \<ge> t0. admitted t url c"
proof -
  obtain host i where host: "host_of url = Inr host" "dget (l_buckets (c_rate_limiter c)) host = Some i"
    "cb_state (breaker_at (c_breakers c) host) \<noteq> HALF_OPEN" using assms(2) by (auto simp: rested_def)
  have g: "breakers_ok (circuit_breaker (c_cfg c)) (c_breakers c)" "limiter_ok (c_rate_limiter c)"
    using assms(1) by (simp_all add: gates_def buckets_ok_def)
  obtain reg' where f: "for_url url (c_breakers c) = Inr (host, reg')" using host(1)
    by (cases "dget (h_breakers (c_breakers c)) host") (auto simp: for_url_def)
  have "cb_cfg (breaker_at (c_breakers c) host) = circuit_breaker (c_cfg c)" using breaker_at_ok [OF g(1)] by simp
  then obtain t1 where t1: "\<And>t. t1 \<le> t \<Longrightarrow> fst (before_call t (breaker_at reg' host)) = None"
    using breaker_again [OF host(3)] assms(3) for_url_breaker [OF f] by auto
  have "bucket_ok (l_heap (c_rate_limiter c) ! i)" using g(2) host(2) by (auto simp: limiter_ok_def)
  then obtain t2 where t2: "\<And>t. t2 \<le> t \<Longrightarrow> fst (acquire_step 1 t (l_heap (c_rate_limiter c) ! i)) = Acquired"
    using bucket_again by blast
  have "admitted t url c" if "max t1 t2 \<le> t" for t
  proof -
    have "fst (bucket_step i t (c_rate_limiter c)) = Acquired" using t2 [of t] that by (cases "acquire_step 1 t (l_heap (c_rate_limiter c) ! i)") (auto simp: bucket_step_def split: prod.splits)
    moreover have "bucket_for url t (c_rate_limiter c) = Inr (i, c_rate_limiter c)" using host by (simp add: bucket_for_def)
    ultimately show ?thesis using f t1 [of t] that by (simp add: admitted_def)
  qed
  then show ?thesis by blast
qed

section \<open>One failed attempt\<close>

text \<open>An answer that is worth another attempt and that the breaker is told about.\<close>

definition transient :: "Request \<Rightarrow> http_outcome \<Rightarrow> bool" where
  "transient req outcome \<longleftrightarrow>
     (case execute_request req 0 outcome of
        Inl e \<Rightarrow> fst (classify e) \<and> is_RetryableError (snd (classify e))
      | Inr _ \<Rightarrow> False)"

lemma execute_fails_any: "execute_request req n outcome = Inl e \<Longrightarrow> execute_request req m outcome = Inl e"
  by (auto simp: execute_request_def Let_def split: http_outcome.splits if_splits)

text \<open>The request waits in the queue for attempt \<open>n\<close>, its caller (the last one) on the future \<open>f\<close>.\<close>

definition queued :: "Request \<Rightarrow> int \<Rightarrow> nat \<Rightarrow> nat \<Rightarrow> Client \<Rightarrow> bool" where
  "queued req n f i c \<longleftrightarrow> q_items (c_queue c) = [\<lparr>qi_request = req, qi_attempt = n\<rparr>] \<and> 0 < q_max (c_queue c)
     \<and> 0 < q_unfinished (c_queue c) \<and> st_open (c_storage c) \<and> i < length (c_workers c) \<and> c_workers c ! i = WIdle
     \<and> row_count (st_db (c_storage c)) (idempotency_key req) = Some n \<and> reg_ok (c_dedup c)
     \<and> pending_for (c_dedup c) (idempotency_key req) = Some f \<and> \<not> c_stopping c"

text \<open>What an attempt does not touch.\<close>

definition same_rest :: "Client \<Rightarrow> Client \<Rightarrow> bool" where
  "same_rest c c' \<longleftrightarrow> c_callers c' = c_callers c \<and> c_cfg c' = c_cfg c \<and> c_reschedules c' = c_reschedules c
     \<and> dead_letter_queue (st_db (c_storage c')) = dead_letter_queue (st_db (c_storage c))"

lemma fail_once:
  assumes q: "queued req n f i c" and adm: "admitted t (req_url req) c" and tr: "transient req outcome"
    and n: "0 \<le> n" "n < max_retries (retry (c_cfg c))" "n < 1024"
  shows "\<exists>c'. client_step\<^sup>*\<^sup>* c c' \<and> queued req (n + 1) f i c' \<and> same_rest c c'
     \<and> rested (req_url req) (c_breakers c') (c_rate_limiter c')
     \<and> retries_performed (c_metrics c') = retries_performed (c_metrics c) + 1"
proof -
  let ?item = "\<lparr>qi_request = req, qi_attempt = n\<rparr>" and ?ev = "\<lparr>e_now = t, e_rand = 0, e_http = outcome\<rparr>"
  let ?item' = "\<lparr>qi_request = req, qi_attempt = n + 1\<rparr>"
  obtain e0 where e0: "execute_request req n outcome = Inl e0" "fst (classify e0)" "is_RetryableError (snd (classify e0))"
    using tr execute_fails_any [of req 0 outcome _ n] by (auto simp: transient_def split: sum.splits)
  obtain d where d: "backoff_seconds (retry (c_cfg c)) n (retry_after_of (snd (classify e0))) 0 = Inr d"
    using backoff_finite [OF n(3), of 0 "retry (c_cfg c)" "retry_after_of (snd (classify e0))"] by auto
  have c: "q_items (c_queue c) = [?item]" "st_open (c_storage c)" "0 < q_unfinished (c_queue c)" "i < length (c_workers c)"
    "c_workers c ! i = WIdle" "row_count (st_db (c_storage c)) (item_key ?item) = Some (qi_attempt ?item)"
    using q by (simp_all add: queued_def item_key_def)
  have adm': "admitted (e_now ?ev) (req_url (qi_request ?item)) c" using adm by simp
  have ex: "execute_request (qi_request ?item) (qi_attempt ?item) (e_http ?ev) = Inl e0" using e0(1) by simp
  have cl: "classify e0 = (True, snd (classify e0))" using e0(2) by (simp add: prod_eq_iff)
  have sr: "should_retry (retry (c_cfg c)) (qi_attempt ?item)" using n(2) by (simp add: should_retry_def)
  have bo: "backoff_seconds (retry (c_cfg c)) (qi_attempt ?item) (retry_after_of (snd (classify e0))) (e_rand ?ev) = Inr d"
    using d by simp
  obtain c1 where c1: "worker_run [?ev, ?ev, ?ev, ?ev] WIdle c = Some (WIdle, c1)"
    "c_reschedules c1 = c_reschedules c @ [(?item', d)]"
    "row_count (st_db (c_storage c1)) = (row_count (st_db (c_storage c)))(idempotency_key req \<mapsto> n + 1)"
    "c_dedup c1 = c_dedup c" "c_callers c1 = c_callers c" "c_workers c1 = c_workers c" "c_cfg c1 = c_cfg c"
    "c_stopping c1 = c_stopping c" "st_open (c_storage c1)"
    "c_queue c1 = (c_queue c)\<lparr>q_items := [], q_unfinished := q_unfinished (c_queue c) - 1\<rparr>"
    "dead_letter_queue (st_db (c_storage c1)) = dead_letter_queue (st_db (c_storage c))"
    "retries_performed (c_metrics c1) = retries_performed (c_metrics c) + 1"
    "rested (req_url req) (c_breakers c1) (c_rate_limiter c1)"
    using retry_run [OF c(1) adm' ex cl e0(3) sr bo c(2,3,6)] by (simp add: item_key_def) blast
  let ?c1 = "c1\<lparr>c_workers := (c_workers c)[i := WIdle]\<rparr>"
  have s1: "client_step\<^sup>*\<^sup>* c ?c1" using worker_run_client [OF _ c(4)] c1(1) c(5) by metis
  let ?k = "length (c_reschedules c)"
  let ?c2 = "?c1\<lparr>c_reschedules := c_reschedules c, c_queue := put (c_queue ?c1) ?item'\<rparr>"
  have "reschedule_fires ?k ?c1 = Some ?c2"
    using c1(2,8,10) q by (simp add: reschedule_fires_def remove_nth_def enqueue_def is_full_def depth_def queued_def)
  then have "client_step ?c1 ?c2" by (intro client_step.reschedule [of ?k]) (simp_all add: c1(2))
  with s1 have s: "client_step\<^sup>*\<^sup>* c ?c2" by simp
  have id: "(c_workers c)[i := WIdle] = c_workers c" using c(5) list_update_id by metis
  have "queued req (n + 1) f i ?c2"
    using q c1(3,4,8-10) by (simp add: queued_def put_def id)
  then show ?thesis using s c1 by (intro exI [of _ ?c2]) (simp add: same_rest_def)
qed

section \<open>Any number of them, then a success\<close>

lemma fail_many:
  assumes "gates_ok c" and "queued req n f i c" and "admitted t (req_url req) c"
    and "\<forall>outcome \<in> set fails. transient req outcome" and "0 \<le> n"
    and "n + int (length fails) \<le> max_retries (retry (c_cfg c))" and "n + int (length fails) \<le> 1024"
    and "0 < half_open_max_probes (circuit_breaker (c_cfg c))"
  shows "\<exists>c' t'. client_step\<^sup>*\<^sup>* c c' \<and> queued req (n + int (length fails)) f i c' \<and> same_rest c c'
     \<and> admitted t' (req_url req) c'
     \<and> retries_performed (c_metrics c') = retries_performed (c_metrics c) + int (length fails)"
  using assms
proof (induction fails arbitrary: c n t)
  case Nil
  then show ?case by (intro exI [of _ c] exI [of _ t]) (simp add: same_rest_def)
next
  case (Cons outcome fails)
  obtain c1 where c1: "client_step\<^sup>*\<^sup>* c c1" "queued req (n + 1) f i c1" "same_rest c c1"
    "rested (req_url req) (c_breakers c1) (c_rate_limiter c1)"
    "retries_performed (c_metrics c1) = retries_performed (c_metrics c) + 1"
    using fail_once [OF Cons.prems(2,3), of outcome] Cons.prems(4-7) by auto
  have g: "gates_ok c1" using clg.steps_inv [OF c1(1) Cons.prems(1)] .
  have cfg: "c_cfg c1 = c_cfg c" using c1(3) by (simp add: same_rest_def)
  obtain t1 where t1: "admitted t1 (req_url req) c1"
    using rested_again [OF _ c1(4)] g Cons.prems(8) cfg by (auto simp: gates_ok_def)
  obtain c' t' where c': "client_step\<^sup>*\<^sup>* c1 c'" "queued req (n + 1 + int (length fails)) f i c'" "same_rest c1 c'"
    "admitted t' (req_url req) c'" "retries_performed (c_metrics c') = retries_performed (c_metrics c1) + int (length fails)"
    using Cons.IH [OF g c1(2) t1] Cons.prems(4-8) cfg by (auto simp: algebra_simps)
  have "same_rest c c'" using c1(3) c'(3) by (simp add: same_rest_def)
  then show ?case
    using rtranclp_trans [OF c1(1) c'(1)] c'(2,4,5) c1(5)
    by (intro exI [of _ c'] exI [of _ t']) (simp add: algebra_simps)
qed

lemma queued_serves:
  assumes q: "queued req n f i c" and adm: "admitted t (req_url req) c" and ex: "execute_request req n outcome = Inr resp"
    and caller: "c_callers c = ps @ [CAwait f]"
  shows "\<exists>c'. client_step\<^sup>*\<^sup>* c c' \<and> c_callers c' = ps @ [CReturned resp]
     \<and> row_count (st_db (c_storage c')) (idempotency_key req) = None
     \<and> pending_for (c_dedup c') (idempotency_key req) = None
     \<and> dead_letter_queue (st_db (c_storage c')) = dead_letter_queue (st_db (c_storage c))"
proof -
  let ?item = "\<lparr>qi_request = req, qi_attempt = n\<rparr>"
  have c: "q_items (c_queue c) = [?item]" "admitted t (req_url (qi_request ?item)) c"
    "execute_request (qi_request ?item) (qi_attempt ?item) outcome = Inr resp" "st_open (c_storage c)"
    "0 < q_unfinished (c_queue c)" "i < length (c_workers c)" "c_workers c ! i = WIdle"
    using q adm ex by (simp_all add: queued_def)
  obtain c1 where c1: "client_step\<^sup>*\<^sup>* c c1" "c_dedup c1 = resolve (c_dedup c) (idempotency_key req) resp"
    "c_callers c1 = c_callers c" "row_count (st_db (c_storage c1)) (idempotency_key req) = None"
    "dead_letter_queue (st_db (c_storage c1)) = dead_letter_queue (st_db (c_storage c))"
    using serve_steps [OF c] by (auto simp: item_key_def)
  let ?c2 = "c1\<lparr>c_callers := (c_callers c1)[length ps := CReturned resp]\<rparr>"
  have w: "caller_segment undefined (CAwait f) c1 = Some (CReturned resp, c1)" "pending_for (c_dedup c1) (idempotency_key req) = None"
    using resolved_wakes [of c "idempotency_key req" f c1 resp] q c1(2) by (auto simp: queued_def)
  have "client_step c1 ?c2"
    by (rule client_step.caller_moves [of _ _ undefined]) (use c1(3) caller w(1) in auto)
  with c1(1) have "client_step\<^sup>*\<^sup>* c ?c2" by simp
  then show ?thesis using c1(3-5) caller w(2) by (intro exI [of _ ?c2]) simp
qed

lemma queued_begins:
  assumes "client_ok c" and "ready now req i c" and "request_payload req = Inr payload" and "\<not> c_stopping c"
  shows "\<exists>f c'. client_step\<^sup>*\<^sup>* (request_begin req c) c' \<and> c_callers c' = c_callers c @ [CAwait f]
     \<and> dead_letter_queue (st_db (c_storage c')) = dead_letter_queue (st_db (c_storage c))
     \<and> admitted now (req_url req) c' \<and> c_cfg c' = c_cfg c \<and> queued req 0 f i c'"
proof -
  obtain f c' where "client_step\<^sup>*\<^sup>* (request_begin req c) c'" "c_callers c' = c_callers c @ [CAwait f]"
    "pending_for (c_dedup c') (idempotency_key req) = Some f" "reg_ok (c_dedup c')"
    "row_count (st_db (c_storage c')) = (row_count (st_db (c_storage c)))(idempotency_key req \<mapsto> 0)"
    "dead_letter_queue (st_db (c_storage c')) = dead_letter_queue (st_db (c_storage c))"
    "q_items (c_queue c') = [\<lparr>qi_request = req, qi_attempt = 0\<rparr>]" "0 < q_unfinished (c_queue c')"
    "st_open (c_storage c')" "admitted now (req_url req) c'" "c_workers c' = c_workers c"
    "c_cfg c' = c_cfg c" "c_stopping c' = c_stopping c" "q_max (c_queue c') = q_max (c_queue c)"
    using queued_steps [OF assms(1-3)] by blast
  then show ?thesis using assms(2,4) by (intro exI [of _ f] exI [of _ c']) (auto simp: queued_def ready_def)
qed

lemma retried_steps:
  assumes ok: "client_ok c" and g: "gates_ok c" and r: "ready now req i c" and ns: "\<not> c_stopping c"
    and req: "req_ok req" and pl: "request_payload req = Inr payload"
    and fails: "\<forall>outcome \<in> set fails. transient req outcome"
    and "int (length fails) \<le> max_retries (retry (c_cfg c))" and "length fails \<le> 1024"
    and "0 < half_open_max_probes (circuit_breaker (c_cfg c))"
    and ex: "execute_request req (int (length fails)) outcome = Inr resp"
  shows "\<exists>c'. client_step\<^sup>*\<^sup>* c c' \<and> c_callers c' = c_callers c @ [CReturned resp]
     \<and> row_count (st_db (c_storage c')) (idempotency_key req) = None
     \<and> pending_for (c_dedup c') (idempotency_key req) = None
     \<and> dead_letter_queue (st_db (c_storage c')) = dead_letter_queue (st_db (c_storage c))"
proof -
  obtain f c1 where s1: "client_step\<^sup>*\<^sup>* (request_begin req c) c1" and c1: "c_callers c1 = c_callers c @ [CAwait f]"
    "dead_letter_queue (st_db (c_storage c1)) = dead_letter_queue (st_db (c_storage c))"
    "admitted now (req_url req) c1" "c_cfg c1 = c_cfg c" "queued req 0 f i c1"
    using queued_begins [OF ok r pl ns] by blast
  have "client_step\<^sup>*\<^sup>* c c1" by (rule begin_steps [OF req s1])
  from clg.steps_inv [OF this g] have g1: "gates_ok c1" .
  obtain c2 t2 where c2: "client_step\<^sup>*\<^sup>* c1 c2" "queued req (int (length fails)) f i c2" "same_rest c1 c2"
    "admitted t2 (req_url req) c2"
    using fail_many [OF g1 c1(5,3) fails] assms(8-10) c1(4) by auto
  have "c_callers c2 = c_callers c @ [CAwait f]" using c2(3) c1(1) by (simp add: same_rest_def)
  from queued_serves [OF c2(2,4) ex this] obtain c3 where c3: "client_step\<^sup>*\<^sup>* c2 c3" "c_callers c3 = c_callers c @ [CReturned resp]"
    "row_count (st_db (c_storage c3)) (idempotency_key req) = None" "pending_for (c_dedup c3) (idempotency_key req) = None"
    "dead_letter_queue (st_db (c_storage c3)) = dead_letter_queue (st_db (c_storage c2))" by blast
  have "client_step\<^sup>*\<^sup>* c c3" using \<open>client_step\<^sup>*\<^sup>* c c1\<close> c2(1) c3(1) by (meson rtranclp_trans)
  with c3(2-5) c2(3) c1(2) show ?thesis by (auto simp: same_rest_def)
qed

section \<open>Properties\<close>



end
