(* ===== verification/Client_Cancel.thy ===== *)
theory Client_Cancel
  imports Client_Demo
begin

text \<open>
  Cancelling the task of a caller, as a timeout around \<open>request\<close> does. The interleavings of the client
  leave it out, because the guarantees of the other theories do not survive it: the future a caller
  awaits is shared and not shielded.
\<close>

section \<open>Task.cancel on a caller\<close>

text \<open>
  A task that awaits a pending future cancels that future and is woken by it; one whose future is done,
  or that waits for a queue slot, gets the \<open>CancelledError\<close> itself. So does one inside the call to the
  database; whether its statement still runs is up to the thread of the database (\<open>written\<close>). A
  cancellation of a task that has ended has no effect.
\<close>

definition cancelled_write :: "env \<Rightarrow> bool \<Rightarrow> Request \<Rightarrow> Storage \<Rightarrow> Storage" where
  "cancelled_write ev written req s =
     (if written then (case upsert_inflight req STATUS_PENDING 0 None (e_now ev) s of Inl _ \<Rightarrow> s | Inr (_, s') \<Rightarrow> s') else s)"

definition cancel_caller :: "env \<Rightarrow> bool \<Rightarrow> nat \<Rightarrow> Client \<Rightarrow> Client" where
  "cancel_caller ev written i c =
     (case c_callers c ! i of
        CUpsert req _ \<Rightarrow>
          c\<lparr>c_callers := (c_callers c)[i := CFailed CancelledError], c_storage := cancelled_write ev written req (c_storage c)\<rparr>
      | CEnqueue _ _ \<Rightarrow> c\<lparr>c_callers := (c_callers c)[i := CFailed CancelledError]\<rparr>
      | CAwait f \<Rightarrow>
          (if fut_done (c_dedup c) f then c\<lparr>c_callers := (c_callers c)[i := CFailed CancelledError]\<rparr>
           else c\<lparr>c_dedup := cancel_waiter (c_dedup c) f\<rparr>)
      | _ \<Rightarrow> c)"

lemma cancelled_future:
  assumes "reg_ok reg" and "pending_for reg k = Some f"
  shows "\<not> fut_done reg f" "fut_state (cancel_waiter reg f) f = Cancelled" "pending_for (cancel_waiter reg f) k = None"
proof -
  have f: "dget (r_inflight reg) k = Some f" "\<not> fut_done reg f"
    using assms(2) by (auto simp: pending_for_def split: option.splits if_splits)
  then have "f < length (r_futures reg)" using assms(1) by (simp add: reg_ok_def)
  with f show "\<not> fut_done reg f" "fut_state (cancel_waiter reg f) f = Cancelled" "pending_for (cancel_waiter reg f) k = None"
    by (simp_all add: cancel_waiter_def fut_state_def pending_for_def fut_done_def)
qed

lemma owner_begins:
  assumes "c_session c" and "pending_for (c_dedup c) (idempotency_key req) = None"
  shows "\<exists>g d. request_begin req c = c\<lparr>c_dedup := d, c_callers := c_callers c @ [CUpsert req g]\<rparr>"
proof -
  obtain d where "get_or_create (c_dedup c) (idempotency_key req) = ((length (r_futures (c_dedup c)), True), d)"
    using get_or_create_miss [OF assms(2)] by simp
  with assms(1) show ?thesis by (auto simp: request_begin_def)
qed

text \<open>A caller that gives up before its item is in the queue leaves a client that is well formed.\<close>

lemma caller_lost:
  assumes ok: "client_ok c" and i: "i < length (c_callers c)" and j: "caller_jobs (c_callers c ! i) = {#(k, x)#}"
    and c': "c' = c\<lparr>c_callers := (c_callers c)[i := CFailed e], c_metrics := m\<rparr>"
  shows "client_ok c' \<and> jobs (abs_client c) = add_mset (k, x) (jobs (abs_client c'))
     \<and> pend (abs_client c') = pend (abs_client c) \<and> rows (abs_client c') = rows (abs_client c)"
proof -
  obtain F where F: "sum_list (map caller_jobs (c_callers c)) = F + caller_jobs (c_callers c ! i)"
    "\<And>y. sum_list (map caller_jobs ((c_callers c)[i := y])) = F + caller_jobs y"
    using sum_list_update_mset [OF i, of caller_jobs] by blast
  have abs: "jobs (abs_client c) = add_mset (k, x) (jobs (abs_client c'))"
    "pend (abs_client c') = pend (abs_client c)" "rows (abs_client c') = rows (abs_client c)"
    using F j by (simp_all add: c' abs_client_def flow_def task_jobs_def)
  then have "abs_client c' = \<lparr>jobs = jobs (abs_client c'), pend = pend (abs_client c), rows = rows (abs_client c)\<rparr>" by simp
  then have "ledger_step (abs_client c) (abs_client c')" using l_lose [OF abs(1)] by simp
  then have "ledger_inv (abs_client c')" by (rule ledger_step_inv [OF client_okD(6) [OF ok]])
  moreover have "held c' \<subseteq> held c"
    using set_update_Union [of caller_reqs "c_callers c" i "CFailed e"] by (auto simp: c' held_def pool_def)
  ultimately show ?thesis
    using ok abs by (auto simp: client_ok_def core_ok_def phase_ok_def fresh_rows_def unfinished_ok_def c' split: phase.splits)
qed

lemma cancelled_lost:
  assumes ok: "client_ok c" and i: "i < length (c_callers c)" and at: "c_callers c ! i = CUpsert req f \<or> c_callers c ! i = CEnqueue req f"
  shows "\<exists>c0 x. client_step\<^sup>*\<^sup>* c c0 \<and> jobs (abs_client c0) = add_mset (idempotency_key req, x) (jobs (abs_client (cancel_caller ev written i c)))
     \<and> client_ok (cancel_caller ev written i c) \<and> pend (abs_client (cancel_caller ev written i c)) = pend (abs_client c0)
     \<and> rows (abs_client (cancel_caller ev written i c)) = rows (abs_client c0) \<and> c_dedup c0 = c_dedup c"
proof (cases "\<exists>s. written \<and> c_callers c ! i = CUpsert req f \<and> upsert_inflight req STATUS_PENDING 0 None (e_now ev) (c_storage c) = Inr ((), s)")
  case True
  then obtain s where s: "written" "c_callers c ! i = CUpsert req f"
    "upsert_inflight req STATUS_PENDING 0 None (e_now ev) (c_storage c) = Inr ((), s)" by blast
  obtain d where d: "caller_persist ev req f c = (CEnqueue req f, d)" "c_storage d = s" "c_callers d = c_callers c"
    "d = c\<lparr>c_storage := s, c_metrics := c_metrics d\<rparr>"
    using s(3) by (simp add: caller_persist_def)
  let ?c0 = "d\<lparr>c_callers := (c_callers d)[i := CEnqueue req f]\<rparr>"
  have step: "client_step c ?c0" using s(2) d(1) by (intro client_step.caller_moves [OF i, of ev]) simp
  have "cancel_caller ev written i c = c\<lparr>c_storage := s, c_callers := (c_callers c)[i := CFailed CancelledError]\<rparr>"
    using s by (simp add: cancel_caller_def cancelled_write_def)
  also have "\<dots> = ?c0\<lparr>c_callers := (c_callers ?c0)[i := CFailed CancelledError], c_metrics := c_metrics c\<rparr>"
    by (subst d(4)) (simp add: d(3))
  finally have c': "cancel_caller ev written i c = \<dots>" .
  have j: "i < length (c_callers ?c0)" "caller_jobs (c_callers ?c0 ! i) = {#(idempotency_key req, Some 0)#}" using i d(3) by simp_all
  have "client_ok ?c0" using client_step_both [OF ok step] by simp
  from caller_lost [OF this j c'] step have "client_step\<^sup>*\<^sup>* c ?c0 \<and> jobs (abs_client ?c0) = add_mset (idempotency_key req, Some 0) (jobs (abs_client (cancel_caller ev written i c)))
     \<and> client_ok (cancel_caller ev written i c) \<and> pend (abs_client (cancel_caller ev written i c)) = pend (abs_client ?c0)
     \<and> rows (abs_client (cancel_caller ev written i c)) = rows (abs_client ?c0)" by blast
  moreover have "c_dedup ?c0 = c_dedup c" by (subst d(4)) simp
  ultimately show ?thesis by blast
next
  case False
  have "cancel_caller ev written i c = c\<lparr>c_callers := (c_callers c)[i := CFailed CancelledError], c_metrics := c_metrics c\<rparr>"
    using at False by (auto simp: cancel_caller_def cancelled_write_def split: sum.splits)
  moreover obtain x where "caller_jobs (c_callers c ! i) = {#(idempotency_key req, x)#}" using at by auto
  ultimately show ?thesis using caller_lost [OF ok i] by blast
qed

section \<open>Properties\<close>

text \<open>C27: Cancelling one caller is not confined to it: every caller that shares its future is
  cancelled too, the work goes on without anybody waiting, and the next request for the key is taken
  for new, so that two units of work exist for one key.\<close>

theorem cancel_spreads:
  assumes "reach client_init client_step c" and "c_session c" and "i < length (c_callers c)" and "j < length (c_callers c)"
    and "c_callers c ! i = CAwait f" and "c_callers c ! j = CAwait f"
    and "pending_for (c_dedup c) (idempotency_key req) = Some f" and "idempotency_key req \<in># keys_of (abs_client c)"
    and "c' = cancel_caller ev' written i c"
  shows "caller_segment ev (c_callers c' ! j) c' = Some (CFailed CancelledError, c')
     \<and> (\<exists>g. c_callers (request_begin req c') = c_callers c' @ [CUpsert req g])
     \<and> count (keys_of (abs_client (request_begin req c'))) (idempotency_key req) = 2"
proof -
  have ok: "client_ok c" by (rule cl.reach_inv [OF assms(1)])
  note cf = cancelled_future [OF client_okD(1) [OF ok] assms(7)]
  have c': "c' = c\<lparr>c_dedup := cancel_waiter (c_dedup c) f\<rparr>" using assms(5,9) cf(1) by (simp add: cancel_caller_def)
  have "caller_segment ev (c_callers c' ! j) c' = Some (CFailed CancelledError, c')"
    using assms(6) cf(2) by (simp add: c' caller_wake_def)
  moreover have "pending_for (c_dedup c') (idempotency_key req) = None" "c_session c'" using cf(3) assms(2) by (simp_all add: c')
  then obtain g d where b: "request_begin req c' = c'\<lparr>c_dedup := d, c_callers := c_callers c' @ [CUpsert req g]\<rparr>"
    using owner_begins by blast
  have "jobs (abs_client (request_begin req c')) = add_mset (idempotency_key req, None) (jobs (abs_client c))"
    by (simp add: b abs_client_def flow_def task_jobs_def) (simp add: c')
  moreover have "count (keys_of (abs_client c)) (idempotency_key req) = 1"
    using assms(8) ledger_invD(1) [OF client_okD(6) [OF ok], of "idempotency_key req"] by (simp add: count_eq_zero_iff order_antisym Suc_le_eq)
  ultimately show ?thesis using b by (auto simp: keys_of_def)
qed

theorem cancel_spreads_witness:
  "\<exists>c c' f. reach client_init client_step c \<and> c_callers c = [CAwait f, CAwait f] \<and> c' = cancel_caller env404 False 0 c
     \<and> count (keys_of (abs_client (request_begin sample_request c'))) (idempotency_key sample_request) = 2"
proof -
  obtain c f where c: "reach client_init client_step c" "c_callers c = [CAwait f]" "q_items (c_queue c) = [demo_item]"
    "pending_for (c_dedup c) (item_key demo_item) = Some f" "c_session c"
    using demo_submitted by blast
  have k: "item_key demo_item = idempotency_key sample_request" by (simp add: item_key_def)
  let ?c = "request_begin sample_request c"
  have "client_step c ?c" by (rule client_step.request [OF sample_request_ok])
  with c(1) have r: "reach client_init client_step ?c" by (rule reach_next)
  have b: "?c = c\<lparr>c_dedup := (c_dedup c)\<lparr>dedup_hits := dedup_hits (c_dedup c) + 1\<rparr>, c_callers := [CAwait f, CAwait f]\<rparr>"
    using c(2,4,5) k by (simp add: request_begin_def get_or_create_hit)
  have p: "pending_for (c_dedup ?c) (idempotency_key sample_request) = Some f"
    using c(4) k by (simp add: b pending_for_def fut_done_def)
  have m: "idempotency_key sample_request \<in># keys_of (abs_client ?c)"
    using c(3) k by (simp add: b keys_of_def abs_client_def flow_def item_job_def)
  have s: "c_session ?c" "0 < length (c_callers ?c)" "1 < length (c_callers ?c)" "c_callers ?c ! 0 = CAwait f" "c_callers ?c ! 1 = CAwait f"
    using c(5) by (simp_all add: b)
  have "c_callers ?c = [CAwait f, CAwait f]" by (simp add: b)
  then show ?thesis using r cancel_spreads [OF r s p m refl] by blast
qed



end
