(* ===== verification/Client_Corrupt.thy ===== *)
theory Client_Corrupt
  imports Client_Share
begin

text \<open>
  A client on a file with a row it cannot read. \<open>start\<close> raises before the workers exist but after the
  session does, so calling it again does nothing; whatever else happens, no worker ever runs.
\<close>

section \<open>Rows that cannot be read\<close>

text \<open>The payload is not JSON, or not of a request, whatever identifier and time are filled in.\<close>

definition unreadable :: "inflight_rec \<Rightarrow> bool" where
  "unreadable r \<longleftrightarrow> (\<forall>fid t. isl (parse_payload fid t (i_payload r)))"

definition spoiled :: "Storage \<Rightarrow> bool" where
  "spoiled s \<longleftrightarrow> st_path s \<noteq> '':memory:'' \<and> (\<exists>r \<in> set (inflight_requests (st_db s)). unreadable r)"

lemma collect_isl: "x \<in> set xs \<Longrightarrow> isl x \<Longrightarrow> isl (collect xs)"
  by (induction xs) (auto split: sum.splits)

lemma spoiled_list:
  assumes "spoiled s"
  shows "isl (list_inflight fid t s)"
proof -
  from assms obtain r where r: "r \<in> set (inflight_requests (st_db s))" "unreadable r" by (auto simp: spoiled_def)
  from r(2) have "isl (parse_payload fid t (i_payload r))" by (simp add: unreadable_def)
  then have "isl (decode_inflight fid t r)" by (auto simp: decode_inflight_def isl_def)
  then have "isl (collect (map (decode_inflight fid t) (sort_key i_created_at (inflight_requests (st_db s)))))"
    using r(1) by (intro collect_isl [of "decode_inflight fid t r"]) auto
  then show ?thesis by (simp add: list_inflight_def not_open_def)
qed

lemma spoiled_upsert:
  assumes "spoiled s" and "upsert_inflight req st n e now s = Inr (u, s')"
  shows "spoiled s'"
proof -
  from assms(1) obtain r where r: "r \<in> set (inflight_requests (st_db s))" "unreadable r" "st_path s \<noteq> '':memory:''"
    by (auto simp: spoiled_def)
  from assms(2) obtain row where s': "s' = s\<lparr>st_db := sql_upsert row (st_db s)\<rparr>"
    by (auto simp: upsert_inflight_def run_sql_def not_open_def split: sum.splits if_splits)
  let ?f = "\<lambda>r. if i_key r = i_key row then r\<lparr>i_status := i_status row, i_retry_count := i_retry_count row,
      i_last_error := i_last_error row, i_updated_at := i_updated_at row\<rparr> else r"
  have "unreadable (?f r)" using r(2) by (simp add: unreadable_def)
  moreover have "?f r \<in> set (inflight_requests (st_db s')) \<or> r \<in> set (inflight_requests (st_db s'))"
    using r(1) by (auto simp: s' sql_upsert_def)
  ultimately show ?thesis using r(2,3) s' by (auto simp: spoiled_def)
qed

section \<open>A client that never works\<close>

definition disabled :: "Client \<Rightarrow> bool" where
  "disabled c \<longleftrightarrow> spoiled (c_storage c) \<and> c_workers c = [] \<and> c_reschedules c = []
     \<and> c_phase c \<in> {PIdle, PJoin, PCheck, PGather} \<and> (\<forall>x \<in> set (r_futures (c_dedup c)). x = Pending)
     \<and> (\<forall>r. CReturned r \<notin> set (c_callers c))"

lemma pending_blocked:
  assumes "(\<forall>x \<in> set (r_futures (c_dedup c)). x = Pending)" and "f < length (r_futures (c_dedup c))"
  shows "caller_wake f c = None"
proof -
  have "fut_state (c_dedup c) f = Pending" using assms nth_mem by (fastforce simp: fut_state_def)
  then show ?thesis by (simp add: caller_wake_def)
qed

lemma disabled_caller:
  assumes "disabled c" and "\<forall>f. target p = Some f \<longrightarrow> f < length (r_futures (c_dedup c))" and "caller_segment ev p c = Some (p', c')"
  shows "(\<forall>r. p' \<noteq> CReturned r) \<and> spoiled (c_storage c') \<and> c_workers c' = c_workers c \<and> c_reschedules c' = c_reschedules c
     \<and> c_phase c' = c_phase c \<and> c_dedup c' = c_dedup c \<and> c_callers c' = c_callers c"
proof -
  have sp: "spoiled (c_storage c)" and fut: "(\<forall>x \<in> set (r_futures (c_dedup c)). x = Pending)" using assms(1) by (simp_all add: disabled_def)
  show ?thesis
  proof (cases p)
    case (CUpsert req g)
    with assms(3) show ?thesis using sp spoiled_upsert [OF sp] by (auto simp: caller_persist_def split: sum.splits)
  next
    case (CEnqueue req g)
    with assms(3) show ?thesis using sp by (auto simp: caller_enqueue_def split: option.splits)
  next
    case (CAwait g)
    with assms(2,3) pending_blocked [OF fut] show ?thesis by simp
  qed (use assms(3) in auto)
qed

lemma disabled_step:
  assumes "client_step c c'" and dis: "disabled c" and ok: "reg_ok (c_dedup c)" "targets_ok c"
  shows "disabled c'"
  using assms(1)
proof cases
  case (request req)
  obtain f owner d where g: "get_or_create (c_dedup c) (idempotency_key req) = ((f, owner), d)" by (metis prod.exhaust)
  then have "\<forall>x \<in> set (r_futures d). x = Pending" using get_or_create_target [OF ok(1) g] dis by (auto simp: disabled_def subset_iff)
  then show ?thesis using dis request g by (auto simp: disabled_def request_begin_def)
next
  case (caller_moves j ev p d)
  have "\<forall>f. target (c_callers c ! j) = Some f \<longrightarrow> f < length (r_futures (c_dedup c))"
    using ok(2) nth_mem [OF caller_moves(2)] by (auto simp: targets_ok_def)
  note k = disabled_caller [OF dis this caller_moves(3)]
  have "CReturned r \<notin> set ((c_callers c)[j := p])" for r
    using k dis set_update_subset_insert [of "c_callers c" j p] by (auto simp: disabled_def)
  then show ?thesis using k dis caller_moves(1) by (simp add: disabled_def)
next
  case (starting fid t)
  have "spoiled (st_open_conn (c_storage c))" using dis by (auto simp: disabled_def spoiled_def st_open_conn_def)
  from spoiled_list [OF this, of fid t]
  have "snd (start_begin fid t c) = (if c_session c then c else c\<lparr>c_storage := st_open_conn (c_storage c), c_session := True\<rparr>)"
    by (auto simp: start_begin_def isl_def Let_def)
  then show ?thesis using dis \<open>spoiled (st_open_conn (c_storage c))\<close> starting by (simp add: disabled_def)
next
  case start_moves
  then show ?thesis using dis by (auto simp: disabled_def start_segment_def)
next
  case stop_moves
  have "spoiled (st_close (c_storage c))" using dis by (simp add: disabled_def spoiled_def st_close_def)
  then show ?thesis using stop_moves dis by (auto simp: disabled_def stop_segment_def stop_finish_def split: if_splits)
next
  case (removing n u s)
  have "spoiled s" using removing(2) dis by (auto simp: disabled_def spoiled_def remove_dead_letter_def run_sql_def not_open_def split: if_splits)
  then show ?thesis using removing(1) dis by (simp add: disabled_def)
qed (use dis in \<open>auto simp: disabled_def stop_begin_def client_metrics_def set_response_hook_def Let_def\<close>)

text \<open>From a new client on, together with the well-formed registry.\<close>

definition spoiled_new :: "Client \<Rightarrow> bool" where
  "spoiled_new c \<longleftrightarrow> client_fresh c \<and> spoiled (c_storage c)"

interpretation cld: invariant_system spoiled_new client_step "\<lambda>c. disabled c \<and> reg_ok (c_dedup c) \<and> targets_ok c"
proof unfold_locales
  fix c assume s: "spoiled_new c"
  then obtain cfg db where "new_Client cfg db = Inr c" by (auto simp: spoiled_new_def client_fresh_def)
  then have "c_workers c = [] \<and> c_reschedules c = [] \<and> c_phase c = PIdle \<and> r_futures (c_dedup c) = [] \<and> c_callers c = []"
    by (auto simp: new_Client_def new_InFlightRegistry_def split: sum.splits)
  then show "disabled c \<and> reg_ok (c_dedup c) \<and> targets_ok c"
    using s cls.inv_init [of c] by (simp add: spoiled_new_def disabled_def)
next
  show "disabled c \<and> reg_ok (c_dedup c) \<and> targets_ok c \<Longrightarrow> client_step c c' \<Longrightarrow> disabled c' \<and> reg_ok (c_dedup c') \<and> targets_ok c'" for c c'
    using disabled_step [of c c'] cls.inv_step [of c c'] by simp
qed

section \<open>Properties\<close>


definition spoiled_db :: database where
  "spoiled_db = empty_db\<lparr>inflight_requests :=
     [\<lparr>i_key = ''k'', i_request_id = ''r'', i_payload = ''{'', i_status = STATUS_PENDING, i_retry_count = 0,
       i_last_error = None, i_created_at = 0, i_updated_at = 0\<rparr>]\<rparr>"

lemma spoiled_db_row: "\<exists>r \<in> set (inflight_requests spoiled_db). unreadable r"
proof -
  have "isl (loads ''{'')" by code_simp
  then have "isl (parse_payload fid t ''{'')" for fid t by (auto simp: parse_payload_def isl_def)
  then show ?thesis by (simp add: spoiled_db_def unreadable_def)
qed


end
