(* ===== verification/Spec2Isabelle.thy ===== *)
theory Spec2Isabelle
  imports Cli Run_Demo System_Load Client_Session Client_Retry Client_Cancel Client_Corrupt
begin

text \<open>
  \<^bold>\<open>A verification of the async hardened client.\<close>

  The program is an HTTP client for unreliable services (\<open>src/async_hardened_client\<close>) and the failure
  simulator it is tested against (\<open>src/mock_server\<close>). A caller's request gets an idempotency key; equal
  requests in flight share one future (\<open>dedup.py\<close>); the owner writes a row to SQLite (\<open>storage.py\<close>) and puts
  an item into a bounded queue (\<open>queue.py\<close>). Workers (\<open>client.py\<close>) take items, ask the circuit breaker of the
  host (\<open>circuit_breaker.py\<close>) and its token bucket (\<open>rate_limiter.py\<close>), run the HTTP exchange and then settle
  the future, schedule a retry (\<open>retry.py\<close>) or write a dead letter. \<open>start\<close> recovers the rows an earlier
  process left; \<open>dead_letter.py\<close> and \<open>cli.py\<close> operate on the dead letters.

  \<^bold>\<open>Theories and sources.\<close>

  \<^item> \<open>Prelude\<close>: results, dictionaries as insertion-ordered association lists, reachability; the locales
    \<open>keyed_store\<close> (interpreted by the dictionaries), \<open>invariant_system\<close> (interpreted by every state machine
    below) and, on top of it, \<open>budget_system\<close>: what is spent and what is held is paid for by what was granted
    (interpreted by the metrics of the client and by the requests sent).
  \<^item> \<open>Py_Text\<close>, \<open>Py_Float\<close>, \<open>Py_Url\<close>, \<open>Py_Json\<close>, \<open>Py_Json_Roundtrip\<close>, \<open>Sha256\<close>: what the code uses of Python: number
    formats, \<open>float(str)\<close>, \<open>urlparse\<close> for the network location, \<open>json.dumps\<close> and \<open>json.loads\<close>, SHA-256 on 32-bit words.
    The JSON reader is fuelled by twice the length of its input plus two; the round trip shows that this is
    enough for everything the writer produces.
  \<^item> \<open>Errors\<close> (\<open>errors.py\<close>), \<open>Config\<close> (\<open>config.py\<close>), \<open>Models\<close> (\<open>models.py\<close>): exceptions as a datatype with their class
    tests, the configuration records, requests with \<open>idempotency_key\<close>, \<open>to_storage\<close> and \<open>from_storage\<close>. Shown: the
    storage form reads back, and the key identifies the request up to collisions of the hash.
  \<^item> \<open>Retry\<close> (\<open>retry.py\<close>): delays are within the cap; a positive header decides the delay.
  \<^item> \<open>Rate_Limiter\<close> (\<open>rate_limiter.py\<close>): a round of \<open>acquire\<close> is one step at a clock reading. Shown: the bound for
    every window, that \<open>acquire\<close> returns, that hosts do not affect each other.
  \<^item> \<open>Circuit_Breaker\<close> (\<open>circuit_breaker.py\<close>): the state machine, when it opens as an equivalence with a
    specification over the history, what an open and a half-open breaker admit.
  \<^item> \<open>Request_Queue\<close> (\<open>queue.py\<close>) with the locale \<open>bounded_fifo\<close>; \<open>Dedup\<close> (\<open>dedup.py\<close>) with the locale \<open>single_flight\<close> over
    a heap of futures; \<open>Storage\<close> and \<open>Storage_Inv\<close> (\<open>storage.py\<close>) with the locale \<open>work_log\<close>: the two tables as lists
    of rows, one definition per statement, and the invariant of the file through every operation.
  \<^item> \<open>Observability\<close> (\<open>observability.py\<close>): the metrics and their snapshot, the logging configuration.
  \<^item> \<open>Client\<close> (\<open>client.py\<close>): the record \<open>Client\<close>; a caller (\<open>caller_segment\<close>), a worker (\<open>worker_segment\<close>), a sleeping
    retry (\<open>reschedule_fires\<close>), \<open>start\<close> (\<open>start_begin\<close>, \<open>start_segment\<close>) and \<open>stop\<close> (\<open>stop_begin\<close>, \<open>stop_segment\<close>) as atomic
    segments; \<open>client_step\<close> interleaves them.
  \<^item> \<open>Ledger\<close>: the abstract specification, jobs with a pending future and a logged attempt. \<open>Client_Flow\<close>,
    \<open>Client_Inv\<close>, \<open>Client_Reach\<close>: the abstraction \<open>abs_client\<close>, the invariant and the simulation; \<open>Client_Account\<close>: the
    metrics and the attempt budget; \<open>Client_Paths\<close>: whole paths, from submission to the answer, the retry or the
    dead letter, and recovery; \<open>Client_Demo\<close>: reachable clients for the examples.
  \<^item> \<open>Client_Gates\<close>: breakers and buckets of a reachable client are well formed and on its configuration;
    \<open>Client_Retry\<close> rests on it: a request outlives any number of transient failures within the limit.
    \<open>Client_Share\<close>: futures are written once and the callers of one future end alike; \<open>Client_Cancel\<close>:
    cancellation of the task of a caller, an operation beside \<open>client_step\<close>, how it spreads and what is left
    of the key when an owner is cancelled; a write to the database that is cancelled may or may not happen.
    \<open>Client_Corrupt\<close>: what one row that cannot be decoded does to the whole client. \<open>Client_Session\<close>: the context
    managers (\<open>aenter\<close>, \<open>aexit\<close>, \<open>hardened_client\<close> of \<open>Client\<close>), how leaving ends and a whole session around one
    request; \<open>stop_run\<close> is fuelled by the number of segments, two for a client with nothing to drain.
  \<^item> \<open>Dead_Letter\<close> (\<open>dead_letter.py\<close>) and \<open>Cli\<close> (\<open>cli.py\<close>): replays as processes over the client, the commands with
    their exit status and output.
  \<^item> \<open>Mock_Server\<close> (\<open>mock_server/app.py\<close>): profile, quota, random failures and endpoints. Shown: exact counters, the
    quota by simulation of the token bucket of the client, and agreement with the client on a throttled request.
  \<^item> \<open>System\<close>: client and simulator composed, \<open>system_step\<close>. A worker that executes sends its request, a handler
    answers it, the answer arrives or is lost; all other steps interleave. The invariant \<open>system_ok\<close> ties both
    states together. The requests to \<open>/admin\<close> do not occur in it: they reset the counters compared.
    \<open>System_Load\<close>: the load on the server, bounded by what the client counts.
  \<^item> \<open>Run_Demo\<close> (\<open>examples/run_demo.py\<close>): \<open>main\<close> up to the block of the client (\<open>demo_open\<close>), the workloads of the demo, \<open>gather\<close> over
    the calls, and its assertion.
  \<^item> This theory: the properties of the whole client, over every reachable state, and the limits of its
    guarantees: where work is stranded.

  \<^bold>\<open>Modelling choices.\<close> A segment runs from one await that can suspend to the next; awaiting an uncontended
  \<open>asyncio.Lock\<close> or a method that never suspends ends none. A statement sent to SQLite and the code after its
  await are one segment. Clock readings, random draws, fresh identifiers and what the HTTP exchange yields are
  arguments. Finite floats of clocks, delays and buckets are reals; a float inside a JSON value is its literal.
  Strings are over characters below 256, so the message of one \<open>RuntimeError\<close> is shortened before its dash.
  Blocking is the value \<open>None\<close>: the segment cannot run yet. That something happens is stated as the existence
  of a run that reaches it, from every state that meets the hypotheses; that it cannot happen is stated for all
  runs. \<open>start\<close> and \<open>stop\<close> do not overlap; runs of \<open>client_step\<close> cancel no task of a caller. \<open>drain\<close> changes no state of its
  own: it is the waiting part of \<open>stop_segment\<close>.

  \<^bold>\<open>Not modelled.\<close> \<open>aiohttp\<close>, \<open>fastapi\<close> and \<open>uvicorn\<close> (the outcome of an exchange is an argument, what they make of
  headers is a parameter); the inside of SQLite; \<open>random.Random\<close> of the simulator, a parameter with the documented
  ranges as hypothesis; \<open>structlog\<close> behind its configuration, \<open>get_logger\<close>, and every log line; \<open>argparse\<close> and the
  layout of printed JSON; dictionaries with keys that are not strings; the server process, port and printing of
  \<open>examples/run_demo.py\<close>; cancellation of the task that runs \<open>start\<close> or \<open>stop\<close>; the re-exports of \<open>__init__.py\<close>.
\<close>

section \<open>Every execution\<close>

text \<open>C1: Whatever callers, workers, retries, \<open>start\<close> and \<open>stop\<close> do in whatever order, each step of
  the client is a sequence of steps of the ledger: work is only created, logged, advanced, settled
  or lost in the ways the ledger allows.\<close>

theorem client_refines_ledger:
  assumes "reach client_init client_step c" and "client_step c c'"
  shows "ledger_step\<^sup>*\<^sup>* (abs_client c) (abs_client c')"
  using client_step_both [OF cl.reach_inv [OF assms(1)] assms(2)] by simp

theorem client_refines_ledger_witness:
  "ledger_step\<^sup>*\<^sup>* (abs_client demo_started) (abs_client (request_begin sample_request demo_started))"
  by (rule client_refines_ledger [OF demo_started_reach client_step.request [OF sample_request_ok]])





text \<open>C4: No unit of work is ever tried more often than the retry policy allows, also across
  restarts, when the persisted counts were within the policy at the start.\<close>

theorem attempts_bounded:
  assumes "reach (\<lambda>c. client_init c \<and> attempts_ok c) client_step c" and "(k, Some a) \<in># jobs (abs_client c)"
  shows "0 \<le> a \<and> a \<le> max_retries (retry (c_cfg c))"
proof -
  have ok: "client_ok c" "attempts_ok c" using cla.reach_inv [OF assms(1)] by auto
  show ?thesis using worker_job_row [OF ok(1) assms(2)] ok(2) unfolding attempts_ok_def rows_within_def budget_def by blast
qed

theorem attempts_bounded_witness:
  "\<exists>c a. client_step\<^sup>*\<^sup>* demo_started c \<and> (item_key demo_item, Some a) \<in># jobs (abs_client c)
     \<and> a \<le> max_retries (retry (c_cfg c))"
proof -
  obtain c where c: "client_step\<^sup>*\<^sup>* demo_started c" "q_items (c_queue c) = [demo_item]" using demo_submitted by blast
  have "client_step\<^sup>*\<^sup>* demo_new demo_started" by (rule demo_new_steps)
  moreover have "reach (\<lambda>c. client_init c \<and> attempts_ok c) client_step demo_new"
    by (rule reach_start) (simp add: demo_init demo_attempts)
  ultimately have r: "reach (\<lambda>c. client_init c \<and> attempts_ok c) client_step c"
    using c(1) reach_steps by (metis rtranclp_trans)
  have j: "(item_key demo_item, Some 0) \<in># jobs (abs_client c)"
    using c(2) by (simp add: abs_client_def flow_def item_job_def)
  from attempts_bounded [OF r j] c(1) j show ?thesis by blast
qed

text \<open>C5: The counters account for the work: successes, terminal failures and work still open never
  exceed the requests started, every retryable failure is a retry and every terminal one a
  dead-letter push, and the reported success rate lies between 0 and 1.\<close>

theorem metrics_account:
  assumes "reach client_init client_step c"
  shows "requests_succeeded (c_metrics c) + requests_failed_terminal (c_metrics c) + live c \<le> requests_started (c_metrics c)
     \<and> retries_performed (c_metrics c) = requests_failed_retryable (c_metrics c)
     \<and> dlq_pushes (c_metrics c) = requests_failed_terminal (c_metrics c)
     \<and> 0 \<le> success_rate (c_metrics c) \<and> success_rate (c_metrics c) \<le> 1"
proof -
  have m: "metrics_ok c" using clm.reach_inv [OF assms] by simp
  have live: "0 \<le> live c" by (rule live_total)
  from m live have "0 \<le> requests_succeeded (c_metrics c)" "requests_succeeded (c_metrics c) \<le> requests_started (c_metrics c)"
    by (auto simp: metrics_ok_def counts_ok_def settled_def)
  then show ?thesis using m by (auto simp: metrics_ok_def counts_ok_def settled_def success_rate_def)
qed

theorem metrics_account_witness:
  "\<exists>(c :: Client) f. c_callers c = [CAwait f] \<and> success_rate (c_metrics c) \<le> 1"
  using demo_submitted metrics_account by blast

section \<open>Paths through the client\<close>

text \<open>C6: A new process recovers the log of the old one: \<open>start\<close> on a file with at most as many rows
  as the queue has slots ends with every row enqueued, oldest first, as the request that wrote it
  and at the attempt persisted, each with a pending future, and with all workers running.\<close>

theorem crash_recovery:
  assumes "new_Client cfg db = Inr c" and "log_ok db" and "db_path cfg \<noteq> '':memory:''"
    and "int (length (inflight_requests db)) \<le> max_size (queue_cfg cfg)"
  shows "\<exists>c1 rs c'. start_begin fid t c = (None, c1) \<and> list_inflight fid t (c_storage c1) = Inr rs
     \<and> map ir_idempotency_key rs = map i_key (sort_key i_created_at (inflight_requests db))
     \<and> start_run (Suc (length rs)) c1 = Some c' \<and> c_phase c' = PIdle
     \<and> c_workers c' = replicate (worker_count (queue_cfg cfg)) WIdle
     \<and> q_items (c_queue c') = map row_item rs
     \<and> (\<forall>r \<in> set (inflight_requests db). pending_for (c_dedup c') (i_key r) \<noteq> None)
     \<and> st_db (c_storage c') = db"
proof -
  obtain rs c1 where b: "start_begin fid t c = (None, c1)" "c_phase c1 = PRecover rs" "recoverable rs c1"
    "list_inflight fid t (c_storage c1) = Inr rs"
    "map ir_idempotency_key rs = map i_key (sort_key i_created_at (inflight_requests db))"
    "st_db (c_storage c1) = db" "c_cfg c1 = cfg" "q_items (c_queue c1) = []" "q_max (c_queue c1) = max_size (queue_cfg cfg)"
    using start_begin_new [OF assms(1-3)] by blast
  have "length rs = length (inflight_requests db)" using arg_cong [OF b(5), of length] by simp
  then obtain c2 where c2: "start_run (length rs) c1 = Some c2" "c_phase c2 = PRecover []" "recovered rs c1 c2"
    using recover_all [OF b(3,2)] b(8,9) assms(4) by (auto simp: depth_def)
  have "start_run (Suc (length rs)) c1 = Some (start_finish c2)"
    using start_run_snoc [OF c2(1)] c2(2) by (simp add: start_segment_def)
  moreover have "ir_idempotency_key ` set rs = i_key ` set (inflight_requests db)"
    using arg_cong [OF b(5), of set] by simp
  then have "\<forall>r \<in> set (inflight_requests db). pending_for (c_dedup c2) (i_key r) \<noteq> None"
    using c2(3) unfolding recovered_def by blast
  ultimately show ?thesis
    using b c2(3) by (intro exI [of _ c1] exI [of _ rs] exI [of _ "start_finish c2"])
      (auto simp: start_finish_def recovered_def)
qed

theorem crash_recovery_witness:
  "\<exists>db c1 rs c'. inflight_requests db \<noteq> [] \<and> start_begin ''f'' ''1.5'' (demo_on db) = (None, c1)
     \<and> start_run (Suc (length rs)) c1 = Some c' \<and> c_workers c' = replicate 16 WIdle \<and> q_items (c_queue c') = map row_item rs"
proof -
  obtain db where db: "log_ok db" "length (inflight_requests db) = 1" using demo_log by blast
  have "db_path default_ClientConfig \<noteq> '':memory:''" "worker_count (queue_cfg default_ClientConfig) = 16"
    "int (length (inflight_requests db)) \<le> max_size (queue_cfg default_ClientConfig)" "inflight_requests db \<noteq> []"
    using db(2) by (auto simp: default_ClientConfig_def default_QueueConfig_def)
  with crash_recovery [OF demo_on_Client db(1), of "''f''" "''1.5''"] show ?thesis by metis
qed

text \<open>C9: A request submitted to a running client with a free worker, a free key, a closed breaker and
  a token, and answered with a success, makes its caller return exactly that response; its row is
  gone, its key is free again and nothing went to the dead-letter queue.\<close>

theorem request_served:
  assumes "reach client_init client_step c" and "ready now req i c" and "req_ok req" and "request_payload req = Inr payload"
    and "execute_request req 0 outcome = Inr resp"
  shows "\<exists>c'. client_step\<^sup>*\<^sup>* c c' \<and> c_callers c' = c_callers c @ [CReturned resp]
     \<and> row_count (st_db (c_storage c')) (idempotency_key req) = None
     \<and> pending_for (c_dedup c') (idempotency_key req) = None
     \<and> dead_letter_queue (st_db (c_storage c')) = dead_letter_queue (st_db (c_storage c))
     \<and> requests_succeeded (c_metrics c') = requests_succeeded (c_metrics c) + 1"
  using served_steps [OF cl.reach_inv [OF assms(1)] assms(2,4,5)] begin_steps [OF assms(3)] by blast

theorem request_served_witness:
  "\<exists>c' resp. client_step\<^sup>*\<^sup>* demo_started c' \<and> c_callers c' = [CReturned resp] \<and> status_code resp = 204"
proof -
  obtain p where p: "request_payload sample_request = Inr p" using sample_payload by blast
  obtain resp where resp: "execute_request sample_request 0 (HttpResponse 204 [] []) = Inr resp" "status_code resp = 204"
    by (simp add: execute_request_def read_response_def)
  from request_served [OF demo_started_reach demo_ready sample_request_ok p resp(1)]
  show ?thesis using resp(2) demo_started_facts(6) by auto
qed

text \<open>The answer decides what the worker does next: a 2xx or 3xx completes the request with the
  attempts it took; a 429 or 5xx below the retry limit schedules a retry within the delay cap;
  everything else is dead-lettered with its status.\<close>

lemma answer_decides:
  assumes "e_http ev = HttpResponse st txt hs" and "qi_attempt item < 1024" and "0 \<le> e_rand ev" and "e_rand ev < 1"
  shows "case fst (step_execute ev item host c) of
       WDelOk item' resp \<Rightarrow> item' = item \<and> 200 \<le> st \<and> st < 400 \<and> status_code resp = st \<and> resp_retries resp = qi_attempt item
     | WIncr item' e d \<Rightarrow> item' = item \<and> (st = 429 \<or> 500 \<le> st \<and> st \<le> 599)
         \<and> qi_attempt item < max_retries (retry (c_cfg c)) \<and> (\<exists>s. d = Fin s \<and> s \<le> max 0 (max_delay (retry (c_cfg c))))
     | WPush item' e \<Rightarrow> item' = item \<and> status_code_of e = Some st \<and> \<not> (200 \<le> st \<and> st < 400)
         \<and> (\<not> (st = 429 \<or> 500 \<le> st \<and> st \<le> 599) \<or> max_retries (retry (c_cfg c)) \<le> qi_attempt item)
     | _ \<Rightarrow> False"
proof -
  have d: "\<exists>s. backoff_seconds (retry (c_cfg c)) (qi_attempt item) ra (e_rand ev) = Inr (Fin s)
      \<and> s \<le> max 0 (max_delay (retry (c_cfg c)))" for ra
    using backoff_finite [OF assms(2-4)] .
  show ?thesis
  proof (cases "is_retryable_status st")
    case True
    then have st: "st = 429 \<or> 500 \<le> st \<and> st \<le> 599" by (simp add: is_retryable_status_iff)
    obtain s where "backoff_seconds (retry (c_cfg c)) (qi_attempt item) (parse_retry_after (dget hs ''Retry-After'')) (e_rand ev) = Inr (Fin s)"
      "s \<le> max 0 (max_delay (retry (c_cfg c)))" using d by blast
    with True st show ?thesis
      by (auto simp: step_execute_def execute_request_def assms(1) Let_def classify_def is_throttle_def retry_or_dlq_def
          should_retry_def)
  next
    case False
    then have "\<not> (st = 429 \<or> 500 \<le> st \<and> st \<le> 599)" by (simp add: is_retryable_status_iff)
    with False show ?thesis
      by (auto simp: step_execute_def execute_request_def assms(1) Let_def classify_def is_throttle_def retry_or_dlq_def)
  qed
qed

lemma answer_decides_witness:
  "\<exists>e d. fst (step_execute env503 demo_item ''api.example.com'' demo_started) = WIncr demo_item e d"
  using answer_decides [of env503 503 "[]" "[]" demo_item demo_started "''api.example.com''"]
  by (simp add: env503_def demo_budget split: worker.splits)

text \<open>A retryable failure below the limit is not lost: the retry count in the log goes up by one, a
  reschedule task holds the next attempt with the computed delay, and the callers keep waiting on
  the same future.\<close>

lemma retry_scheduled:
  fixes ev :: env
  assumes "reach client_init client_step c" and "c_session c" and "i < length (c_workers c)" and "c_workers c ! i = WIdle"
    and "q_items (c_queue c) = item # items" and "admitted (e_now ev) (req_url (qi_request item)) c"
    and "execute_request (qi_request item) (qi_attempt item) (e_http ev) = Inl e0" and "classify e0 = (tell, e)"
    and "is_RetryableError e" and "qi_attempt item < max_retries (retry (c_cfg c))"
    and "backoff_seconds (retry (c_cfg c)) (qi_attempt item) (retry_after_of e) (e_rand ev) = Inr d"
  shows "\<exists>c'. client_step\<^sup>*\<^sup>* c c' \<and> c_workers c' ! i = WIdle
     \<and> c_reschedules c' = c_reschedules c @ [(item\<lparr>qi_attempt := qi_attempt item + 1\<rparr>, d)]
     \<and> row_count (st_db (c_storage c')) (item_key item) = Some (qi_attempt item + 1)
     \<and> pending_for (c_dedup c') = pending_for (c_dedup c)"
proof -
  have ok: "client_ok c" by (rule cl.reach_inv [OF assms(1)])
  have open_: "st_open (c_storage c)" using client_okD(4) [OF ok] assms(2) by simp
  have u: "0 < q_unfinished (c_queue c)"
    using client_okD(8) [OF ok] assms(5) by (simp add: unfinished_ok_def depth_def busy_count_def)
  have row: "row_count (st_db (c_storage c)) (item_key item) = Some (qi_attempt item)"
    using worker_job_row [OF ok, of "item_key item" "qi_attempt item"] assms(5)
    by (simp add: abs_client_def flow_def item_job_def)
  have sr: "should_retry (retry (c_cfg c)) (qi_attempt item)" using assms(10) by (simp add: should_retry_def)
  obtain c' where c': "worker_run [ev, ev, ev, ev] WIdle c = Some (WIdle, c')"
    "c_reschedules c' = c_reschedules c @ [(item\<lparr>qi_attempt := qi_attempt item + 1\<rparr>, d)]"
    "row_count (st_db (c_storage c')) = (row_count (st_db (c_storage c)))(item_key item \<mapsto> qi_attempt item + 1)"
    "c_dedup c' = c_dedup c"
    using retry_run [OF assms(5-9) sr assms(11) open_ u row] by blast
  have "client_step\<^sup>*\<^sup>* c (c'\<lparr>c_workers := (c_workers c)[i := WIdle]\<rparr>)"
    using worker_run_client [OF _ assms(3)] c'(1) assms(4) by metis
  then show ?thesis using c' assms(3) by (intro exI [of _ "c'\<lparr>c_workers := (c_workers c)[i := WIdle]\<rparr>"]) simp
qed

lemma retry_scheduled_witness:
  "\<exists>c' d. client_step\<^sup>*\<^sup>* demo_started c' \<and> c_reschedules c' = [(demo_item\<lparr>qi_attempt := 1\<rparr>, d)]
     \<and> row_count (st_db (c_storage c')) (item_key demo_item) = Some 1"
proof -
  obtain c f where c: "reach client_init client_step c" "client_step\<^sup>*\<^sup>* demo_started c" "q_items (c_queue c) = [demo_item]"
    "c_workers c = replicate 16 WIdle" "admitted 1 (req_url sample_request) c" "c_cfg c = default_ClientConfig"
    "c_session c" "c_reschedules c = []"
    using demo_submitted by blast
  have "\<exists>d. backoff_seconds (retry (c_cfg c)) 0 None (e_rand env503) = Inr d"
    using backoff_finite [of 0 "e_rand env503" "retry (c_cfg c)" None] by (auto simp: env503_def)
  then obtain d where d: "backoff_seconds (retry (c_cfg c)) 0 None (e_rand env503) = Inr d" by blast
  have w: "0 < length (c_workers c)" "c_workers c ! 0 = WIdle" using c(4) replicate_idle by simp_all
  have "admitted (e_now env503) (req_url (qi_request demo_item)) c" using c(5) by (simp add: env503_def)
  from retry_scheduled [OF c(1,7) w c(3) this demo_503, of d] d c(6) obtain c' where
    "client_step\<^sup>*\<^sup>* c c'" "c_reschedules c' = c_reschedules c @ [(demo_item\<lparr>qi_attempt := 1\<rparr>, d)]"
    "row_count (st_db (c_storage c')) (item_key demo_item) = Some 1"
    by (auto simp: default_ClientConfig_def default_RetryPolicy_def)
  with c(2,8) show ?thesis by (auto intro: rtranclp_trans)
qed

text \<open>C12: A request that failed for good leaves exactly one new dead-letter row, with its key, payload,
  error and attempts; its inflight row is gone and every caller waiting for it gets the terminal
  error.\<close>

theorem failure_dead_letters:
  assumes "reach client_init client_step c" and "c_session c" and "i < length (c_workers c)"
    and "c_workers c ! i = WPush item e" and "request_payload (qi_request item) = Inr payload"
  shows "\<exists>f c'. pending_for (c_dedup c) (item_key item) = Some f \<and> client_step\<^sup>*\<^sup>* c c'
     \<and> (\<exists>r. dead_letter_queue (st_db (c_storage c')) = dead_letter_queue (st_db (c_storage c)) @ [r]
          \<and> d_key r = item_key item \<and> d_payload r = payload \<and> d_error r = str_exc e \<and> d_retry_count r = qi_attempt item)
     \<and> row_count (st_db (c_storage c')) (item_key item) = None
     \<and> caller_segment ev (CAwait f) c' = Some (CFailed (Raised (terminal_exc e)), c')"
proof -
  have ok: "client_ok c" by (rule cl.reach_inv [OF assms(1)])
  have open_: "st_open (c_storage c)" using client_okD(4) [OF ok] assms(2) by simp
  have u: "0 < q_unfinished (c_queue c)"
    using slack_pos [of "c_workers c ! i" c] seg_pre_worker [OF ok assms(3)] assms(4) by (simp add: seg_pre_def)
  obtain F where "sum_list (map worker_jobs (c_workers c)) = F + worker_jobs (c_workers c ! i)"
    using sum_list_update_mset [OF assms(3), of worker_jobs] by blast
  then have "(item_key item, Some (qi_attempt item)) \<in># jobs (abs_client c)"
    using assms(4) by (simp add: abs_client_def task_jobs_def flow_def item_job_def)
  from ledger_invD(2) [OF client_okD(6) [OF ok] this] obtain f where f: "pending_for (c_dedup c) (item_key item) = Some f"
    by (auto simp: abs_client_def flow_def)
  obtain c' where c': "worker_run [ev, ev] (WPush item e) c = Some (WIdle, c')"
    "c_dedup c' = fail (c_dedup c) (item_key item) (terminal_exc e)"
    "row_count (st_db (c_storage c')) = (row_count (st_db (c_storage c)))(item_key item := None)"
    "\<exists>r. dead_letter_queue (st_db (c_storage c')) = dead_letter_queue (st_db (c_storage c)) @ [r]
       \<and> d_key r = item_key item \<and> d_payload r = payload \<and> d_error r = str_exc e \<and> d_retry_count r = qi_attempt item"
    using dead_letter_run [OF open_ u assms(5), of ev e] by auto
  let ?c = "c'\<lparr>c_workers := (c_workers c)[i := WIdle]\<rparr>"
  have "client_step\<^sup>*\<^sup>* c ?c" using worker_run_client [OF _ assms(3)] c'(1) assms(4) by metis
  moreover have "caller_segment ev (CAwait f) ?c = Some (CFailed (Raised (terminal_exc e)), ?c)"
    using failed_wakes [OF client_okD(1) [OF ok] f, of ?c "terminal_exc e"] c'(2) by simp
  ultimately show ?thesis using f c'(3,4) by (intro exI [of _ f] exI [of _ ?c]) simp
qed

theorem failure_dead_letters_witness:
  "\<exists>c c' r. reach client_init client_step c \<and> client_step\<^sup>*\<^sup>* c c'
     \<and> dead_letter_queue (st_db (c_storage c')) = dead_letter_queue (st_db (c_storage c)) @ [r] \<and> d_error r = ''HTTP 404''"
proof -
  obtain p where p: "request_payload (qi_request demo_item) = Inr p" using sample_payload by auto
  obtain c where c: "reach client_init client_step c" "c_session c" "0 < length (c_workers c)"
    "c_workers c ! 0 = WPush demo_item not_found" using demo_pushing by blast
  from failure_dead_letters [OF c p] obtain c' r where "client_step\<^sup>*\<^sup>* c c'"
    "dead_letter_queue (st_db (c_storage c')) = dead_letter_queue (st_db (c_storage c)) @ [r]" "d_error r = str_exc not_found"
    by blast
  with c(1) show ?thesis by auto
qed



section \<open>Limits of the guarantees\<close>

text \<open>C26: A retry whose delay ends while the client is stopping is dropped: nobody ever works on the
  key again in this process, its callers never wake, and only the row in the log is left for the
  next process.\<close>

theorem stopping_strands_retry:
  assumes "reach client_init client_step c" and "c_stopping c" and "k < length (c_reschedules c)"
    and "fst (c_reschedules c ! k) = item" and "reschedule_fires k c = Some c'" and "client_step\<^sup>*\<^sup>* c' d"
  shows "\<exists>f. pending_for (c_dedup c) (item_key item) = Some f \<and> caller_segment ev (CAwait f) d = None
     \<and> item_key item \<notin># keys_of (abs_client d)
     \<and> row_count (st_db (c_storage d)) (item_key item) = Some (qi_attempt item)"
proof -
  have ok: "client_ok c" by (rule cl.reach_inv [OF assms(1)])
  have c': "c' = c\<lparr>c_reschedules := remove_nth k (c_reschedules c)\<rparr>"
    using assms(2,5) by (simp add: reschedule_fires_def Let_def)
  have j: "jobs (abs_client c) = add_mset (item_job item) (jobs (abs_client c'))"
    using mset_remove_nth [OF assms(3)] assms(4) by (simp add: c' abs_client_def flow_def task_jobs_def)
  have "client_step\<^sup>*\<^sup>* c c'" using client_step.reschedule [OF assms(3,5)] by blast
  from lost_forever [OF ok j [unfolded item_job_def] _ _ conjunct2 [OF client_steps_both [OF this ok]] assms(6)]
  have l: "pending_for (c_dedup c) (item_key item) \<noteq> None"
    "pending_for (c_dedup d) (item_key item) = pending_for (c_dedup c) (item_key item)"
    "item_key item \<notin># keys_of (abs_client d)"
    "row_count (st_db (c_storage d)) (item_key item) = row_count (st_db (c_storage c)) (item_key item)"
    by (simp_all add: c' abs_client_def flow_def)
  moreover have "row_count (st_db (c_storage c)) (item_key item) = Some (qi_attempt item)"
    using worker_job_row [OF ok, of "item_key item" "qi_attempt item"] j by (simp add: item_job_def)
  ultimately show ?thesis using pending_blocks by fastforce
qed

theorem stopping_strands_retry_witness:
  "\<exists>c d f. reach client_init client_step c \<and> client_step\<^sup>*\<^sup>* c d \<and> pending_for (c_dedup c) (item_key demo_item) = Some f
     \<and> caller_segment env503 (CAwait f) d = None \<and> row_count (st_db (c_storage d)) (item_key demo_item) = Some 1"
proof -
  let ?item = "demo_item\<lparr>qi_attempt := 1\<rparr>"
  obtain c x where c: "reach client_init client_step c" "c_stopping c" "c_reschedules c = [(?item, x)]"
    using demo_stopping by blast
  have k: "0 < length (c_reschedules c)" "fst (c_reschedules c ! 0) = ?item" using c(3) by simp_all
  obtain c' where c': "reschedule_fires 0 c = Some c'" using c(2) by (simp add: reschedule_fires_def Let_def)
  have "client_step\<^sup>*\<^sup>* c c'" using client_step.reschedule [OF k(1) c'] by blast
  moreover have "item_key ?item = item_key demo_item" by (simp add: item_key_def)
  ultimately show ?thesis
    using stopping_strands_retry [OF c(1,2) k c' rtranclp.rtrancl_refl, of env503] c(1) by (auto intro!: exI)
qed

text \<open>C29: Recovery is bounded by the queue: when the log of an earlier process has more rows than the
  queue has slots, \<open>start\<close> enqueues before any worker runs, and whatever else happens it never
  returns.\<close>

theorem recovery_blocks:
  assumes "new_Client cfg db = Inr c" and "db_path cfg \<noteq> '':memory:''"
    and "list_inflight fid t \<lparr>st_path = db_path cfg, st_db = db, st_open = True\<rparr> = Inr rs"
    and "distinct (map ir_idempotency_key rs)" and "max_size (queue_cfg cfg) < int (length rs)"
  shows "\<exists>c1 n c2. start_begin fid t c = (None, c1) \<and> start_run n c1 = Some c2
     \<and> (\<forall>d. client_step\<^sup>*\<^sup>* c2 d \<longrightarrow> start_segment d = None \<and> c_phase d \<noteq> PIdle \<and> c_workers d = [])"
proof -
  obtain c1 where c1: "start_begin fid t c = (None, c1)" "c_phase c1 = PRecover rs" "recoverable rs c1"
    "c_workers c1 = []" "c_session c1" "q_items (c_queue c1) = []" "q_max (c_queue c1) = max_size (queue_cfg cfg)"
    "0 < max_size (queue_cfg cfg)"
    using start_begin_rows [OF assms(1-4)] by blast
  obtain n c2 item rs' where c2: "start_run n c1 = Some c2" "c_phase c2 = PRecoverPut item rs'" "c_workers c2 = []"
    "c_session c2" "is_full (c_queue c2)"
    using recover_overflow [OF c1(3,2,4,5)] c1(6-8) assms(5) by (auto simp: depth_def)
  then have "stuck c2" by (auto simp: stuck_def)
  have "start_segment d = None \<and> c_phase d \<noteq> PIdle \<and> c_workers d = []" if "client_step\<^sup>*\<^sup>* c2 d" for d
    using stuck_steps [OF that \<open>stuck c2\<close>] by (auto simp: stuck_def start_segment_def enqueue_def)
  with c1(1) c2(1) show ?thesis by blast
qed

theorem recovery_blocks_witness:
  "\<exists>cfg db c n c1 c2. new_Client cfg db = Inr c \<and> max_size (queue_cfg cfg) = 1 \<and> length (inflight_requests db) = 2
     \<and> start_begin ''f'' ''1.5'' c = (None, c1) \<and> start_run n c1 = Some c2
     \<and> (\<forall>d. client_step\<^sup>*\<^sup>* c2 d \<longrightarrow> c_phase d \<noteq> PIdle)"
proof -
  obtain p where p: "request_payload sample_request = Inr p" using sample_payload by blast
  let ?cfg = "default_ClientConfig\<lparr>queue_cfg := \<lparr>max_size = 1, worker_count = 1\<rparr>\<rparr>"
  let ?row = "\<lambda>k. \<lparr>i_key = k, i_request_id = ''r'', i_payload = p, i_status = STATUS_PENDING, i_retry_count = 0,
      i_last_error = None, i_created_at = 1, i_updated_at = 1\<rparr>"
  let ?db = "empty_db\<lparr>inflight_requests := [?row ''a'', ?row ''b'']\<rparr>"
  obtain c where c: "new_Client ?cfg ?db = Inr c" by (simp add: new_Client_def new_RequestQueue_def)
  have "\<exists>rs. list_inflight ''f'' ''1.5'' \<lparr>st_path = db_path ?cfg, st_db = ?db, st_open = True\<rparr> = Inr rs
      \<and> map ir_idempotency_key rs = [''a'', ''b'']"
    using parse_request_payload [OF sample_request_ok p, of "''f''" "''1.5''"]
    by (simp add: list_inflight_def decode_inflight_def)
  then obtain rs where rs: "list_inflight ''f'' ''1.5'' \<lparr>st_path = db_path ?cfg, st_db = ?db, st_open = True\<rparr> = Inr rs"
    "map ir_idempotency_key rs = [''a'', ''b'']" by (elim exE conjE)
  have "length rs = 2" using arg_cong [OF rs(2), of length] by (simp only: length_map) simp
  then have "distinct (map ir_idempotency_key rs)" "max_size (queue_cfg ?cfg) < int (length rs)"
    using rs(2) by simp_all
  moreover have "db_path ?cfg \<noteq> '':memory:''" by (simp add: default_ClientConfig_def)
  ultimately obtain c1 n c2 where "start_begin ''f'' ''1.5'' c = (None, c1)" "start_run n c1 = Some c2"
    "\<forall>d. client_step\<^sup>*\<^sup>* c2 d \<longrightarrow> c_phase d \<noteq> PIdle"
    using recovery_blocks [OF c _ rs(1)] by blast
  then show ?thesis using c by (intro exI [of _ ?cfg] exI [of _ ?db] exI [of _ c]) auto
qed

text \<open>C31: A request whose body or parameters \<open>json.dumps\<close> refuses fails its first caller with the
  \<open>TypeError\<close>, but its key stays registered: every later caller of the same request waits on a
  future nobody resolves.\<close>

theorem unencodable_strands_key:
  assumes "reach client_init client_step c" and "i < length (c_callers c)" and "c_callers c ! i = CUpsert req f"
    and "request_payload req = Inl err" and "caller_segment ev (c_callers c ! i) c = Some (p, c')"
    and "client_step\<^sup>*\<^sup>* (c'\<lparr>c_callers := (c_callers c')[i := p]\<rparr>) d"
  shows "p = CFailed (PyRaised err)
     \<and> (\<exists>g. pending_for (c_dedup c) (idempotency_key req) = Some g \<and> caller_segment ev' (CAwait g) d = None)"
proof -
  have ok: "client_ok c" by (rule cl.reach_inv [OF assms(1)])
  have p: "p = CFailed (PyRaised err)" "c' = c"
    using assms(3,4,5) by (auto simp: caller_persist_def upsert_inflight_def)
  let ?c = "c\<lparr>c_callers := (c_callers c)[i := p]\<rparr>"
  obtain F where F: "sum_list (map caller_jobs (c_callers c)) = F + caller_jobs (c_callers c ! i)"
    "\<And>y. sum_list (map caller_jobs ((c_callers c)[i := y])) = F + caller_jobs y"
    using sum_list_update_mset [OF assms(2), of caller_jobs] by blast
  have j: "jobs (abs_client c) = add_mset (idempotency_key req, None) (jobs (abs_client ?c))"
    using F assms(3) by (simp add: p abs_client_def flow_def task_jobs_def)
  have "client_step\<^sup>*\<^sup>* c ?c" using client_step.caller_moves [OF assms(2,5)] p(2) by auto
  from lost_forever [OF ok j _ _ conjunct2 [OF client_steps_both [OF this ok]]] assms(6)
  have "pending_for (c_dedup c) (idempotency_key req) \<noteq> None"
    "pending_for (c_dedup d) (idempotency_key req) = pending_for (c_dedup c) (idempotency_key req)"
    by (simp_all add: p abs_client_def flow_def)
  then show ?thesis using p(1) pending_blocks by fastforce
qed

theorem unencodable_strands_key_witness:
  "\<exists>c d e g. client_step\<^sup>*\<^sup>* demo_started d \<and> c_callers d = [CFailed (PyRaised e)] \<and> caller_segment env503 (CAwait g) d = None"
proof -
  let ?req = "sample_request\<lparr>req_body := PyBytes ''x''\<rparr>" and ?c = "request_begin (sample_request\<lparr>req_body := PyBytes ''x''\<rparr>) demo_started"
  have "req_ok ?req" using sample_request_ok by (simp add: req_ok_def)
  then have s: "client_step demo_started ?c" by (rule client_step.request)
  have r: "reach client_init client_step ?c" using demo_started_reach s by (rule reach_next)
  obtain f where f: "c_callers ?c = [CUpsert ?req f]"
    by (simp add: request_begin_def demo_started_def demo_new_def get_or_create_def new_InFlightRegistry_def dget_def)
  obtain err where e: "request_payload ?req = Inl err"
    using request_payload_defined [of ?req] by (cases "request_payload ?req") auto
  have i: "0 < length (c_callers ?c)" "c_callers ?c ! 0 = CUpsert ?req f" using f by simp_all
  have g: "caller_segment env503 (c_callers ?c ! 0) ?c = Some (CFailed (PyRaised err), ?c)"
    using i(2) e by (simp add: caller_persist_def upsert_inflight_def)
  let ?d = "?c\<lparr>c_callers := (c_callers ?c)[0 := CFailed (PyRaised err)]\<rparr>"
  from unencodable_strands_key [OF r i e g rtranclp.rtrancl_refl, of env503] obtain h where
    "caller_segment env503 (CAwait h) ?d = None" by blast
  moreover have "client_step\<^sup>*\<^sup>* demo_started ?d"
    using s client_step.caller_moves [OF i(1) g] by (meson r_into_rtranclp rtranclp.rtrancl_into_rtrancl)
  moreover have "c_callers ?d = [CFailed (PyRaised err)]" using f by simp
  ultimately show ?thesis by blast
qed

text \<open>C32: A half-open breaker whose last probe slot is taken is not told about a 429: the slot stays
  taken, and however many calls arrive none is admitted until some other outcome is reported.\<close>

theorem throttled_probe_leaks:
  assumes "e_http ev = HttpResponse 429 txt hs" and "cb_state (breaker_at (c_breakers c) host) = HALF_OPEN"
    and "half_open_max_probes (cb_cfg (breaker_at (c_breakers c) host)) \<le> cb_inflight_probes (breaker_at (c_breakers c) host)"
  shows "admissions ts (breaker_at (c_breakers (snd (step_execute ev item host c))) host) = 0"
proof -
  have "c_breakers (snd (retry_or_dlq ev item e ra c')) = c_breakers c'" for e ra c'
    by (auto simp: retry_or_dlq_def Let_def worker_dies_def split: sum.splits)
  then have "c_breakers (snd (step_execute ev item host c)) = c_breakers c"
    using assms(1) by (simp add: step_execute_def execute_request_def Let_def classify_def is_throttle_def
        is_retryable_status_def)
  then show ?thesis using half_open_admissions [OF assms(2), of ts] assms(3) by simp
qed

theorem throttled_probe_leaks_witness:
  "admissions [60, 600, 6000] (breaker_at (c_breakers (snd (step_execute \<lparr>e_now = 51, e_rand = 0, e_http = HttpResponse 429 [] []\<rparr>
      demo_item ''h'' (demo_started\<lparr>c_breakers := \<lparr>h_cfg = default_CircuitBreakerConfig,
        h_breakers = [(''h'', snd (before_call 50 (open_now 10 (new_CircuitBreaker ''h'' default_CircuitBreakerConfig))))]\<rparr>\<rparr>)))) ''h'') = 0"
proof -
  let ?cb = "snd (before_call 50 (open_now 10 (new_CircuitBreaker ''h'' default_CircuitBreakerConfig)))"
  let ?c = "demo_started\<lparr>c_breakers := \<lparr>h_cfg = default_CircuitBreakerConfig, h_breakers = [(''h'', ?cb)]\<rparr>\<rparr>"
  have "breaker_at (c_breakers ?c) ''h'' = ?cb" by (simp add: breaker_at_def dget_def)
  moreover have "cb_state ?cb = HALF_OPEN" "half_open_max_probes (cb_cfg ?cb) \<le> cb_inflight_probes ?cb"
    by (simp_all add: cb_defs new_CircuitBreaker_def default_CircuitBreakerConfig_def)
  ultimately show ?thesis
    using throttled_probe_leaks [of "\<lparr>e_now = 51, e_rand = 0, e_http = HttpResponse 429 [] []\<rparr>" "[]" "[]" ?c "''h''"]
    by (simp only: env.simps simp_thms)
qed

end
